(* ===== verification/Aesd_Prelude.thy ===== *)
theory Aesd_Prelude
  imports Main "HOL-Library.Word"
begin

text \<open>
  Shared vocabulary of the development: the machine types of the C code, the result type
  of code that can fault, and the generic lemmas on results, lists and words that the
  component theories use.
\<close>

section \<open>Machine types\<close>

text \<open>
  The code is built for a 64-bit Linux: \<open>size_t\<close>, \<open>ssize_t\<close>, \<open>loff_t\<close>,
  \<open>long\<close> and pointers are 64 bits wide. A signed value is the same word, read with
  \<open>sint\<close> and compared with the signed order.
\<close>

type_synonym byte = "8 word"
type_synonym u8 = "8 word"
type_synonym u32 = "32 word"
type_synonym c_int = "32 word"
type_synonym size_t = "64 word"
type_synonym ssize_t = "64 word"
type_synonym loff_t = "64 word"
type_synonym c_long = "64 word"
type_synonym ptr = "64 word"

abbreviation NULL :: ptr where
  "NULL \<equiv> 0"

definition newline :: byte where
  "newline = 10"

section \<open>Results that can fault\<close>

text \<open>
  What C leaves undefined, or what stops the machine, is a value of \<open>fault\<close>; an error
  code that the code returns is an ordinary result.
\<close>

datatype fault =
    OutOfBounds \<comment> \<open>access outside an array or a block\<close>
  | BadPointer \<comment> \<open>dereference of NULL or of an address that holds no such object\<close>
  | BadFree \<comment> \<open>free of an address that is not allocated\<close>
  | IntOverflow \<comment> \<open>signed overflow\<close>
  | Uninitialised \<comment> \<open>use of an indeterminate value\<close>
  | Blocked \<comment> \<open>waits for a lock that is held or a thread that does not end\<close>
  | BadUnlock \<comment> \<open>unlocks a mutex that is not held\<close>
  | Diverges \<comment> \<open>the loop never ends\<close>
  | Panic \<comment> \<open>\<open>panic\<close> of the kernel\<close>

type_synonym 'a res = "fault + 'a"

fun bindE :: "'a res \<Rightarrow> ('a \<Rightarrow> 'b res) \<Rightarrow> 'b res" where
  "bindE (Inl e) f = Inl e"
| "bindE (Inr x) f = f x"

definition guardE :: "fault \<Rightarrow> bool \<Rightarrow> unit res" where
  "guardE e b = (if b then Inr () else Inl e)"

definition returned :: "'a res option \<Rightarrow> 'a res" where
  "returned r = (case r of None \<Rightarrow> Inl Diverges | Some x \<Rightarrow> x)"

named_theorems res_simps \<open>evaluation of results that can fault\<close>

lemma bindE_Inr_iff [res_simps]:
  "bindE m f = Inr y \<longleftrightarrow> (\<exists>x. m = Inr x \<and> f x = Inr y)"
  by (cases m) auto

lemma bindE_assoc: "bindE (bindE m f) g = bindE m (\<lambda>x. bindE (f x) g)"
  by (cases m) auto

lemma guardE_Inr_iff [res_simps]: "guardE e b = Inr u \<longleftrightarrow> b"
  by (simp add: guardE_def)

lemma guardE_True [simp]: "guardE e True = Inr ()"
  by (simp add: guardE_def)

lemma guardE_False [simp]: "guardE e False = Inl e"
  by (simp add: guardE_def)

lemma returned_simps [simp]: "returned None = Inl Diverges" "returned (Some r) = r"
  by (simp_all add: returned_def)

section \<open>The last elements of a list\<close>

definition lastn :: "nat \<Rightarrow> 'a list \<Rightarrow> 'a list" where
  "lastn n xs = drop (length xs - n) xs"

lemma length_lastn [simp]: "length (lastn n xs) = min n (length xs)"
  by (simp add: lastn_def)

lemma lastn_all [simp]: "length xs \<le> n \<Longrightarrow> lastn n xs = xs"
  by (simp add: lastn_def)

lemma lastn_Nil [simp]: "lastn n [] = []"
  by (simp add: lastn_def)

lemma lastn_append_lastn: "lastn n (lastn n xs @ ys) = lastn n (xs @ ys)"
proof (cases "length xs \<le> n")
  case False
  then show ?thesis
    by (simp add: lastn_def min_def add.commute)
qed simp

lemma map_lastn: "map f (lastn n xs) = lastn n (map f xs)"
  by (simp add: lastn_def drop_map)

lemma lastn_snoc_full:
  "length xs = n \<Longrightarrow> 0 < n \<Longrightarrow> lastn n (xs @ [x]) = tl xs @ [x]"
  by (cases xs) (simp_all add: lastn_def)

lemma set_lastn_subset: "set (lastn n xs) \<subseteq> set xs"
  by (auto simp: lastn_def dest: in_set_dropD)

lemma list_all2_lastn: "list_all2 R xs ys \<Longrightarrow> list_all2 R (lastn n xs) (lastn n ys)"
  using list_all2_lengthD [of R xs ys] by (simp add: lastn_def)

lemma take_append_lastn: "take (length xs - n) xs @ lastn n xs = xs"
  by (simp add: lastn_def)

section \<open>Words read as naturals\<close>

named_theorems word_nat \<open>words read as naturals\<close>

lemma unat_add_small [word_nat]:
  fixes a b :: "'a::len word"
  assumes "unat a + unat b < 2 ^ LENGTH('a)"
  shows "unat (a + b) = unat a + unat b"
  using assms by (simp add: unat_word_ariths)

lemma unat_of_nat_small [word_nat]:
  "n < 2 ^ LENGTH('a) \<Longrightarrow> unat (of_nat n :: 'a::len word) = n"
  by (simp add: unat_of_nat)

lemma unat_sub_le [word_nat]:
  fixes a b :: "'a::len word"
  shows "b \<le> a \<Longrightarrow> unat (a - b) = unat a - unat b"
  by (rule unat_sub)

lemma word_less_iff_unat: "a < b \<longleftrightarrow> unat a < unat b" for a b :: "'a::len word"
  by (rule word_less_nat_alt)

lemma word_le_iff_unat: "a \<le> b \<longleftrightarrow> unat a \<le> unat b" for a b :: "'a::len word"
  by (rule word_le_nat_alt)

lemma word_eq_iff_unat: "a = b \<longleftrightarrow> unat a = unat b" for a b :: "'a::len word"
  by (simp add: word_unat_eq_iff)

text \<open>A counter below a bound can be incremented; it is the measure of a \<open>for\<close> loop.\<close>

lemma unat_Suc_bounded:
  fixes a n :: "'a::len word"
  assumes "a < n"
  shows "unat (a + 1) = Suc (unat a)"
proof -
  have "Suc (unat a) \<le> unat n" using assms by (simp add: word_less_nat_alt)
  then have "Suc (unat a) < 2 ^ LENGTH('a)"
    by (rule le_less_trans) (rule unsigned_less)
  then have "unat a + unat (1::'a word) < 2 ^ LENGTH('a)" by simp
  then show ?thesis by (simp add: unat_add_small)
qed

lemma count_up_measure:
  fixes a n :: "'a::len word"
  assumes "a < n" and "unat n = m"
  shows "m - unat (a + 1) < m - unat a"
proof -
  have "unat (a + 1) = Suc (unat a)" using assms(1) by (rule unat_Suc_bounded)
  with assms show ?thesis by (simp add: word_less_nat_alt)
qed

text \<open>A cursor that wraps at \<open>n\<close>, in both forms the code uses.\<close>

lemma cursor_wrap:
  fixes a :: "'a::len word"
  assumes "unat a < n" and "n < 2 ^ LENGTH('a)"
  shows "(if a + 1 = of_nat n then 0 else a + 1) = of_nat (Suc (unat a) mod n)"
proof -
  have s: "unat (a + 1) = Suc (unat a)"
    using assms by (intro unat_Suc_bounded [of _ "of_nat n"])
      (simp add: word_less_nat_alt unat_of_nat_small)
  then have e: "a + 1 = of_nat n \<longleftrightarrow> Suc (unat a) = n"
    using assms by (simp add: word_unat_eq_iff unat_of_nat_small)
  have v: "a + 1 = of_nat (Suc (unat a))"
    using assms s by (metis unat_of_nat_small word_unat_eq_iff Suc_leI le_less_trans)
  show ?thesis
  proof (cases "Suc (unat a) = n")
    case True
    with e have "a + 1 = of_nat n" by blast
    with True show ?thesis by simp
  next
    case False
    with e have "a + 1 \<noteq> of_nat n" by blast
    then show ?thesis
      unfolding v using False assms(1) by simp
  qed
qed

lemma unat_ucast_size_t [simp]: "unat (ucast (a :: u8) :: size_t) = unat a"
proof -
  have "unat a < 2 ^ 64"
    using unsigned_less [of a, where 'a = nat] by simp
  then show ?thesis
    by (simp add: unsigned_ucast_eq take_bit_nat_eq_self)
qed

lemma unat_ucast_u32_size_t [simp]: "unat (ucast (a :: u32) :: size_t) = unat a"
proof -
  have "unat a < 2 ^ 64"
    using unsigned_less [of a, where 'a = nat] by simp
  then show ?thesis
    by (simp add: unsigned_ucast_eq take_bit_nat_eq_self)
qed

end
