(* ===== verification/Tail_Queue.thy ===== *)
theory Tail_Queue
  imports Aesd_Prelude
begin

text \<open>
  The tail queues of \<open>server/queue.h\<close>, the list of connection threads of the server.
  The \<open>TAILQ\<close> macros are modelled on a store of pointer cells, with one map per field;
  an access to an address that holds no such field is a fault. The other traversals and the
  other three list families of the header follow in \<open>Queue_Traversals\<close>, \<open>Singly_Linked\<close> and
  \<open>Doubly_Linked\<close>.
\<close>

section \<open>The store\<close>

text \<open>
  A value of type \<open>struct type **\<close> is the address of a cell: the \<open>tqh_first\<close> field of a
  head or the \<open>tqe_next\<close> field of an element.
\<close>

datatype link = FirstOf ptr | NextOf ptr

record tailq_store =
  cell :: "link \<Rightarrow> ptr option" \<comment> \<open>\<open>tqh_first\<close> and \<open>tqe_next\<close>\<close>
  tqe_prev :: "ptr \<Rightarrow> link option"
  tqh_last :: "ptr \<Rightarrow> link option"

definition load :: "'v option \<Rightarrow> 'v res" where
  "load v = (case v of None \<Rightarrow> Inl BadPointer | Some x \<Rightarrow> Inr x)"

definition wr_cell :: "tailq_store \<Rightarrow> link \<Rightarrow> ptr \<Rightarrow> tailq_store res" where
  "wr_cell m l p = bindE (load (cell m l)) (\<lambda>_. Inr (m\<lparr>cell := (cell m)(l \<mapsto> p)\<rparr>))"

definition wr_prev :: "tailq_store \<Rightarrow> ptr \<Rightarrow> link \<Rightarrow> tailq_store res" where
  "wr_prev m e l = bindE (load (tqe_prev m e)) (\<lambda>_. Inr (m\<lparr>tqe_prev := (tqe_prev m)(e \<mapsto> l)\<rparr>))"

definition wr_last :: "tailq_store \<Rightarrow> ptr \<Rightarrow> link \<Rightarrow> tailq_store res" where
  "wr_last m h l = bindE (load (tqh_last m h)) (\<lambda>_. Inr (m\<lparr>tqh_last := (tqh_last m)(h \<mapsto> l)\<rparr>))"

section \<open>The macros\<close>

definition TAILQ_FIRST :: "tailq_store \<Rightarrow> ptr \<Rightarrow> ptr res" where
  "TAILQ_FIRST m head = load (cell m (FirstOf head))"

definition TAILQ_NEXT :: "tailq_store \<Rightarrow> ptr \<Rightarrow> ptr res" where
  "TAILQ_NEXT m elm = load (cell m (NextOf elm))"

definition TAILQ_EMPTY :: "tailq_store \<Rightarrow> ptr \<Rightarrow> bool res" where
  "TAILQ_EMPTY m head = bindE (TAILQ_FIRST m head) (\<lambda>p. Inr (p = NULL))"

text \<open>Static initialisation: the object appears with its two fields set.\<close>

definition TAILQ_HEAD_INITIALIZER :: "tailq_store \<Rightarrow> ptr \<Rightarrow> tailq_store" where
  "TAILQ_HEAD_INITIALIZER m head =
     m\<lparr>cell := (cell m)(FirstOf head \<mapsto> NULL), tqh_last := (tqh_last m)(head \<mapsto> FirstOf head)\<rparr>"

definition TAILQ_INIT :: "tailq_store \<Rightarrow> ptr \<Rightarrow> tailq_store res" where
  "TAILQ_INIT m head =
     bindE (wr_cell m (FirstOf head) NULL) (\<lambda>m. wr_last m head (FirstOf head))"

definition TAILQ_INSERT_HEAD :: "tailq_store \<Rightarrow> ptr \<Rightarrow> ptr \<Rightarrow> tailq_store res" where
  "TAILQ_INSERT_HEAD m head elm =
     bindE (TAILQ_FIRST m head) (\<lambda>first.
     bindE (wr_cell m (NextOf elm) first) (\<lambda>m.
     bindE (if first \<noteq> NULL
            then bindE (TAILQ_FIRST m head) (\<lambda>f. wr_prev m f (NextOf elm))
            else wr_last m head (NextOf elm)) (\<lambda>m.
     bindE (wr_cell m (FirstOf head) elm) (\<lambda>m.
     wr_prev m elm (FirstOf head)))))"

definition TAILQ_INSERT_TAIL :: "tailq_store \<Rightarrow> ptr \<Rightarrow> ptr \<Rightarrow> tailq_store res" where
  "TAILQ_INSERT_TAIL m head elm =
     bindE (wr_cell m (NextOf elm) NULL) (\<lambda>m.
     bindE (load (tqh_last m head)) (\<lambda>l.
     bindE (wr_prev m elm l) (\<lambda>m.
     bindE (load (tqh_last m head)) (\<lambda>l.
     bindE (wr_cell m l elm) (\<lambda>m.
     wr_last m head (NextOf elm))))))"

definition TAILQ_INSERT_AFTER :: "tailq_store \<Rightarrow> ptr \<Rightarrow> ptr \<Rightarrow> ptr \<Rightarrow> tailq_store res" where
  "TAILQ_INSERT_AFTER m head listelm elm =
     bindE (TAILQ_NEXT m listelm) (\<lambda>n.
     bindE (wr_cell m (NextOf elm) n) (\<lambda>m.
     bindE (if n \<noteq> NULL
            then bindE (TAILQ_NEXT m elm) (\<lambda>n. wr_prev m n (NextOf elm))
            else wr_last m head (NextOf elm)) (\<lambda>m.
     bindE (wr_cell m (NextOf listelm) elm) (\<lambda>m.
     wr_prev m elm (NextOf listelm)))))"

definition TAILQ_INSERT_BEFORE :: "tailq_store \<Rightarrow> ptr \<Rightarrow> ptr \<Rightarrow> tailq_store res" where
  "TAILQ_INSERT_BEFORE m listelm elm =
     bindE (load (tqe_prev m listelm)) (\<lambda>l.
     bindE (wr_prev m elm l) (\<lambda>m.
     bindE (wr_cell m (NextOf elm) listelm) (\<lambda>m.
     bindE (load (tqe_prev m listelm)) (\<lambda>l.
     bindE (wr_cell m l elm) (\<lambda>m.
     wr_prev m listelm (NextOf elm))))))"

definition TAILQ_REMOVE :: "tailq_store \<Rightarrow> ptr \<Rightarrow> ptr \<Rightarrow> tailq_store res" where
  "TAILQ_REMOVE m head elm =
     bindE (TAILQ_NEXT m elm) (\<lambda>n.
     bindE (if n \<noteq> NULL
            then bindE (load (tqe_prev m elm)) (\<lambda>l. wr_prev m n l)
            else bindE (load (tqe_prev m elm)) (\<lambda>l. wr_last m head l)) (\<lambda>m.
     bindE (load (tqe_prev m elm)) (\<lambda>l.
     bindE (TAILQ_NEXT m elm) (\<lambda>n.
     wr_cell m l n))))"

text \<open>
  \<open>TAILQ_LAST\<close> and \<open>TAILQ_PREV\<close> read the cell before a cell: the address of a
  \<open>tqe_next\<close> field is cast to a head, whose second field \<open>tqh_last\<close> lies where the
  element keeps \<open>tqe_prev\<close>.
\<close>

definition cast_last :: "tailq_store \<Rightarrow> link \<Rightarrow> link res" where
  "cast_last m l = (case l of FirstOf h \<Rightarrow> load (tqh_last m h) | NextOf e \<Rightarrow> load (tqe_prev m e))"

definition TAILQ_LAST :: "tailq_store \<Rightarrow> ptr \<Rightarrow> ptr res" where
  "TAILQ_LAST m head =
     bindE (load (tqh_last m head)) (\<lambda>l.
     bindE (cast_last m l) (\<lambda>l. load (cell m l)))"

definition TAILQ_PREV :: "tailq_store \<Rightarrow> ptr \<Rightarrow> ptr res" where
  "TAILQ_PREV m elm =
     bindE (load (tqe_prev m elm)) (\<lambda>l.
     bindE (cast_last m l) (\<lambda>l. load (cell m l)))"

definition TAILQ_CONCAT :: "tailq_store \<Rightarrow> ptr \<Rightarrow> ptr \<Rightarrow> tailq_store res" where
  "TAILQ_CONCAT m head1 head2 =
     bindE (TAILQ_EMPTY m head2) (\<lambda>empty.
     if \<not> empty then
       bindE (load (tqh_last m head1)) (\<lambda>l.
       bindE (TAILQ_FIRST m head2) (\<lambda>f.
       bindE (wr_cell m l f) (\<lambda>m.
       bindE (TAILQ_FIRST m head2) (\<lambda>f.
       bindE (load (tqh_last m head1)) (\<lambda>l.
       bindE (wr_prev m f l) (\<lambda>m.
       bindE (load (tqh_last m head2)) (\<lambda>l.
       bindE (wr_last m head1 l) (\<lambda>m.
       TAILQ_INIT m head2))))))))
     else Inr m)"

text \<open>
  \<open>TAILQ_FOREACH\<close> with a body that leaves the links alone, and the reverse traversal.
  The loop over a cyclic list does not end; that is the outer \<open>None\<close>.
\<close>

partial_function (option) foreach_loop ::
  "tailq_store \<Rightarrow> (ptr \<Rightarrow> 's \<Rightarrow> 's res) \<Rightarrow> ptr \<Rightarrow> 's \<Rightarrow> 's res option" where
  "foreach_loop m body var s =
     (if var = NULL then Some (Inr s)
      else case body var s of
          Inl e \<Rightarrow> Some (Inl e)
        | Inr s' \<Rightarrow>
            (case TAILQ_NEXT m var of
               Inl e \<Rightarrow> Some (Inl e)
             | Inr n \<Rightarrow> foreach_loop m body n s'))"

definition TAILQ_FOREACH :: "tailq_store \<Rightarrow> ptr \<Rightarrow> (ptr \<Rightarrow> 's \<Rightarrow> 's res) \<Rightarrow> 's \<Rightarrow> 's res" where
  "TAILQ_FOREACH m head body s =
     bindE (TAILQ_FIRST m head) (\<lambda>var. returned (foreach_loop m body var s))"

partial_function (option) foreach_reverse_loop ::
  "tailq_store \<Rightarrow> (ptr \<Rightarrow> 's \<Rightarrow> 's res) \<Rightarrow> ptr \<Rightarrow> 's \<Rightarrow> 's res option" where
  "foreach_reverse_loop m body var s =
     (if var = NULL then Some (Inr s)
      else case body var s of
          Inl e \<Rightarrow> Some (Inl e)
        | Inr s' \<Rightarrow>
            (case TAILQ_PREV m var of
               Inl e \<Rightarrow> Some (Inl e)
             | Inr n \<Rightarrow> foreach_reverse_loop m body n s'))"

definition TAILQ_FOREACH_REVERSE ::
  "tailq_store \<Rightarrow> ptr \<Rightarrow> (ptr \<Rightarrow> 's \<Rightarrow> 's res) \<Rightarrow> 's \<Rightarrow> 's res" where
  "TAILQ_FOREACH_REVERSE m head body s =
     bindE (TAILQ_LAST m head) (\<lambda>var. returned (foreach_reverse_loop m body var s))"

text \<open>\<open>TAILQ_SWAP\<close>, with its two pointer temporaries.\<close>

definition TAILQ_SWAP :: "tailq_store \<Rightarrow> ptr \<Rightarrow> ptr \<Rightarrow> tailq_store res" where
  "TAILQ_SWAP m head1 head2 =
     bindE (TAILQ_FIRST m head1) (\<lambda>swap_first.
     bindE (load (tqh_last m head1)) (\<lambda>swap_last.
     bindE (TAILQ_FIRST m head2) (\<lambda>f.
     bindE (wr_cell m (FirstOf head1) f) (\<lambda>m.
     bindE (load (tqh_last m head2)) (\<lambda>l.
     bindE (wr_last m head1 l) (\<lambda>m.
     bindE (wr_cell m (FirstOf head2) swap_first) (\<lambda>m.
     bindE (wr_last m head2 swap_last) (\<lambda>m.
     bindE (TAILQ_FIRST m head1) (\<lambda>swap_first.
     bindE (if swap_first \<noteq> NULL then wr_prev m swap_first (FirstOf head1)
            else wr_last m head1 (FirstOf head1)) (\<lambda>m.
     bindE (TAILQ_FIRST m head2) (\<lambda>swap_first.
     if swap_first \<noteq> NULL then wr_prev m swap_first (FirstOf head2)
     else wr_last m head2 (FirstOf head2))))))))))))"

section \<open>Abstraction to lists\<close>

text \<open>
  The chain of elements \<open>xs\<close> entered through the cell \<open>l\<close>: each element is stored in
  the cell before it, and its \<open>tqe_prev\<close> is the address of that cell.
\<close>

primrec seg :: "(link \<Rightarrow> ptr option) \<Rightarrow> (ptr \<Rightarrow> link option) \<Rightarrow> link \<Rightarrow> ptr list \<Rightarrow> bool" where
  "seg c p l [] = True"
| "seg c p l (x # xs) =
     (c l = Some x \<and> x \<noteq> NULL \<and> c (NextOf x) \<noteq> None \<and> p x = Some l \<and> seg c p (NextOf x) xs)"

text \<open>The cell at the end of the chain.\<close>

primrec endl :: "link \<Rightarrow> ptr list \<Rightarrow> link" where
  "endl l [] = l"
| "endl l (x # xs) = endl (NextOf x) xs"

definition tailq :: "tailq_store \<Rightarrow> ptr \<Rightarrow> ptr list \<Rightarrow> bool" where
  "tailq m h xs \<longleftrightarrow> distinct xs \<and> seg (cell m) (tqe_prev m) (FirstOf h) xs \<and>
     tqh_last m h = Some (endl (FirstOf h) xs) \<and> cell m (endl (FirstOf h) xs) = Some NULL"

text \<open>An allocated element that may be linked.\<close>

definition is_elem :: "tailq_store \<Rightarrow> ptr \<Rightarrow> bool" where
  "is_elem m e \<longleftrightarrow> e \<noteq> NULL \<and> cell m (NextOf e) \<noteq> None \<and> tqe_prev m e \<noteq> None"

lemma endl_append [simp]: "endl l (xs @ ys) = endl (endl l xs) ys"
  by (induction xs arbitrary: l) simp_all

lemma seg_append [simp]:
  "seg c p l (xs @ ys) \<longleftrightarrow> seg c p l xs \<and> seg c p (endl l xs) ys"
  by (induction xs arbitrary: l) auto

lemma endl_cases: "endl l xs = (if xs = [] then l else NextOf (last xs))"
  by (induction xs arbitrary: l) auto

lemma endl_in: "endl l xs \<in> insert l (NextOf ` set xs)"
  by (simp add: endl_cases)

lemma NextOf_image [simp]:
  "NextOf x \<in> NextOf ` A \<longleftrightarrow> x \<in> A" "FirstOf h \<notin> NextOf ` A"
  by auto

lemma seg_cell_other [simp]:
  "k \<notin> insert l (NextOf ` set xs) \<Longrightarrow> seg (c(k \<mapsto> v)) p l xs = seg c p l xs"
  by (induction xs arbitrary: l) auto

lemma seg_cell_end [simp]:
  "seg c p l xs \<Longrightarrow> distinct xs \<Longrightarrow> l \<notin> NextOf ` set xs \<Longrightarrow> seg (c(endl l xs \<mapsto> v)) p l xs"
proof (induction xs arbitrary: l)
  case (Cons x xs)
  have "endl (NextOf x) xs \<noteq> l"
    using Cons.prems endl_in [of "NextOf x" xs] by auto
  with Cons show ?case by auto
qed simp

lemma seg_prev_other [simp]: "x \<notin> set xs \<Longrightarrow> seg c (p(x \<mapsto> v)) l xs = seg c p l xs"
  by (induction xs arbitrary: l) auto

lemma seg_elem: "seg c p l xs \<Longrightarrow> x \<in> set xs \<Longrightarrow> x \<noteq> NULL \<and> c (NextOf x) \<noteq> None \<and> p x \<noteq> None"
  by (induction xs arbitrary: l) auto

named_theorems tailq_defs \<open>the macros and the store\<close>

lemmas [tailq_defs] = TAILQ_FIRST_def TAILQ_NEXT_def TAILQ_EMPTY_def TAILQ_INIT_def
  TAILQ_INSERT_HEAD_def TAILQ_INSERT_TAIL_def TAILQ_INSERT_AFTER_def TAILQ_INSERT_BEFORE_def
  TAILQ_REMOVE_def TAILQ_LAST_def TAILQ_PREV_def TAILQ_CONCAT_def TAILQ_SWAP_def
  wr_cell_def wr_prev_def wr_last_def cast_last_def load_def

lemma tailq_NULL: "tailq m h xs \<Longrightarrow> NULL \<notin> set xs"
  by (auto simp: tailq_def dest: seg_elem)

lemma tailq_distinct: "tailq m h xs \<Longrightarrow> distinct xs"
  by (simp add: tailq_def)

lemma tailq_first: "tailq m h xs \<Longrightarrow> cell m (FirstOf h) = Some (case xs of [] \<Rightarrow> NULL | x # _ \<Rightarrow> x)"
  by (cases xs) (auto simp: tailq_def)

lemma tailq_FIRST:
  "tailq m h xs \<Longrightarrow> TAILQ_FIRST m h = Inr (case xs of [] \<Rightarrow> NULL | x # _ \<Rightarrow> x)"
  by (simp add: tailq_defs tailq_first)

lemma tailq_EMPTY: "tailq m h xs \<Longrightarrow> TAILQ_EMPTY m h = Inr (xs = [])"
  using tailq_NULL [of m h xs] by (cases xs) (auto simp: TAILQ_EMPTY_def tailq_FIRST)

text \<open>The successor cell of an element in the middle.\<close>

lemma seg_cell:
  assumes "seg c p l (xs @ ys)" and "c (endl l (xs @ ys)) = Some NULL"
  shows "c (endl l xs) = Some (case ys of [] \<Rightarrow> NULL | y # _ \<Rightarrow> y)"
  using assms by (cases ys) auto

lemma tailq_NEXT:
  assumes "tailq m h (xs @ x # ys)"
  shows "TAILQ_NEXT m x = Inr (case ys of [] \<Rightarrow> NULL | y # _ \<Rightarrow> y)"
  using assms seg_cell [of "cell m" "tqe_prev m" "FirstOf h" "xs @ [x]" ys]
  by (simp add: tailq_def tailq_defs)

lemma tailq_init:
  assumes "cell m (FirstOf h) \<noteq> None" and "tqh_last m h \<noteq> None"
  shows "\<exists>m'. TAILQ_INIT m h = Inr m' \<and> tailq m' h []"
  using assms by (auto simp: tailq_defs tailq_def)

lemma tailq_head_initializer: "tailq (TAILQ_HEAD_INITIALIZER m h) h []"
  by (simp add: TAILQ_HEAD_INITIALIZER_def tailq_def)

lemma tailq_insert_tail:
  assumes q: "tailq m h xs" and e: "is_elem m e" "e \<notin> set xs"
  shows "\<exists>m'. TAILQ_INSERT_TAIL m h e = Inr m' \<and> tailq m' h (xs @ [e])"
proof -
  let ?l = "endl (FirstOf h) xs"
  have l: "?l \<noteq> NextOf e" using e endl_in [of "FirstOf h" xs] by auto
  show ?thesis
    using q e l by (auto simp: tailq_defs tailq_def is_elem_def)
qed

lemma tailq_insert_head:
  assumes q: "tailq m h xs" and e: "is_elem m e" "e \<notin> set xs"
  shows "\<exists>m'. TAILQ_INSERT_HEAD m h e = Inr m' \<and> tailq m' h (e # xs)"
proof (cases xs)
  case Nil
  with q e show ?thesis by (auto simp: tailq_defs tailq_def is_elem_def)
next
  case (Cons y ys)
  have l: "endl (NextOf y) ys \<noteq> NextOf e" "endl (NextOf y) ys \<noteq> FirstOf h"
    using e endl_in [of "NextOf y" ys] Cons by auto
  with Cons q e show ?thesis by (auto simp: tailq_defs tailq_def is_elem_def)
qed

lemma tailq_insert_after:
  assumes q: "tailq m h (xs @ x # ys)" and e: "is_elem m e" "e \<notin> set (xs @ x # ys)"
  shows "\<exists>m'. TAILQ_INSERT_AFTER m h x e = Inr m' \<and> tailq m' h (xs @ x # e # ys)"
proof (cases ys)
  case Nil
  have l: "endl (FirstOf h) xs \<noteq> NextOf e" "endl (FirstOf h) xs \<noteq> NextOf x"
    using q e endl_in [of "FirstOf h" xs] by (auto simp: tailq_def)
  with Nil q e show ?thesis by (auto simp: tailq_defs tailq_def is_elem_def)
next
  case (Cons y zs)
  have l: "endl (FirstOf h) xs \<noteq> NextOf e" "endl (FirstOf h) xs \<noteq> NextOf x"
    "endl (NextOf y) zs \<noteq> NextOf e" "endl (NextOf y) zs \<noteq> NextOf x"
    using q e endl_in [of "FirstOf h" xs] endl_in [of "NextOf y" zs] Cons
    by (auto simp: tailq_def)
  with Cons q e show ?thesis by (auto simp: tailq_defs tailq_def is_elem_def)
qed

lemma tailq_insert_before:
  assumes q: "tailq m h (xs @ x # ys)" and e: "is_elem m e" "e \<notin> set (xs @ x # ys)"
  shows "\<exists>m'. TAILQ_INSERT_BEFORE m x e = Inr m' \<and> tailq m' h (xs @ e # x # ys)"
proof -
  have l: "endl (FirstOf h) xs \<noteq> NextOf e" "endl (FirstOf h) xs \<noteq> NextOf x"
    "endl (NextOf x) ys \<noteq> NextOf e" "endl (NextOf x) ys \<noteq> endl (FirstOf h) xs"
    "endl (FirstOf h) xs \<notin> NextOf ` set ys"
    using q e endl_in [of "FirstOf h" xs] endl_in [of "NextOf x" ys]
    by (auto simp: tailq_def)
  with q e show ?thesis by (auto simp: tailq_defs tailq_def is_elem_def)
qed

lemma tailq_remove:
  assumes q: "tailq m h (xs @ x # ys)"
  shows "\<exists>m'. TAILQ_REMOVE m h x = Inr m' \<and> tailq m' h (xs @ ys) \<and> is_elem m' x"
proof (cases ys)
  case Nil
  have l: "endl (FirstOf h) xs \<noteq> NextOf x"
    using q endl_in [of "FirstOf h" xs] by (auto simp: tailq_def)
  with Nil q show ?thesis by (auto simp: tailq_defs tailq_def is_elem_def)
next
  case (Cons y zs)
  have l: "endl (FirstOf h) xs \<noteq> NextOf x" "endl (FirstOf h) xs \<noteq> NextOf y"
    "endl (NextOf y) zs \<noteq> endl (FirstOf h) xs" "endl (FirstOf h) xs \<notin> NextOf ` set zs"
    using q endl_in [of "FirstOf h" xs] endl_in [of "NextOf y" zs] Cons
    by (auto simp: tailq_def)
  with Cons q show ?thesis by (auto simp: tailq_defs tailq_def is_elem_def)
qed

text \<open>The casts of \<open>TAILQ_LAST\<close> and \<open>TAILQ_PREV\<close> reach the cell before the last one.\<close>

lemma seg_cast:
  assumes "seg (cell m) (tqe_prev m) l (xs @ [x])" and "cast_last m (NextOf x) = Inr l'"
  shows "cell m l' = Some x"
  using assms by (auto simp: cast_last_def load_def)

lemma tailq_LAST:
  assumes q: "tailq m h xs"
  shows "TAILQ_LAST m h = Inr (if xs = [] then NULL else last xs)"
proof (cases xs rule: rev_cases)
  case Nil
  with q show ?thesis by (simp add: tailq_defs tailq_def)
next
  case (snoc ys y)
  with q show ?thesis by (simp add: tailq_defs tailq_def)
qed

lemma tailq_PREV:
  assumes q: "tailq m h (xs @ x # ys)"
  shows "TAILQ_PREV m x = Inr (if xs = [] then NULL else last xs)"
proof (cases xs rule: rev_cases)
  case Nil
  with q show ?thesis by (simp add: tailq_defs tailq_def)
next
  case (snoc zs z)
  with q show ?thesis by (simp add: tailq_defs tailq_def)
qed

section \<open>Traversal\<close>

text \<open>The effect of a loop body over the elements, stopping at the first fault.\<close>

fun fold_res :: "(ptr \<Rightarrow> 's \<Rightarrow> 's res) \<Rightarrow> ptr list \<Rightarrow> 's \<Rightarrow> 's res" where
  "fold_res body [] s = Inr s"
| "fold_res body (x # xs) s = bindE (body x s) (fold_res body xs)"

lemma foreach_loop_fold:
  assumes q: "tailq m h (xs @ ys)"
  shows "foreach_loop m body (case ys of [] \<Rightarrow> NULL | y # _ \<Rightarrow> y) s = Some (fold_res body ys s)"
  using q
proof (induction ys arbitrary: xs s)
  case Nil
  then show ?case by (simp add: foreach_loop.simps)
next
  case (Cons y ys)
  have y: "y \<noteq> NULL" using tailq_NULL [OF Cons.prems] by auto
  have IH: "foreach_loop m body (case ys of [] \<Rightarrow> NULL | y # _ \<Rightarrow> y) s' =
    Some (fold_res body ys s')" for s'
    using Cons.IH [of "xs @ [y]"] Cons.prems by simp
  then show ?case
    using y tailq_NEXT [OF Cons.prems]
    by (subst foreach_loop.simps) (auto split: sum.split)
qed

lemma tailq_FOREACH:
  "tailq m h xs \<Longrightarrow> TAILQ_FOREACH m h body s = fold_res body xs s"
  using foreach_loop_fold [of m h "[]" xs body s]
  by (simp add: TAILQ_FOREACH_def tailq_FIRST)

lemma foreach_reverse_loop_fold:
  assumes q: "tailq m h (xs @ ys)"
  shows "foreach_reverse_loop m body (if xs = [] then NULL else last xs) s =
    Some (fold_res body (rev xs) s)"
  using q
proof (induction xs arbitrary: ys s rule: rev_induct)
  case Nil
  then show ?case by (simp add: foreach_reverse_loop.simps)
next
  case (snoc x xs)
  have x: "x \<noteq> NULL" using tailq_NULL [OF snoc.prems] by auto
  have IH: "foreach_reverse_loop m body (if xs = [] then NULL else last xs) s' =
    Some (fold_res body (rev xs) s')" for s'
    using snoc.IH [of "x # ys"] snoc.prems by simp
  then show ?case
    using x tailq_PREV [of m h xs x ys] snoc.prems
    by (subst foreach_reverse_loop.simps) (auto split: sum.split)
qed

lemma tailq_FOREACH_REVERSE:
  "tailq m h xs \<Longrightarrow> TAILQ_FOREACH_REVERSE m h body s = fold_res body (rev xs) s"
  using foreach_reverse_loop_fold [of m h xs "[]" body s]
  by (simp add: TAILQ_FOREACH_REVERSE_def tailq_LAST)

section \<open>Two queues\<close>

lemma endl_other:
  "h1 \<noteq> h2 \<Longrightarrow> set xs \<inter> set ys = {} \<Longrightarrow> endl (FirstOf h1) xs \<noteq> endl (FirstOf h2) ys"
  by (cases xs rule: rev_cases; cases ys rule: rev_cases) auto

lemma seg_end_other [simp]:
  "l \<notin> insert k (NextOf ` set ys) \<Longrightarrow> k \<notin> NextOf ` set xs \<Longrightarrow> set xs \<inter> set ys = {} \<Longrightarrow>
    seg (c(endl l xs \<mapsto> v)) p k ys = seg c p k ys"
  using endl_in [of l xs] by (intro seg_cell_other) auto

lemma tailq_concat:
  assumes q1: "tailq m h1 xs" and q2: "tailq m h2 ys"
    and "h1 \<noteq> h2" and "set xs \<inter> set ys = {}"
  shows "\<exists>m'. TAILQ_CONCAT m h1 h2 = Inr m' \<and> tailq m' h1 (xs @ ys) \<and> tailq m' h2 []"
proof (cases ys)
  case Nil
  with q1 q2 show ?thesis
    by (simp add: TAILQ_CONCAT_def tailq_EMPTY)
next
  case (Cons y zs)
  let ?l = "endl (FirstOf h1) xs"
  have l: "?l \<noteq> FirstOf h2" "?l \<notin> NextOf ` set ys" "?l \<noteq> endl (NextOf y) zs"
    "endl (NextOf y) zs \<noteq> FirstOf h2" "?l \<noteq> NextOf y"
    using assms(3,4) Cons endl_in [of "FirstOf h1" xs] endl_in [of "NextOf y" zs]
    by auto
  with Cons q1 q2 assms(3,4) show ?thesis
    by (auto simp: tailq_defs tailq_def)
qed

lemma tailq_swap:
  assumes q1: "tailq m h1 xs" and q2: "tailq m h2 ys"
    and "h1 \<noteq> h2" and "set xs \<inter> set ys = {}"
  shows "\<exists>m'. TAILQ_SWAP m h1 h2 = Inr m' \<and> tailq m' h1 ys \<and> tailq m' h2 xs"
proof -
  have e: "endl (NextOf z) zs \<noteq> FirstOf h" for z zs h
    using endl_in [of "NextOf z" zs] by auto
  show ?thesis
    using assms e by (cases xs; cases ys) (auto simp: tailq_defs tailq_def)
qed

section \<open>Allocation of elements\<close>

text \<open>
  \<open>malloc\<close> and \<open>free\<close> of an element: its link fields appear with indeterminate
  contents and disappear; freeing an address that holds no element is a fault.
\<close>

definition alloc_elem :: "tailq_store \<Rightarrow> ptr \<Rightarrow> ptr \<times> link \<Rightarrow> tailq_store" where
  "alloc_elem m e junk = m\<lparr>cell := (cell m)(NextOf e \<mapsto> fst junk),
     tqe_prev := (tqe_prev m)(e \<mapsto> snd junk)\<rparr>"

definition free_elem :: "tailq_store \<Rightarrow> ptr \<Rightarrow> tailq_store res" where
  "free_elem m e =
     (if cell m (NextOf e) \<noteq> None \<and> tqe_prev m e \<noteq> None
      then Inr (m\<lparr>cell := (cell m)(NextOf e := None), tqe_prev := (tqe_prev m)(e := None)\<rparr>)
      else Inl BadFree)"

lemma is_elem_alloc: "e \<noteq> NULL \<Longrightarrow> is_elem (alloc_elem m e junk) e"
  by (simp add: is_elem_def alloc_elem_def)

lemma tailq_alloc:
  assumes "tailq m h xs" and "e \<notin> set xs"
  shows "tailq (alloc_elem m e junk) h xs"
proof -
  have "endl (FirstOf h) xs \<noteq> NextOf e"
    using assms(2) endl_in [of "FirstOf h" xs] by auto
  with assms show ?thesis by (simp add: tailq_def alloc_elem_def)
qed

lemma seg_cell_none [simp]:
  "k \<notin> insert l (NextOf ` set xs) \<Longrightarrow> seg (c(k := None)) p l xs = seg c p l xs"
  by (induction xs arbitrary: l) auto

lemma seg_prev_none [simp]: "x \<notin> set xs \<Longrightarrow> seg c (p(x := None)) l xs = seg c p l xs"
  by (induction xs arbitrary: l) auto

lemma tailq_free:
  assumes "tailq m h xs" and "is_elem m e" and "e \<notin> set xs"
  shows "\<exists>m'. free_elem m e = Inr m' \<and> tailq m' h xs"
proof -
  have "endl (FirstOf h) xs \<noteq> NextOf e"
    using assms(3) endl_in [of "FirstOf h" xs] by auto
  with assms show ?thesis by (simp add: tailq_def free_elem_def is_elem_def)
qed

section \<open>The contract of a list of allocated elements\<close>

text \<open>
  What the server relies on: a fresh element is appended, the first element can be removed
  and freed, and the emptiness test and the traversal agree with the list.
\<close>

text \<open>
  The loop \<open>while (!empty) { e = first; remove(e); free(e); }\<close> over any operations; it
  also collects the elements it frees.
\<close>

partial_function (option) drain_loop ::
  "('m \<Rightarrow> bool res) \<Rightarrow> ('m \<Rightarrow> ptr res) \<Rightarrow> ('m \<Rightarrow> ptr \<Rightarrow> 'm res) \<Rightarrow> ('m \<Rightarrow> ptr \<Rightarrow> 'm res) \<Rightarrow>
   'm \<Rightarrow> ptr list \<Rightarrow> ('m \<times> ptr list) res option" where
  "drain_loop is_empty first remove dispose m freed =
     (case is_empty m of
        Inl e \<Rightarrow> Some (Inl e)
      | Inr emp \<Rightarrow>
          if emp then Some (Inr (m, freed))
          else (case bindE (first m) (\<lambda>e. bindE (remove m e) (\<lambda>m.
                    bindE (dispose m e) (\<lambda>m. Inr (m, e)))) of
                  Inl e \<Rightarrow> Some (Inl e)
                | Inr (m, e) \<Rightarrow> drain_loop is_empty first remove dispose m (freed @ [e])))"

text \<open>Allocating and appending a sequence of elements.\<close>

fun append_all ::
  "('m \<Rightarrow> ptr \<Rightarrow> ptr \<times> link \<Rightarrow> 'm) \<Rightarrow> ('m \<Rightarrow> ptr \<Rightarrow> 'm res) \<Rightarrow> ptr \<times> link \<Rightarrow> 'm \<Rightarrow> ptr list \<Rightarrow> 'm res"
where
  "append_all allocate insert_op junk m [] = Inr m"
| "append_all allocate insert_op junk m (e # es) =
     bindE (insert_op (allocate m e junk) e) (\<lambda>m. append_all allocate insert_op junk m es)"

locale element_list =
  fixes rep :: "'m \<Rightarrow> ptr list \<Rightarrow> bool"
    and allocate :: "'m \<Rightarrow> ptr \<Rightarrow> ptr \<times> link \<Rightarrow> 'm"
    and insert_op :: "'m \<Rightarrow> ptr \<Rightarrow> 'm res"
    and is_empty :: "'m \<Rightarrow> bool res"
    and first :: "'m \<Rightarrow> ptr res"
    and remove :: "'m \<Rightarrow> ptr \<Rightarrow> 'm res"
    and dispose :: "'m \<Rightarrow> ptr \<Rightarrow> 'm res"
    and foreach :: "'m \<Rightarrow> (ptr \<Rightarrow> 's \<Rightarrow> 's res) \<Rightarrow> 's \<Rightarrow> 's res"
  assumes append_law: "rep m xs \<Longrightarrow> e \<noteq> NULL \<Longrightarrow> e \<notin> set xs \<Longrightarrow>
      \<exists>m'. insert_op (allocate m e junk) e = Inr m' \<and> rep m' (xs @ [e])"
    and empty_law: "rep m xs \<Longrightarrow> is_empty m = Inr (xs = [])"
    and first_law: "rep m (x # xs) \<Longrightarrow> first m = Inr x"
    and remove_law: "rep m (x # xs) \<Longrightarrow>
      \<exists>m1 m2. remove m x = Inr m1 \<and> dispose m1 x = Inr m2 \<and> rep m2 xs"
    and foreach_law: "rep m xs \<Longrightarrow> foreach m body s = fold_res body xs s"
    and distinct_law: "rep m xs \<Longrightarrow> distinct xs \<and> NULL \<notin> set xs"
begin

lemma append_all_rep:
  "rep m xs \<Longrightarrow> distinct es \<Longrightarrow> NULL \<notin> set es \<Longrightarrow> set xs \<inter> set es = {} \<Longrightarrow>
    \<exists>m'. append_all allocate insert_op junk m es = Inr m' \<and> rep m' (xs @ es)"
proof (induction es arbitrary: m xs)
  case (Cons e es)
  have "e \<noteq> NULL" "e \<notin> set xs" using Cons.prems by auto
  then obtain m' where m': "insert_op (allocate m e junk) e = Inr m'" and rep: "rep m' (xs @ [e])"
    using append_law [OF Cons.prems(1), of e junk] by blast
  from Cons.IH [OF rep] Cons.prems m' show ?case by auto
qed simp

text \<open>Draining ends and frees each element once, in order.\<close>

lemma drain_all:
  "rep m xs \<Longrightarrow>
    \<exists>m'. drain_loop is_empty first remove dispose m freed = Some (Inr (m', freed @ xs)) \<and> rep m' []"
proof (induction xs arbitrary: m freed)
  case Nil
  then show ?case by (subst drain_loop.simps) (simp add: empty_law)
next
  case (Cons x xs)
  obtain m1 m2 where m: "remove m x = Inr m1" "dispose m1 x = Inr m2" "rep m2 xs"
    using remove_law [OF Cons.prems] by blast
  from Cons.IH [OF m(3), of "freed @ [x]"] show ?case
    using m Cons.prems by (subst drain_loop.simps) (simp add: empty_law first_law)
qed

lemma append_then_drain:
  assumes "rep m []" and "distinct es" and "NULL \<notin> set es"
  shows "\<exists>m1 m2. append_all allocate insert_op junk m es = Inr m1 \<and>
    foreach m1 body s = fold_res body es s \<and>
    drain_loop is_empty first remove dispose m1 [] = Some (Inr (m2, es)) \<and> rep m2 []"
proof -
  obtain m1 where m1: "append_all allocate insert_op junk m es = Inr m1" "rep m1 es"
    using append_all_rep [of m "[]" es junk] assms by auto
  with drain_all [OF m1(2), of "[]"] foreach_law [OF m1(2)] show ?thesis by auto
qed

end

interpretation tailq: element_list "\<lambda>m. tailq m h" alloc_elem "\<lambda>m. TAILQ_INSERT_TAIL m h"
  "\<lambda>m. TAILQ_EMPTY m h" "\<lambda>m. TAILQ_FIRST m h" "\<lambda>m. TAILQ_REMOVE m h" free_elem
  "\<lambda>m. TAILQ_FOREACH m h" for h
proof unfold_locales
  fix m xs and e :: ptr and junk
  assume "tailq m h xs" "e \<noteq> NULL" "e \<notin> set xs"
  then show "\<exists>m'. TAILQ_INSERT_TAIL (alloc_elem m e junk) h e = Inr m' \<and> tailq m' h (xs @ [e])"
    by (intro tailq_insert_tail tailq_alloc is_elem_alloc)
next
  fix m x xs assume q: "tailq m h (x # xs)"
  obtain m1 where m1: "TAILQ_REMOVE m h x = Inr m1" "tailq m1 h xs" "is_elem m1 x"
    using tailq_remove [of m h "[]" x xs] q by auto
  have "x \<notin> set xs" using q by (simp add: tailq_def)
  with m1 tailq_free [OF m1(2,3)]
  show "\<exists>m1 m2. TAILQ_REMOVE m h x = Inr m1 \<and> free_elem m1 x = Inr m2 \<and> tailq m2 h xs"
    by blast
qed (simp_all add: tailq_EMPTY tailq_FIRST tailq_FOREACH tailq_NULL tailq_distinct)

text \<open>A store with two queues, [16, 24] at head 8 and [40] at head 9, and a free element 32.\<close>

definition two_queues :: tailq_store where
  "two_queues = \<lparr>cell = [FirstOf 8 \<mapsto> 16, NextOf 16 \<mapsto> 24, NextOf 24 \<mapsto> NULL,
       FirstOf 9 \<mapsto> 40, NextOf 40 \<mapsto> NULL, NextOf 32 \<mapsto> 77],
     tqe_prev = [16 \<mapsto> FirstOf 8, 24 \<mapsto> NextOf 16, 40 \<mapsto> FirstOf 9, 32 \<mapsto> FirstOf 77],
     tqh_last = [8 \<mapsto> NextOf 24, 9 \<mapsto> NextOf 40]\<rparr>"

lemma two_queues:
  "tailq two_queues 8 [16, 24]" "tailq two_queues 9 [40]" "is_elem two_queues 32"
  by (simp_all add: two_queues_def tailq_def is_elem_def)

section \<open>Properties\<close>

text \<open>
  \<open>TAILQ_INSERT_TAIL\<close> of an allocated element that is not in the queue never faults
  and appends it; \<open>TAILQ_INSERT_HEAD\<close> puts it in front.
\<close>

theorem tailq_insert_ends:
  assumes "tailq m h xs" and "is_elem m e" and "e \<notin> set xs"
  shows "(\<exists>m'. TAILQ_INSERT_TAIL m h e = Inr m' \<and> tailq m' h (xs @ [e])) \<and>
    (\<exists>m'. TAILQ_INSERT_HEAD m h e = Inr m' \<and> tailq m' h (e # xs))"
  using tailq_insert_tail [OF assms] tailq_insert_head [OF assms] by blast

theorem tailq_insert_ends_witness:
  "\<exists>m'. TAILQ_INSERT_TAIL two_queues 8 32 = Inr m' \<and> tailq m' 8 [16, 24, 32]"
  using tailq_insert_ends [OF two_queues(1) two_queues(3)] by simp

text \<open>
  \<open>TAILQ_REMOVE\<close> of any element of the queue never faults and removes exactly that
  element; the element stays allocated and can be linked again.
\<close>

theorem tailq_remove_element:
  assumes "tailq m h (xs @ x # ys)"
  shows "\<exists>m'. TAILQ_REMOVE m h x = Inr m' \<and> tailq m' h (xs @ ys) \<and> is_elem m' x"
  by (rule tailq_remove [OF assms])

theorem tailq_remove_element_witness:
  "\<exists>m'. TAILQ_REMOVE two_queues 8 16 = Inr m' \<and> tailq m' 8 [24] \<and> is_elem m' 16"
  using tailq_remove_element [of two_queues 8 "[]" 16 "[24]"] two_queues by simp

text \<open>
  C31: Inserting before or after an element and removing it again restores the queue.
\<close>

theorem tailq_insert_remove_roundtrip:
  assumes q: "tailq m h (xs @ x # ys)" and e: "is_elem m e" "e \<notin> set (xs @ x # ys)"
  shows "(\<exists>m1 m2. TAILQ_INSERT_AFTER m h x e = Inr m1 \<and> TAILQ_REMOVE m1 h e = Inr m2 \<and>
      tailq m2 h (xs @ x # ys)) \<and>
    (\<exists>m1 m2. TAILQ_INSERT_BEFORE m x e = Inr m1 \<and> TAILQ_REMOVE m1 h e = Inr m2 \<and>
      tailq m2 h (xs @ x # ys))"
proof
  obtain m1 where "TAILQ_INSERT_AFTER m h x e = Inr m1" "tailq m1 h ((xs @ [x]) @ e # ys)"
    using tailq_insert_after [OF q e] by auto
  then show "\<exists>m1 m2. TAILQ_INSERT_AFTER m h x e = Inr m1 \<and> TAILQ_REMOVE m1 h e = Inr m2 \<and>
      tailq m2 h (xs @ x # ys)"
    using tailq_remove [of m1 h "xs @ [x]" e ys] by auto
next
  obtain m1 where "TAILQ_INSERT_BEFORE m x e = Inr m1" "tailq m1 h (xs @ e # x # ys)"
    using tailq_insert_before [OF q e] by auto
  then show "\<exists>m1 m2. TAILQ_INSERT_BEFORE m x e = Inr m1 \<and> TAILQ_REMOVE m1 h e = Inr m2 \<and>
      tailq m2 h (xs @ x # ys)"
    using tailq_remove [of m1 h xs e "x # ys"] by auto
qed

theorem tailq_insert_remove_roundtrip_witness:
  "\<exists>m1 m2. TAILQ_INSERT_AFTER two_queues 8 16 32 = Inr m1 \<and> TAILQ_REMOVE m1 8 32 = Inr m2 \<and>
    tailq m2 8 [16, 24]"
  using tailq_insert_remove_roundtrip [of two_queues 8 "[]" 16 "[24]" 32] two_queues by simp

text \<open>
  C32: The traversals end: \<open>TAILQ_FOREACH\<close> runs its body over the elements in order,
  \<open>TAILQ_FOREACH_REVERSE\<close> in reverse order.
\<close>

theorem tailq_traversals:
  assumes "tailq m h xs"
  shows "TAILQ_FOREACH m h body s = fold_res body xs s \<and>
    TAILQ_FOREACH_REVERSE m h body s = fold_res body (rev xs) s"
  by (simp add: tailq_FOREACH [OF assms] tailq_FOREACH_REVERSE [OF assms])

theorem tailq_traversals_witness:
  "TAILQ_FOREACH_REVERSE two_queues 8 (\<lambda>x s. Inr (s @ [x])) [] = Inr [24, 16]"
  using tailq_traversals [OF two_queues(1), of "\<lambda>x s. Inr (s @ [x])" "[]"] by simp

text \<open>
  \<open>TAILQ_CONCAT\<close> moves the elements of the second queue behind those of the first
  and empties the second, and \<open>TAILQ_SWAP\<close> exchanges the two queues.
\<close>

theorem tailq_two_queues:
  assumes "tailq m h1 xs" and "tailq m h2 ys" and "h1 \<noteq> h2" and "set xs \<inter> set ys = {}"
  shows "(\<exists>m'. TAILQ_CONCAT m h1 h2 = Inr m' \<and> tailq m' h1 (xs @ ys) \<and> tailq m' h2 []) \<and>
    (\<exists>m'. TAILQ_SWAP m h1 h2 = Inr m' \<and> tailq m' h1 ys \<and> tailq m' h2 xs)"
  using tailq_concat [OF assms] tailq_swap [OF assms] by blast

theorem tailq_two_queues_witness:
  "\<exists>m'. TAILQ_CONCAT two_queues 8 9 = Inr m' \<and> tailq m' 8 [16, 24, 40] \<and> tailq m' 9 []"
  using tailq_two_queues [OF two_queues(1,2)] by simp

end
