(* ===== verification/Queue_Traversals.thy ===== *)
theory Queue_Traversals
  imports Tail_Queue
begin

text \<open>
  The traversal macros of \<open>server/queue.h\<close> with bodies that may change the links: the loops of
  the \<open>FOREACH\<close> and \<open>FOREACH_SAFE\<close> forms over any successor function, their contract as a locale
  over what they read (the start and the successor), and the variants for the tail queue, in
  both directions. \<open>Singly_Linked\<close> and \<open>Doubly_Linked\<close> interpret the same locale.
\<close>

section \<open>The loops\<close>

text \<open>
  The state of a loop is the store and whatever else the body updates. The plain form reads
  the successor after the body, the \<open>SAFE\<close> form reads it into \<open>tvar\<close> before the body.
\<close>

partial_function (option) for_loop ::
  "(tailq_store \<Rightarrow> ptr \<Rightarrow> ptr res) \<Rightarrow> (ptr \<Rightarrow> tailq_store \<times> 's \<Rightarrow> (tailq_store \<times> 's) res) \<Rightarrow>
   ptr \<Rightarrow> tailq_store \<times> 's \<Rightarrow> (tailq_store \<times> 's) res option" where
  "for_loop nxt body var s =
     (if var = NULL then Some (Inr s)
      else case body var s of
          Inl e \<Rightarrow> Some (Inl e)
        | Inr s' \<Rightarrow>
            (case nxt (fst s') var of
               Inl e \<Rightarrow> Some (Inl e)
             | Inr n \<Rightarrow> for_loop nxt body n s'))"

partial_function (option) for_safe_loop ::
  "(tailq_store \<Rightarrow> ptr \<Rightarrow> ptr res) \<Rightarrow> (ptr \<Rightarrow> tailq_store \<times> 's \<Rightarrow> (tailq_store \<times> 's) res) \<Rightarrow>
   ptr \<Rightarrow> tailq_store \<times> 's \<Rightarrow> (tailq_store \<times> 's) res option" where
  "for_safe_loop nxt body var s =
     (if var = NULL then Some (Inr s)
      else case nxt (fst s) var of
          Inl e \<Rightarrow> Some (Inl e)
        | Inr tvar \<Rightarrow>
            (case body var s of
               Inl e \<Rightarrow> Some (Inl e)
             | Inr s' \<Rightarrow> for_safe_loop nxt body tvar s'))"

text \<open>\<open>(var) ? (var) : first\<close>, the start of the \<open>FROM\<close> forms.\<close>

definition start_from :: "ptr \<Rightarrow> ptr res \<Rightarrow> ptr res" where
  "start_from var first = (if var \<noteq> NULL then Inr var else first)"

text \<open>
  The search loop \<open>while (NEXT(curelm) != elm) curelm = NEXT(curelm);\<close> of the removals, and
  with \<open>elm\<close> the null pointer that of the concatenations.
\<close>

partial_function (option) seek_loop ::
  "(ptr \<Rightarrow> ptr res) \<Rightarrow> ptr \<Rightarrow> ptr \<Rightarrow> ptr res option" where
  "seek_loop nxt elm curelm =
     (case nxt curelm of
        Inl e \<Rightarrow> Some (Inl e)
      | Inr n \<Rightarrow> if n \<noteq> elm then seek_loop nxt elm n else Some (Inr curelm))"

text \<open>A loop body that takes out and frees the elements without the property \<open>keep\<close>.\<close>

definition drop_unless ::
  "(tailq_store \<Rightarrow> ptr \<Rightarrow> tailq_store res) \<Rightarrow> (tailq_store \<Rightarrow> ptr \<Rightarrow> tailq_store res) \<Rightarrow> (ptr \<Rightarrow> bool) \<Rightarrow>
   ptr \<Rightarrow> tailq_store \<times> unit \<Rightarrow> (tailq_store \<times> unit) res" where
  "drop_unless remove dispose keep x s =
     (if keep x then Inr s
      else bindE (remove (fst s) x) (\<lambda>m. bindE (dispose m x) (\<lambda>m. Inr (m, snd s))))"

section \<open>The contract of a traversal\<close>

text \<open>The pointer to the first element of a list.\<close>

definition hd0 :: "ptr list \<Rightarrow> ptr" where
  "hd0 xs = (case xs of [] \<Rightarrow> NULL | x # _ \<Rightarrow> x)"

lemma hd0_simps [simp]: "hd0 [] = NULL" "hd0 (x # xs) = x"
  by (simp_all add: hd0_def)

text \<open>
  A client needs the start and the successor to follow the list. Then the plain loop runs a
  body that leaves the list alone over its elements, and the safe loop also allows a body that
  takes the current element out of the list, whatever it does to that element.
\<close>

locale traversal =
  fixes rep :: "tailq_store \<Rightarrow> ptr list \<Rightarrow> bool"
    and start :: "tailq_store \<Rightarrow> ptr res"
    and nxt :: "tailq_store \<Rightarrow> ptr \<Rightarrow> ptr res"
  assumes start_law: "rep m xs \<Longrightarrow> start m = Inr (hd0 xs)"
    and next_law: "rep m (xs @ x # ys) \<Longrightarrow> nxt m x = Inr (hd0 ys)"
    and null_law: "rep m xs \<Longrightarrow> NULL \<notin> set xs \<and> distinct xs"
begin

lemma for_loop_fold:
  assumes keeps: "\<And>x m s m' s'. x \<in> set ys \<Longrightarrow> rep m (ps @ ys) \<Longrightarrow>
      body x (m, s) = Inr (m', s') \<Longrightarrow> rep m' (ps @ ys)"
    and "rep m (ps @ ys)"
  shows "for_loop nxt body (hd0 ys) (m, s) = Some (fold_res body ys (m, s))"
  using assms
proof (induction ys arbitrary: ps m s)
  case Nil
  then show ?case by (simp add: for_loop.simps)
next
  case (Cons y ys)
  have y: "y \<noteq> NULL" using null_law [OF Cons.prems(2)] by auto
  show ?case
  proof (cases "body y (m, s)")
    case (Inr s1)
    obtain m' s' where s1: "s1 = (m', s')" by (cases s1)
    have rep: "rep m' (ps @ y # ys)"
      using Cons.prems(1) [of y m s m' s'] Cons.prems(2) Inr s1 by simp
    have "for_loop nxt body (hd0 ys) (m', s') = Some (fold_res body ys (m', s'))"
    proof (rule Cons.IH [of "ps @ [y]"])
      fix x n t n' t'
      assume "x \<in> set ys" "rep n ((ps @ [y]) @ ys)" "body x (n, t) = Inr (n', t')"
      then show "rep n' ((ps @ [y]) @ ys)" using Cons.prems(1) [of x n t n' t'] by simp
    qed (use rep in simp)
    then show ?thesis
      using y Inr s1 next_law [OF rep] by (subst for_loop.simps) simp
  qed (use y in \<open>subst for_loop.simps, simp\<close>)
qed

text \<open>
  A body that keeps the elements with property \<open>keep\<close> and takes out the others: the safe
  loop ends, runs the body on each element of the original list, and leaves the kept ones.
\<close>

lemma safe_loop_filter:
  assumes step: "\<And>ps x ys m s. rep m (ps @ x # ys) \<Longrightarrow>
      \<exists>m' s'. body x (m, s) = Inr (m', s') \<and> rep m' (ps @ (if keep x then [x] else []) @ ys)"
  shows "rep m (ps @ ys) \<Longrightarrow> \<exists>m' s'. for_safe_loop nxt body (hd0 ys) (m, s) = Some (Inr (m', s')) \<and>
    fold_res body ys (m, s) = Inr (m', s') \<and> rep m' (ps @ [x\<leftarrow>ys. keep x])"
proof (induction ys arbitrary: ps m s)
  case Nil
  then show ?case by (simp add: for_safe_loop.simps)
next
  case (Cons y ys)
  have y: "y \<noteq> NULL" using null_law [OF Cons.prems] by auto
  obtain m1 s1 where b: "body y (m, s) = Inr (m1, s1)"
    and rep: "rep m1 ((ps @ (if keep y then [y] else [])) @ ys)"
    using step [OF Cons.prems, of s] by auto
  from Cons.IH [OF rep, of s1] show ?case
    using y b next_law [OF Cons.prems] by (subst for_safe_loop.simps) auto
qed

lemma safe_loop_drop:
  assumes "\<And>ps x ys m. rep m (ps @ x # ys) \<Longrightarrow>
      \<exists>m1 m2. remove m x = Inr m1 \<and> dispose m1 x = Inr m2 \<and> rep m2 (ps @ ys)"
    and q: "rep m (ps @ ys)"
  shows "\<exists>m'. for_safe_loop nxt (drop_unless remove dispose keep) (hd0 ys) (m, ()) =
    Some (Inr (m', ())) \<and> rep m' (ps @ [x\<leftarrow>ys. keep x])"
proof -
  have "\<exists>m' s'. drop_unless remove dispose keep x (m, s) = Inr (m', s') \<and>
      rep m' (us @ (if keep x then [x] else []) @ vs)" if "rep m (us @ x # vs)" for us x vs m s
    using assms(1) [OF that] that by (auto simp: drop_unless_def)
  from safe_loop_filter [of "drop_unless remove dispose keep" keep, OF this q] show ?thesis by auto
qed

text \<open>A traversal may start at any element of the list.\<close>

lemma start_from_laws:
  assumes "rep m (ps @ ys)" and "ys \<noteq> [] \<or> ps = []"
  shows "start_from (hd0 ys) (start m) = Inr (hd0 ys)"
  using null_law [OF assms(1)] start_law [OF assms(1)] assms(2)
  by (cases ys) (auto simp: start_from_def)

text \<open>The search finds the element before the one sought, and the last element for NULL.\<close>

lemma seek_loop_before:
  assumes "rep m (ps @ x # zs @ ys)" and "hd0 ys \<notin> set zs"
  shows "seek_loop (nxt m) (hd0 ys) x = Some (Inr (last (x # zs)))"
  using assms
proof (induction zs arbitrary: ps x)
  case Nil
  then show ?case using next_law [of m ps x ys] by (simp add: seek_loop.simps)
next
  case (Cons z zs)
  have IH: "seek_loop (nxt m) (hd0 ys) z = Some (Inr (last (z # zs)))"
    using Cons.IH [of "ps @ [x]" z] Cons.prems by simp
  have "nxt m x = Inr z"
    using next_law [of m ps x "z # zs @ ys"] Cons.prems by simp
  with IH Cons.prems show ?case by (subst seek_loop.simps) auto
qed

text \<open>An element that is not in the list is sought past the end, through the null pointer.\<close>

lemma seek_loop_missing:
  assumes "rep m (ps @ x # zs)" and "e \<notin> set zs" and "e \<noteq> NULL" and "nxt m NULL = Inl BadPointer"
  shows "seek_loop (nxt m) e x = Some (Inl BadPointer)"
  using assms(1,2)
proof (induction zs arbitrary: ps x)
  case Nil
  then show ?case
    using next_law [of m ps x "[]"] assms(3,4)
    by (subst seek_loop.simps, simp) (subst seek_loop.simps, simp)
next
  case (Cons z zs)
  then have "seek_loop (nxt m) e z = Some (Inl BadPointer)" by (intro Cons.IH [of "ps @ [x]"]) auto
  with Cons.prems show ?case
    using next_law [of m ps x "z # zs"] by (subst seek_loop.simps) auto
qed

end

section \<open>The tail queue\<close>

definition TAILQ_FOREACH_FROM ::
  "tailq_store \<Rightarrow> ptr \<Rightarrow> ptr \<Rightarrow> (ptr \<Rightarrow> tailq_store \<times> 's \<Rightarrow> (tailq_store \<times> 's) res) \<Rightarrow> 's \<Rightarrow>
   (tailq_store \<times> 's) res" where
  "TAILQ_FOREACH_FROM m var head body s =
     bindE (start_from var (TAILQ_FIRST m head)) (\<lambda>var.
     returned (for_loop TAILQ_NEXT body var (m, s)))"

definition TAILQ_FOREACH_SAFE ::
  "tailq_store \<Rightarrow> ptr \<Rightarrow> (ptr \<Rightarrow> tailq_store \<times> 's \<Rightarrow> (tailq_store \<times> 's) res) \<Rightarrow> 's \<Rightarrow>
   (tailq_store \<times> 's) res" where
  "TAILQ_FOREACH_SAFE m head body s =
     bindE (TAILQ_FIRST m head) (\<lambda>var.
     returned (for_safe_loop TAILQ_NEXT body var (m, s)))"

definition TAILQ_FOREACH_FROM_SAFE ::
  "tailq_store \<Rightarrow> ptr \<Rightarrow> ptr \<Rightarrow> (ptr \<Rightarrow> tailq_store \<times> 's \<Rightarrow> (tailq_store \<times> 's) res) \<Rightarrow> 's \<Rightarrow>
   (tailq_store \<times> 's) res" where
  "TAILQ_FOREACH_FROM_SAFE m var head body s =
     bindE (start_from var (TAILQ_FIRST m head)) (\<lambda>var.
     returned (for_safe_loop TAILQ_NEXT body var (m, s)))"

definition TAILQ_FOREACH_REVERSE_FROM ::
  "tailq_store \<Rightarrow> ptr \<Rightarrow> ptr \<Rightarrow> (ptr \<Rightarrow> tailq_store \<times> 's \<Rightarrow> (tailq_store \<times> 's) res) \<Rightarrow> 's \<Rightarrow>
   (tailq_store \<times> 's) res" where
  "TAILQ_FOREACH_REVERSE_FROM m var head body s =
     bindE (start_from var (TAILQ_LAST m head)) (\<lambda>var.
     returned (for_loop TAILQ_PREV body var (m, s)))"

definition TAILQ_FOREACH_REVERSE_SAFE ::
  "tailq_store \<Rightarrow> ptr \<Rightarrow> (ptr \<Rightarrow> tailq_store \<times> 's \<Rightarrow> (tailq_store \<times> 's) res) \<Rightarrow> 's \<Rightarrow>
   (tailq_store \<times> 's) res" where
  "TAILQ_FOREACH_REVERSE_SAFE m head body s =
     bindE (TAILQ_LAST m head) (\<lambda>var.
     returned (for_safe_loop TAILQ_PREV body var (m, s)))"

definition TAILQ_FOREACH_REVERSE_FROM_SAFE ::
  "tailq_store \<Rightarrow> ptr \<Rightarrow> ptr \<Rightarrow> (ptr \<Rightarrow> tailq_store \<times> 's \<Rightarrow> (tailq_store \<times> 's) res) \<Rightarrow> 's \<Rightarrow>
   (tailq_store \<times> 's) res" where
  "TAILQ_FOREACH_REVERSE_FROM_SAFE m var head body s =
     bindE (start_from var (TAILQ_LAST m head)) (\<lambda>var.
     returned (for_safe_loop TAILQ_PREV body var (m, s)))"

text \<open>Forwards the queue reads as its list, backwards as the reverse of its list.\<close>

lemma tailq_PREV_rev:
  assumes "tailq m h (rev (xs @ x # ys))"
  shows "TAILQ_PREV m x = Inr (hd0 ys)"
  using tailq_PREV [of m h "rev ys" x "rev xs"] assms
  by (cases ys) (simp_all add: last_rev)

interpretation forwards: traversal "\<lambda>m. tailq m h" "\<lambda>m. TAILQ_FIRST m h" TAILQ_NEXT for h
  by unfold_locales
    (simp_all add: tailq_FIRST tailq_NEXT tailq_NULL tailq_distinct hd0_def)

interpretation backwards: traversal "\<lambda>m xs. tailq m h (rev xs)" "\<lambda>m. TAILQ_LAST m h" TAILQ_PREV
  for h
proof unfold_locales
  fix m xs assume q: "tailq m h (rev xs)"
  then show "TAILQ_LAST m h = Inr (hd0 xs)"
    by (cases xs) (simp_all add: tailq_LAST last_rev)
  show "NULL \<notin> set xs \<and> distinct xs"
    using tailq_NULL [OF q] tailq_distinct [OF q] by simp
qed (rule tailq_PREV_rev)

abbreviation tailq_drop :: "ptr \<Rightarrow> (ptr \<Rightarrow> bool) \<Rightarrow> ptr \<Rightarrow> tailq_store \<times> unit \<Rightarrow> (tailq_store \<times> unit) res"
  where "tailq_drop h \<equiv> drop_unless (\<lambda>m. TAILQ_REMOVE m h) free_elem"

lemma tailq_remove_free:
  assumes "tailq m h (ps @ x # ys)"
  shows "\<exists>m1 m2. TAILQ_REMOVE m h x = Inr m1 \<and> free_elem m1 x = Inr m2 \<and> tailq m2 h (ps @ ys)"
proof -
  obtain m1 where "TAILQ_REMOVE m h x = Inr m1" "tailq m1 h (ps @ ys)" "is_elem m1 x"
    using tailq_remove [OF assms] by blast
  moreover have "x \<notin> set (ps @ ys)" using tailq_distinct [OF assms] by auto
  ultimately show ?thesis using tailq_free [of m1 h "ps @ ys" x] by blast
qed

lemma tailq_remove_free_rev:
  assumes "tailq m h (rev (ps @ x # ys))"
  shows "\<exists>m1 m2. TAILQ_REMOVE m h x = Inr m1 \<and> free_elem m1 x = Inr m2 \<and> tailq m2 h (rev (ps @ ys))"
  using tailq_remove_free [of m h "rev ys" x "rev ps"] assms by simp

lemma freed_NEXT: "free_elem m x = Inr m' \<Longrightarrow> TAILQ_NEXT m' x = Inl BadPointer"
  by (auto simp: free_elem_def tailq_defs split: if_splits)

lemma plain_loop_faults:
  assumes "tailq m h (ps @ ys)" and "\<exists>x \<in> set ys. \<not> keep x"
  shows "for_loop TAILQ_NEXT (tailq_drop h keep) (hd0 ys) (m, ()) = Some (Inl BadPointer)"
  using assms
proof (induction ys arbitrary: ps)
  case (Cons y ys)
  have y: "y \<noteq> NULL" using tailq_NULL [OF Cons.prems(1)] by auto
  show ?case
  proof (cases "keep y")
    case True
    have "for_loop TAILQ_NEXT (tailq_drop h keep) (hd0 ys) (m, ()) = Some (Inl BadPointer)"
      using True Cons.prems by (intro Cons.IH [of "ps @ [y]"]) auto
    with True y tailq_NEXT [OF Cons.prems(1)] show ?thesis
      by (subst for_loop.simps) (simp add: drop_unless_def hd0_def)
  next
    case False
    with y tailq_remove_free [OF Cons.prems(1)] freed_NEXT show ?thesis
      by (subst for_loop.simps) (auto simp: drop_unless_def)
  qed
qed simp

text \<open>Started at an element, the safe forms spare what lies behind the start.\<close>

lemma safe_traversal_from:
  assumes q: "tailq m h (ps @ x # ys)"
  shows "\<exists>m'. TAILQ_FOREACH_FROM_SAFE m x h (tailq_drop h keep) () = Inr (m', ()) \<and>
      tailq m' h (ps @ [y\<leftarrow>x # ys. keep y])"
    and "\<exists>m'. TAILQ_FOREACH_REVERSE_FROM_SAFE m x h (tailq_drop h keep) () = Inr (m', ()) \<and>
      tailq m' h ([y\<leftarrow>ps @ [x]. keep y] @ ys)"
proof -
  have x: "start_from x r = Inr x" for r
    using tailq_NULL [OF q] by (auto simp: start_from_def)
  show "\<exists>m'. TAILQ_FOREACH_FROM_SAFE m x h (tailq_drop h keep) () = Inr (m', ()) \<and>
      tailq m' h (ps @ [y\<leftarrow>x # ys. keep y])"
    using forwards.safe_loop_drop [of h "\<lambda>m. TAILQ_REMOVE m h" free_elem m ps "x # ys" keep,
        OF tailq_remove_free] q
    by (auto simp: TAILQ_FOREACH_FROM_SAFE_def x)
  show "\<exists>m'. TAILQ_FOREACH_REVERSE_FROM_SAFE m x h (tailq_drop h keep) () = Inr (m', ()) \<and>
      tailq m' h ([y\<leftarrow>ps @ [x]. keep y] @ ys)"
    using backwards.safe_loop_drop [of h "\<lambda>m. TAILQ_REMOVE m h" free_elem m "rev ys" "x # rev ps" keep,
        OF tailq_remove_free_rev] q
    by (auto simp: TAILQ_FOREACH_REVERSE_FROM_SAFE_def x rev_filter)
qed

section \<open>Properties\<close>

text \<open>
  C33: \<open>TAILQ_FOREACH_SAFE\<close> with a body that removes and frees some of the elements ends without
  a fault and leaves the queue with the others, in order; so does the reverse form. The plain
  loop with the same body reads the successor of the first element freed from freed memory.
\<close>

theorem safe_traversal_removes:
  assumes "tailq m h xs"
  shows "(\<exists>m'. TAILQ_FOREACH_SAFE m h (tailq_drop h keep) () = Inr (m', ()) \<and>
      tailq m' h [x\<leftarrow>xs. keep x]) \<and>
    (\<exists>m'. TAILQ_FOREACH_REVERSE_SAFE m h (tailq_drop h keep) () = Inr (m', ()) \<and>
      tailq m' h [x\<leftarrow>xs. keep x]) \<and>
    ((\<exists>x \<in> set xs. \<not> keep x) \<longrightarrow>
      TAILQ_FOREACH_FROM m NULL h (tailq_drop h keep) () = Inl BadPointer)"
proof (intro conjI impI)
  show "\<exists>m'. TAILQ_FOREACH_SAFE m h (tailq_drop h keep) () = Inr (m', ()) \<and>
      tailq m' h [x\<leftarrow>xs. keep x]"
    using forwards.safe_loop_drop [of h "\<lambda>m. TAILQ_REMOVE m h" free_elem m "[]" xs keep,
        OF tailq_remove_free] assms
      forwards.start_law [OF assms]
    by (auto simp: TAILQ_FOREACH_SAFE_def)
  show "\<exists>m'. TAILQ_FOREACH_REVERSE_SAFE m h (tailq_drop h keep) () = Inr (m', ()) \<and>
      tailq m' h [x\<leftarrow>xs. keep x]"
    using backwards.safe_loop_drop [of h "\<lambda>m. TAILQ_REMOVE m h" free_elem m "[]" "rev xs" keep,
        OF tailq_remove_free_rev] assms
      backwards.start_law [of m h "rev xs"]
    by (auto simp: TAILQ_FOREACH_REVERSE_SAFE_def rev_filter)
next
  assume "\<exists>x \<in> set xs. \<not> keep x"
  with plain_loop_faults [of m h "[]" xs keep] assms forwards.start_law [OF assms]
  show "TAILQ_FOREACH_FROM m NULL h (tailq_drop h keep) () = Inl BadPointer"
    by (simp add: TAILQ_FOREACH_FROM_def start_from_def)
qed

theorem safe_traversal_removes_witness:
  "\<exists>m'. TAILQ_FOREACH_SAFE two_queues 8 (tailq_drop 8 (\<lambda>x. x = 24)) () = Inr (m', ()) \<and>
    tailq m' 8 [24]"
  using safe_traversal_removes [OF two_queues(1), of "\<lambda>x. x = 24"] by simp

text \<open>
  The \<open>FROM\<close> forms start at the element given, or at the end of the queue when it is the
  null pointer, and run the body to the other end.
\<close>

theorem traversal_from_element:
  assumes q: "tailq m h (ps @ x # ys)" and keeps: "\<And>y m s m' s'. body y (m, s) = Inr (m', s') \<Longrightarrow> m' = m"
  shows "TAILQ_FOREACH_FROM m x h body s = fold_res body (x # ys) (m, s) \<and>
    TAILQ_FOREACH_FROM m NULL h body s = fold_res body (ps @ x # ys) (m, s) \<and>
    TAILQ_FOREACH_REVERSE_FROM m x h body s = fold_res body (x # rev ps) (m, s) \<and>
    TAILQ_FOREACH_REVERSE_FROM m NULL h body s = fold_res body (rev (ps @ x # ys)) (m, s)"
proof -
  have f: "for_loop TAILQ_NEXT body (hd0 zs) (m, s) = Some (fold_res body zs (m, s))"
    if "tailq m h (us @ zs)" for us zs
    by (rule forwards.for_loop_fold [of zs h us]) (use that keeps in blast)+
  have b: "for_loop TAILQ_PREV body (hd0 zs) (m, s) = Some (fold_res body zs (m, s))"
    if "tailq m h (rev (us @ zs))" for us zs
    by (rule backwards.for_loop_fold [of zs h us]) (use that keeps in blast)+
  have rq: "tailq m h (rev (rev ys @ x # rev ps))" using q by simp
  show ?thesis
    using f [of ps "x # ys"] f [of "[]" "ps @ x # ys"] b [of "rev ys" "x # rev ps"]
      b [of "[]" "rev (ps @ x # ys)"] q tailq_NULL [OF q]
      forwards.start_law [OF q] backwards.start_law [OF rq]
    by (simp add: TAILQ_FOREACH_FROM_def TAILQ_FOREACH_REVERSE_FROM_def start_from_def)
qed

theorem traversal_from_element_witness:
  "TAILQ_FOREACH_REVERSE_FROM two_queues 24 8 (\<lambda>x (m, s). Inr (m, s @ [x])) [] =
    Inr (two_queues, [24, 16])"
proof -
  have "tailq two_queues 8 ([16] @ 24 # [])" using two_queues(1) by simp
  from traversal_from_element [OF this, of "\<lambda>x (m, s). Inr (m, s @ [x])" "[]"]
  show ?thesis by simp
qed


end
