(* ===== verification/Singly_Linked.thy ===== *)
theory Singly_Linked
  imports Queue_Traversals
begin

text \<open>
  The singly-linked families of \<open>server/queue.h\<close>: \<open>SLIST\<close>, whose head is one pointer, and
  \<open>STAILQ\<close>, whose head also has the address of the last link. They live in the store of the tail
  queue: \<open>slh_first\<close>, \<open>stqh_first\<close>, \<open>sle_next\<close> and \<open>stqe_next\<close> are cells, and \<open>stqh_last\<close> is the
  field \<open>tqh_last\<close> of the store.
\<close>

section \<open>The macros of \<open>SLIST\<close>\<close>

definition SLIST_FIRST :: "tailq_store \<Rightarrow> ptr \<Rightarrow> ptr res" where
  "SLIST_FIRST m head = load (cell m (FirstOf head))"

definition SLIST_NEXT :: "tailq_store \<Rightarrow> ptr \<Rightarrow> ptr res" where
  "SLIST_NEXT m elm = load (cell m (NextOf elm))"

definition SLIST_EMPTY :: "tailq_store \<Rightarrow> ptr \<Rightarrow> bool res" where
  "SLIST_EMPTY m head = bindE (SLIST_FIRST m head) (\<lambda>p. Inr (p = NULL))"

definition SLIST_HEAD_INITIALIZER :: "tailq_store \<Rightarrow> ptr \<Rightarrow> tailq_store" where
  "SLIST_HEAD_INITIALIZER m head = m\<lparr>cell := (cell m)(FirstOf head \<mapsto> NULL)\<rparr>"

definition SLIST_INIT :: "tailq_store \<Rightarrow> ptr \<Rightarrow> tailq_store res" where
  "SLIST_INIT m head = wr_cell m (FirstOf head) NULL"

definition SLIST_INSERT_HEAD :: "tailq_store \<Rightarrow> ptr \<Rightarrow> ptr \<Rightarrow> tailq_store res" where
  "SLIST_INSERT_HEAD m head elm =
     bindE (SLIST_FIRST m head) (\<lambda>f.
     bindE (wr_cell m (NextOf elm) f) (\<lambda>m.
     wr_cell m (FirstOf head) elm))"

definition SLIST_INSERT_AFTER :: "tailq_store \<Rightarrow> ptr \<Rightarrow> ptr \<Rightarrow> tailq_store res" where
  "SLIST_INSERT_AFTER m slistelm elm =
     bindE (SLIST_NEXT m slistelm) (\<lambda>n.
     bindE (wr_cell m (NextOf elm) n) (\<lambda>m.
     wr_cell m (NextOf slistelm) elm))"

definition SLIST_REMOVE_HEAD :: "tailq_store \<Rightarrow> ptr \<Rightarrow> tailq_store res" where
  "SLIST_REMOVE_HEAD m head =
     bindE (SLIST_FIRST m head) (\<lambda>f.
     bindE (SLIST_NEXT m f) (\<lambda>n.
     wr_cell m (FirstOf head) n))"

definition SLIST_REMOVE_AFTER :: "tailq_store \<Rightarrow> ptr \<Rightarrow> tailq_store res" where
  "SLIST_REMOVE_AFTER m elm =
     bindE (SLIST_NEXT m elm) (\<lambda>n.
     bindE (SLIST_NEXT m n) (\<lambda>n.
     wr_cell m (NextOf elm) n))"

definition SLIST_REMOVE :: "tailq_store \<Rightarrow> ptr \<Rightarrow> ptr \<Rightarrow> tailq_store res" where
  "SLIST_REMOVE m head elm =
     bindE (SLIST_FIRST m head) (\<lambda>f.
     if f = elm then SLIST_REMOVE_HEAD m head
     else bindE (SLIST_FIRST m head) (\<lambda>curelm.
          bindE (returned (seek_loop (SLIST_NEXT m) elm curelm)) (\<lambda>curelm.
          SLIST_REMOVE_AFTER m curelm)))"

definition SLIST_CONCAT :: "tailq_store \<Rightarrow> ptr \<Rightarrow> ptr \<Rightarrow> tailq_store res" where
  "SLIST_CONCAT m head1 head2 =
     bindE (SLIST_FIRST m head1) (\<lambda>curelm.
     if curelm = NULL then
       bindE (SLIST_FIRST m head2) (\<lambda>f.
       bindE (wr_cell m (FirstOf head1) f) (\<lambda>m.
       if f \<noteq> NULL then SLIST_INIT m head2 else Inr m))
     else
       bindE (SLIST_FIRST m head2) (\<lambda>f.
       if f \<noteq> NULL then
         bindE (returned (seek_loop (SLIST_NEXT m) NULL curelm)) (\<lambda>curelm.
         bindE (SLIST_FIRST m head2) (\<lambda>f.
         bindE (wr_cell m (NextOf curelm) f) (\<lambda>m.
         SLIST_INIT m head2)))
       else Inr m))"

definition SLIST_SWAP :: "tailq_store \<Rightarrow> ptr \<Rightarrow> ptr \<Rightarrow> tailq_store res" where
  "SLIST_SWAP m head1 head2 =
     bindE (SLIST_FIRST m head1) (\<lambda>swap_first.
     bindE (SLIST_FIRST m head2) (\<lambda>f.
     bindE (wr_cell m (FirstOf head1) f) (\<lambda>m.
     wr_cell m (FirstOf head2) swap_first)))"

definition SLIST_FOREACH ::
  "tailq_store \<Rightarrow> ptr \<Rightarrow> (ptr \<Rightarrow> tailq_store \<times> 's \<Rightarrow> (tailq_store \<times> 's) res) \<Rightarrow> 's \<Rightarrow>
   (tailq_store \<times> 's) res" where
  "SLIST_FOREACH m head body s =
     bindE (SLIST_FIRST m head) (\<lambda>var. returned (for_loop SLIST_NEXT body var (m, s)))"

definition SLIST_FOREACH_FROM ::
  "tailq_store \<Rightarrow> ptr \<Rightarrow> ptr \<Rightarrow> (ptr \<Rightarrow> tailq_store \<times> 's \<Rightarrow> (tailq_store \<times> 's) res) \<Rightarrow> 's \<Rightarrow>
   (tailq_store \<times> 's) res" where
  "SLIST_FOREACH_FROM m var head body s =
     bindE (start_from var (SLIST_FIRST m head)) (\<lambda>var.
     returned (for_loop SLIST_NEXT body var (m, s)))"

definition SLIST_FOREACH_SAFE ::
  "tailq_store \<Rightarrow> ptr \<Rightarrow> (ptr \<Rightarrow> tailq_store \<times> 's \<Rightarrow> (tailq_store \<times> 's) res) \<Rightarrow> 's \<Rightarrow>
   (tailq_store \<times> 's) res" where
  "SLIST_FOREACH_SAFE m head body s =
     bindE (SLIST_FIRST m head) (\<lambda>var. returned (for_safe_loop SLIST_NEXT body var (m, s)))"

definition SLIST_FOREACH_FROM_SAFE ::
  "tailq_store \<Rightarrow> ptr \<Rightarrow> ptr \<Rightarrow> (ptr \<Rightarrow> tailq_store \<times> 's \<Rightarrow> (tailq_store \<times> 's) res) \<Rightarrow> 's \<Rightarrow>
   (tailq_store \<times> 's) res" where
  "SLIST_FOREACH_FROM_SAFE m var head body s =
     bindE (start_from var (SLIST_FIRST m head)) (\<lambda>var.
     returned (for_safe_loop SLIST_NEXT body var (m, s)))"

text \<open>
  \<open>SLIST_FOREACH_PREVPTR\<close> walks the cells: its body gets the element and the address \<open>varp\<close> of
  the cell that holds it.
\<close>

partial_function (option) prevptr_loop ::
  "(ptr \<Rightarrow> link \<Rightarrow> tailq_store \<times> 's \<Rightarrow> (tailq_store \<times> 's) res) \<Rightarrow> link \<Rightarrow> tailq_store \<times> 's \<Rightarrow>
   (tailq_store \<times> 's) res option" where
  "prevptr_loop body varp s =
     (case load (cell (fst s) varp) of
        Inl e \<Rightarrow> Some (Inl e)
      | Inr var \<Rightarrow>
          if var = NULL then Some (Inr s)
          else (case body var varp s of
                  Inl e \<Rightarrow> Some (Inl e)
                | Inr s' \<Rightarrow> prevptr_loop body (NextOf var) s'))"

definition SLIST_FOREACH_PREVPTR ::
  "tailq_store \<Rightarrow> ptr \<Rightarrow> (ptr \<Rightarrow> link \<Rightarrow> tailq_store \<times> 's \<Rightarrow> (tailq_store \<times> 's) res) \<Rightarrow> 's \<Rightarrow>
   (tailq_store \<times> 's) res" where
  "SLIST_FOREACH_PREVPTR m head body s = returned (prevptr_loop body (FirstOf head) (m, s))"

section \<open>Lists of cells\<close>

text \<open>The links of \<open>seg\<close> without the back pointers.\<close>

primrec path :: "(link \<Rightarrow> ptr option) \<Rightarrow> link \<Rightarrow> ptr list \<Rightarrow> bool" where
  "path c l [] = True"
| "path c l (x # xs) = (c l = Some x \<and> x \<noteq> NULL \<and> path c (NextOf x) xs)"

definition slist :: "tailq_store \<Rightarrow> ptr \<Rightarrow> ptr list \<Rightarrow> bool" where
  "slist m h xs \<longleftrightarrow> distinct xs \<and> path (cell m) (FirstOf h) xs \<and>
     cell m (endl (FirstOf h) xs) = Some NULL"

definition is_link :: "tailq_store \<Rightarrow> ptr \<Rightarrow> bool" where
  "is_link m e \<longleftrightarrow> e \<noteq> NULL \<and> cell m (NextOf e) \<noteq> None"

lemma path_append [simp]: "path c l (xs @ ys) \<longleftrightarrow> path c l xs \<and> path c (endl l xs) ys"
  by (induction xs arbitrary: l) auto

lemma path_other [simp]:
  "k \<notin> insert l (NextOf ` set xs) \<Longrightarrow> path (c(k := v)) l xs = path c l xs"
  by (induction xs arbitrary: l) auto

lemma path_end [simp]:
  "path c l xs \<Longrightarrow> distinct xs \<Longrightarrow> l \<notin> NextOf ` set xs \<Longrightarrow> path (c(endl l xs := v)) l xs"
proof (induction xs arbitrary: l)
  case (Cons x xs)
  have "endl (NextOf x) xs \<noteq> l" using Cons.prems endl_in [of "NextOf x" xs] by auto
  with Cons show ?case by auto
qed simp

lemma path_end_other [simp]:
  "l \<notin> insert k (NextOf ` set ys) \<Longrightarrow> k \<notin> NextOf ` set xs \<Longrightarrow> set xs \<inter> set ys = {} \<Longrightarrow>
    path (c(endl l xs := v)) k ys = path c k ys"
  using endl_in [of l xs] by (intro path_other) auto

lemma path_NULL: "path c l xs \<Longrightarrow> NULL \<notin> set xs"
  by (induction xs arbitrary: l) auto

lemma seg_path: "seg c p l xs \<Longrightarrow> path c l xs"
  by (induction xs arbitrary: l) auto

lemma slist_NULL: "slist m h xs \<Longrightarrow> NULL \<notin> set xs"
  by (auto simp: slist_def dest: path_NULL)

lemma slist_first: "slist m h xs \<Longrightarrow> cell m (FirstOf h) = Some (hd0 xs)"
  by (cases xs) (auto simp: slist_def)

lemma slist_next: "slist m h (xs @ x # ys) \<Longrightarrow> cell m (NextOf x) = Some (hd0 ys)"
  by (cases ys) (auto simp: slist_def)

text \<open>The cell that holds the element after \<open>xs\<close>, by \<open>varp\<close> or by \<open>stqh_last\<close>.\<close>

lemma slist_at: "slist m h (xs @ ys) \<Longrightarrow> cell m (endl (FirstOf h) xs) = Some (hd0 ys)"
  by (cases ys) (auto simp: slist_def)

lemma endl_not_next:
  "x \<notin> set xs \<Longrightarrow> endl (FirstOf h) xs \<noteq> NextOf x" "x \<notin> set xs \<Longrightarrow> y \<noteq> x \<Longrightarrow> endl (NextOf y) xs \<noteq> NextOf x"
  "endl (NextOf y) xs \<noteq> FirstOf h"
  using endl_in [of "FirstOf h" xs] endl_in [of "NextOf y" xs] by auto

text \<open>Writing the cell after \<open>xs\<close> replaces the rest of the list.\<close>

lemma slist_splice:
  assumes q: "slist m h (xs @ ys)" and d: "distinct (xs @ zs)"
    and p: "path (cell m) (NextOf z) zs" and z: "z \<noteq> NULL" "z \<notin> set (xs @ zs)"
    and e: "cell m (endl (NextOf z) zs) = Some NULL"
    and c: "c = (cell m)(endl (FirstOf h) xs \<mapsto> z)"
  shows "slist (m\<lparr>cell := c\<rparr>) h (xs @ z # zs)"
proof -
  let ?l = "endl (FirstOf h) xs"
  have l: "?l \<noteq> NextOf z" "?l \<notin> NextOf ` set zs" "?l \<noteq> endl (NextOf z) zs"
    using z d endl_in [of "FirstOf h" xs] endl_in [of "NextOf z" zs] by auto
  show ?thesis
    using q d p z e l by (auto simp: slist_def c)
qed

lemma slist_cut:
  assumes "slist m h (xs @ ys)" and "c = (cell m)(endl (FirstOf h) xs \<mapsto> NULL)"
  shows "slist (m\<lparr>cell := c\<rparr>) h xs"
  using assms by (auto simp: slist_def)

named_theorems slist_defs \<open>the macros of \<open>SLIST\<close> and the store\<close>

lemmas [slist_defs] = SLIST_FIRST_def SLIST_NEXT_def SLIST_EMPTY_def SLIST_INIT_def
  SLIST_INSERT_HEAD_def SLIST_INSERT_AFTER_def SLIST_REMOVE_HEAD_def SLIST_REMOVE_AFTER_def
  SLIST_SWAP_def wr_cell_def load_def

lemma slist_FIRST: "slist m h xs \<Longrightarrow> SLIST_FIRST m h = Inr (hd0 xs)"
  by (simp add: slist_defs slist_first)

lemma slist_NEXT: "slist m h (xs @ x # ys) \<Longrightarrow> SLIST_NEXT m x = Inr (hd0 ys)"
  by (simp add: slist_defs slist_next)

lemma slist_EMPTY: "slist m h xs \<Longrightarrow> SLIST_EMPTY m h = Inr (xs = [])"
  using slist_NULL [of m h xs] by (cases xs) (auto simp: SLIST_EMPTY_def slist_FIRST)

interpretation slist: traversal "\<lambda>m. slist m h" "\<lambda>m. SLIST_FIRST m h" SLIST_NEXT for h
  by unfold_locales (auto simp: slist_FIRST slist_NEXT slist_NULL slist_def)

lemma slist_init: "cell m (FirstOf h) \<noteq> None \<Longrightarrow> \<exists>m'. SLIST_INIT m h = Inr m' \<and> slist m' h []"
  by (auto simp: slist_defs slist_def)

lemma slist_head_initializer: "slist (SLIST_HEAD_INITIALIZER m h) h []"
  by (simp add: SLIST_HEAD_INITIALIZER_def slist_def)

lemma slist_insert_head:
  assumes "slist m h xs" and "is_link m e" and "e \<notin> set xs"
  shows "\<exists>m'. SLIST_INSERT_HEAD m h e = Inr m' \<and> slist m' h (e # xs)"
  using assms by (cases xs) (auto simp: slist_defs slist_def is_link_def endl_not_next)

lemma slist_insert_after:
  assumes "slist m h (xs @ x # ys)" and "is_link m e" and "e \<notin> set (xs @ x # ys)"
  shows "\<exists>m'. SLIST_INSERT_AFTER m x e = Inr m' \<and> slist m' h (xs @ x # e # ys)"
  using assms by (cases ys) (auto simp: slist_defs slist_def is_link_def endl_not_next)

lemma slist_remove_head:
  assumes "slist m h (x # xs)"
  shows "\<exists>m'. SLIST_REMOVE_HEAD m h = Inr m' \<and> slist m' h xs \<and> is_link m' x"
  using assms by (cases xs) (auto simp: slist_defs slist_def is_link_def endl_not_next)

lemma slist_remove_after:
  assumes "slist m h (xs @ x # y # ys)"
  shows "\<exists>m'. SLIST_REMOVE_AFTER m x = Inr m' \<and> slist m' h (xs @ x # ys) \<and> is_link m' y"
  using assms by (cases ys) (auto simp: slist_defs slist_def is_link_def endl_not_next)

text \<open>\<open>SLIST_REMOVE\<close> of an element that is not the first: the search stops before it.\<close>

lemma slist_seek:
  assumes q: "slist m h (x # zs @ e # ys)"
  shows "returned (seek_loop (SLIST_NEXT m) e x) = Inr (last (x # zs))"
proof -
  have "e \<notin> set zs" using q by (auto simp: slist_def)
  then show ?thesis
    using slist.seek_loop_before [of m h "[]" x zs "e # ys"] q by simp
qed

lemma slist_remove:
  assumes q: "slist m h (xs @ e # ys)"
  shows "\<exists>m'. SLIST_REMOVE m h e = Inr m' \<and> slist m' h (xs @ ys) \<and> is_link m' e"
proof (cases xs)
  case Nil
  with slist_remove_head [of m h e ys] q slist_FIRST [OF q] show ?thesis
    by (simp add: SLIST_REMOVE_def)
next
  case (Cons x zs)
  have ne: "x \<noteq> e" using q Cons by (auto simp: slist_def)
  obtain us p where us: "xs = us @ [p]" using Cons by (metis append_butlast_last_id list.distinct(1))
  then have "last (x # zs) = p" using Cons by (metis last_snoc)
  then have "returned (seek_loop (SLIST_NEXT m) e x) = Inr p"
    using slist_seek [of m h x zs e ys] q Cons by simp
  moreover have "SLIST_FIRST m h = Inr x" using slist_FIRST [OF q] Cons by simp
  ultimately have "SLIST_REMOVE m h e = SLIST_REMOVE_AFTER m p"
    using ne by (simp add: SLIST_REMOVE_def)
  with slist_remove_after [of m h us p e ys] q us show ?thesis by simp
qed

text \<open>An element that is not in the list: the search runs into the null pointer.\<close>

lemma slist_remove_missing:
  assumes q: "slist m h xs" and e: "e \<notin> set xs" "e \<noteq> NULL" and null: "cell m (NextOf NULL) = None"
  shows "SLIST_REMOVE m h e = Inl BadPointer"
proof (cases xs)
  case Nil
  have "seek_loop (SLIST_NEXT m) e NULL = Some (Inl BadPointer)"
    using null by (subst seek_loop.simps) (simp add: slist_defs)
  with Nil slist_FIRST [OF q] e show ?thesis by (simp add: SLIST_REMOVE_def)
next
  case (Cons x zs)
  have "seek_loop (SLIST_NEXT m) e x = Some (Inl BadPointer)"
    using slist.seek_loop_missing [of m h "[]" x zs e] q Cons e null by (simp add: slist_defs)
  with Cons slist_FIRST [OF q] e show ?thesis by (auto simp: SLIST_REMOVE_def)
qed

lemma slist_last:
  assumes q: "slist m h (x # zs)"
  shows "returned (seek_loop (SLIST_NEXT m) NULL x) = Inr (last (x # zs))"
  using slist.seek_loop_before [of m h "[]" x zs "[]"] slist_NULL [OF q] q by simp

lemma slist_concat:
  assumes q: "slist m h1 xs" "slist m h2 ys" and d: "h1 \<noteq> h2" "set xs \<inter> set ys = {}"
  shows "\<exists>m'. SLIST_CONCAT m h1 h2 = Inr m' \<and> slist m' h1 (xs @ ys) \<and> slist m' h2 []"
proof -
  have first: "SLIST_FIRST m h1 = Inr (hd0 xs)" "SLIST_FIRST m h2 = Inr (hd0 ys)"
    using q slist_FIRST by blast+
  show ?thesis
  proof (cases "xs = []")
    case True
    with q d first slist_NULL [OF q(2)] show ?thesis
      by (cases ys) (auto simp: SLIST_CONCAT_def slist_def wr_cell_def load_def SLIST_INIT_def
          endl_not_next)
  next
    case False
    then obtain x zs where xs: "xs = x # zs" by (cases xs) auto
    obtain us p where us: "xs = us @ [p]" using xs by (metis append_butlast_last_id list.distinct(1))
    have p: "last (x # zs) = p" using us xs by (metis last_snoc)
    have x: "x \<noteq> NULL" using slist_NULL [OF q(1)] xs by auto
    have seek: "returned (seek_loop (SLIST_NEXT m) NULL x) = Inr p"
      using slist_last [of m h1 x zs] q xs p by simp
    have eval: "SLIST_CONCAT m h1 h2 = (if hd0 ys \<noteq> NULL
        then bindE (wr_cell m (NextOf p) (hd0 ys)) (\<lambda>m. SLIST_INIT m h2) else Inr m)"
      using first xs x seek by (simp add: SLIST_CONCAT_def)
    show ?thesis
      using q d us slist_NULL [OF q(2)]
      by (cases ys) (auto simp: eval slist_def wr_cell_def load_def SLIST_INIT_def endl_not_next)
  qed
qed

lemma slist_swap:
  assumes "slist m h1 xs" "slist m h2 ys" and "h1 \<noteq> h2" "set xs \<inter> set ys = {}"
  shows "\<exists>m'. SLIST_SWAP m h1 h2 = Inr m' \<and> slist m' h1 ys \<and> slist m' h2 xs"
  using assms by (cases xs; cases ys) (auto simp: slist_defs slist_def endl_not_next)

text \<open>The traversal by cells passes with each element the cell that holds it.\<close>

fun fold_cells ::
  "(ptr \<Rightarrow> link \<Rightarrow> 's \<Rightarrow> 's res) \<Rightarrow> link \<Rightarrow> ptr list \<Rightarrow> 's \<Rightarrow> 's res" where
  "fold_cells body l [] s = Inr s"
| "fold_cells body l (x # xs) s = bindE (body x l s) (fold_cells body (NextOf x) xs)"

lemma slist_prevptr:
  assumes keeps: "\<And>x l s m' s'. body x l (m, s) = Inr (m', s') \<Longrightarrow> m' = m"
  shows "slist m h (ps @ ys) \<Longrightarrow> prevptr_loop body (endl (FirstOf h) ps) (m, s) =
    Some (fold_cells body (endl (FirstOf h) ps) ys (m, s))"
proof (induction ys arbitrary: ps s)
  case Nil
  then show ?case using slist_at [of m h ps "[]"]
    by (subst prevptr_loop.simps) (simp add: load_def)
next
  case (Cons y ys)
  have y: "y \<noteq> NULL" using slist_NULL [OF Cons.prems] by auto
  have IH: "prevptr_loop body (NextOf y) (m, s') = Some (fold_cells body (NextOf y) ys (m, s'))" for s'
    using Cons.IH [of "ps @ [y]" s'] Cons.prems by simp
  show ?case
    using y slist_at [OF Cons.prems] keeps [of y "endl (FirstOf h) ps" s] IH
    by (subst prevptr_loop.simps) (auto simp: load_def split: sum.split)
qed

section \<open>The macros of \<open>STAILQ\<close>\<close>

definition STAILQ_FIRST :: "tailq_store \<Rightarrow> ptr \<Rightarrow> ptr res" where
  "STAILQ_FIRST m head = load (cell m (FirstOf head))"

definition STAILQ_NEXT :: "tailq_store \<Rightarrow> ptr \<Rightarrow> ptr res" where
  "STAILQ_NEXT m elm = load (cell m (NextOf elm))"

definition STAILQ_EMPTY :: "tailq_store \<Rightarrow> ptr \<Rightarrow> bool res" where
  "STAILQ_EMPTY m head = bindE (STAILQ_FIRST m head) (\<lambda>p. Inr (p = NULL))"

definition STAILQ_HEAD_INITIALIZER :: "tailq_store \<Rightarrow> ptr \<Rightarrow> tailq_store" where
  "STAILQ_HEAD_INITIALIZER m head =
     m\<lparr>cell := (cell m)(FirstOf head \<mapsto> NULL), tqh_last := (tqh_last m)(head \<mapsto> FirstOf head)\<rparr>"

definition STAILQ_INIT :: "tailq_store \<Rightarrow> ptr \<Rightarrow> tailq_store res" where
  "STAILQ_INIT m head =
     bindE (wr_cell m (FirstOf head) NULL) (\<lambda>m. wr_last m head (FirstOf head))"

definition STAILQ_INSERT_HEAD :: "tailq_store \<Rightarrow> ptr \<Rightarrow> ptr \<Rightarrow> tailq_store res" where
  "STAILQ_INSERT_HEAD m head elm =
     bindE (STAILQ_FIRST m head) (\<lambda>f.
     bindE (wr_cell m (NextOf elm) f) (\<lambda>m.
     bindE (if f = NULL then wr_last m head (NextOf elm) else Inr m) (\<lambda>m.
     wr_cell m (FirstOf head) elm)))"

definition STAILQ_INSERT_TAIL :: "tailq_store \<Rightarrow> ptr \<Rightarrow> ptr \<Rightarrow> tailq_store res" where
  "STAILQ_INSERT_TAIL m head elm =
     bindE (wr_cell m (NextOf elm) NULL) (\<lambda>m.
     bindE (load (tqh_last m head)) (\<lambda>l.
     bindE (wr_cell m l elm) (\<lambda>m.
     wr_last m head (NextOf elm))))"

definition STAILQ_INSERT_AFTER :: "tailq_store \<Rightarrow> ptr \<Rightarrow> ptr \<Rightarrow> ptr \<Rightarrow> tailq_store res" where
  "STAILQ_INSERT_AFTER m head tqelm elm =
     bindE (STAILQ_NEXT m tqelm) (\<lambda>n.
     bindE (wr_cell m (NextOf elm) n) (\<lambda>m.
     bindE (if n = NULL then wr_last m head (NextOf elm) else Inr m) (\<lambda>m.
     wr_cell m (NextOf tqelm) elm)))"

definition STAILQ_REMOVE_HEAD :: "tailq_store \<Rightarrow> ptr \<Rightarrow> tailq_store res" where
  "STAILQ_REMOVE_HEAD m head =
     bindE (STAILQ_FIRST m head) (\<lambda>f.
     bindE (STAILQ_NEXT m f) (\<lambda>n.
     bindE (wr_cell m (FirstOf head) n) (\<lambda>m.
     if n = NULL then wr_last m head (FirstOf head) else Inr m)))"

definition STAILQ_REMOVE_AFTER :: "tailq_store \<Rightarrow> ptr \<Rightarrow> ptr \<Rightarrow> tailq_store res" where
  "STAILQ_REMOVE_AFTER m head elm =
     bindE (STAILQ_NEXT m elm) (\<lambda>n.
     bindE (STAILQ_NEXT m n) (\<lambda>n.
     bindE (wr_cell m (NextOf elm) n) (\<lambda>m.
     if n = NULL then wr_last m head (NextOf elm) else Inr m)))"

definition STAILQ_REMOVE :: "tailq_store \<Rightarrow> ptr \<Rightarrow> ptr \<Rightarrow> tailq_store res" where
  "STAILQ_REMOVE m head elm =
     bindE (STAILQ_FIRST m head) (\<lambda>f.
     if f = elm then STAILQ_REMOVE_HEAD m head
     else bindE (STAILQ_FIRST m head) (\<lambda>curelm.
          bindE (returned (seek_loop (STAILQ_NEXT m) elm curelm)) (\<lambda>curelm.
          STAILQ_REMOVE_AFTER m head curelm)))"

text \<open>
  \<open>STAILQ_LAST\<close> computes the element from the address of its link; for the address of another
  head the result would point into that head's object, which the model calls a bad pointer.
\<close>

definition STAILQ_LAST :: "tailq_store \<Rightarrow> ptr \<Rightarrow> ptr res" where
  "STAILQ_LAST m head =
     bindE (STAILQ_EMPTY m head) (\<lambda>emp.
     if emp then Inr NULL
     else bindE (load (tqh_last m head)) (\<lambda>l.
          case l of NextOf e \<Rightarrow> Inr e | FirstOf h \<Rightarrow> Inl BadPointer))"

definition STAILQ_CONCAT :: "tailq_store \<Rightarrow> ptr \<Rightarrow> ptr \<Rightarrow> tailq_store res" where
  "STAILQ_CONCAT m head1 head2 =
     bindE (STAILQ_EMPTY m head2) (\<lambda>emp.
     if \<not> emp then
       bindE (load (tqh_last m head1)) (\<lambda>l.
       bindE (STAILQ_FIRST m head2) (\<lambda>f.
       bindE (wr_cell m l f) (\<lambda>m.
       bindE (load (tqh_last m head2)) (\<lambda>l.
       bindE (wr_last m head1 l) (\<lambda>m.
       STAILQ_INIT m head2)))))
     else Inr m)"

definition STAILQ_SWAP :: "tailq_store \<Rightarrow> ptr \<Rightarrow> ptr \<Rightarrow> tailq_store res" where
  "STAILQ_SWAP m head1 head2 =
     bindE (STAILQ_FIRST m head1) (\<lambda>swap_first.
     bindE (load (tqh_last m head1)) (\<lambda>swap_last.
     bindE (STAILQ_FIRST m head2) (\<lambda>f.
     bindE (wr_cell m (FirstOf head1) f) (\<lambda>m.
     bindE (load (tqh_last m head2)) (\<lambda>l.
     bindE (wr_last m head1 l) (\<lambda>m.
     bindE (wr_cell m (FirstOf head2) swap_first) (\<lambda>m.
     bindE (wr_last m head2 swap_last) (\<lambda>m.
     bindE (STAILQ_EMPTY m head1) (\<lambda>emp.
     bindE (if emp then wr_last m head1 (FirstOf head1) else Inr m) (\<lambda>m.
     bindE (STAILQ_EMPTY m head2) (\<lambda>emp.
     if emp then wr_last m head2 (FirstOf head2) else Inr m)))))))))))"

definition STAILQ_FOREACH ::
  "tailq_store \<Rightarrow> ptr \<Rightarrow> (ptr \<Rightarrow> tailq_store \<times> 's \<Rightarrow> (tailq_store \<times> 's) res) \<Rightarrow> 's \<Rightarrow>
   (tailq_store \<times> 's) res" where
  "STAILQ_FOREACH m head body s =
     bindE (STAILQ_FIRST m head) (\<lambda>var. returned (for_loop STAILQ_NEXT body var (m, s)))"

definition STAILQ_FOREACH_FROM ::
  "tailq_store \<Rightarrow> ptr \<Rightarrow> ptr \<Rightarrow> (ptr \<Rightarrow> tailq_store \<times> 's \<Rightarrow> (tailq_store \<times> 's) res) \<Rightarrow> 's \<Rightarrow>
   (tailq_store \<times> 's) res" where
  "STAILQ_FOREACH_FROM m var head body s =
     bindE (start_from var (STAILQ_FIRST m head)) (\<lambda>var.
     returned (for_loop STAILQ_NEXT body var (m, s)))"

definition STAILQ_FOREACH_SAFE ::
  "tailq_store \<Rightarrow> ptr \<Rightarrow> (ptr \<Rightarrow> tailq_store \<times> 's \<Rightarrow> (tailq_store \<times> 's) res) \<Rightarrow> 's \<Rightarrow>
   (tailq_store \<times> 's) res" where
  "STAILQ_FOREACH_SAFE m head body s =
     bindE (STAILQ_FIRST m head) (\<lambda>var. returned (for_safe_loop STAILQ_NEXT body var (m, s)))"

definition STAILQ_FOREACH_FROM_SAFE ::
  "tailq_store \<Rightarrow> ptr \<Rightarrow> ptr \<Rightarrow> (ptr \<Rightarrow> tailq_store \<times> 's \<Rightarrow> (tailq_store \<times> 's) res) \<Rightarrow> 's \<Rightarrow>
   (tailq_store \<times> 's) res" where
  "STAILQ_FOREACH_FROM_SAFE m var head body s =
     bindE (start_from var (STAILQ_FIRST m head)) (\<lambda>var.
     returned (for_safe_loop STAILQ_NEXT body var (m, s)))"

section \<open>Singly-linked tail queues as lists\<close>

text \<open>A list whose head knows the cell at its end.\<close>

definition stailq :: "tailq_store \<Rightarrow> ptr \<Rightarrow> ptr list \<Rightarrow> bool" where
  "stailq m h xs \<longleftrightarrow> slist m h xs \<and> tqh_last m h = Some (endl (FirstOf h) xs)"

lemma tailq_stailq: "tailq m h xs \<Longrightarrow> stailq m h xs"
  by (auto simp: tailq_def stailq_def slist_def dest: seg_path)

text \<open>What is read and searched is read as in \<open>SLIST\<close>.\<close>

lemma stailq_as_slist:
  "STAILQ_FIRST = SLIST_FIRST" "STAILQ_NEXT = SLIST_NEXT" "STAILQ_EMPTY = SLIST_EMPTY"
  by (simp_all add: fun_eq_iff STAILQ_FIRST_def SLIST_FIRST_def STAILQ_NEXT_def SLIST_NEXT_def
      STAILQ_EMPTY_def SLIST_EMPTY_def)

lemmas stailq_defs = stailq_as_slist STAILQ_INIT_def STAILQ_INSERT_HEAD_def
  STAILQ_INSERT_TAIL_def STAILQ_INSERT_AFTER_def STAILQ_REMOVE_HEAD_def STAILQ_REMOVE_AFTER_def
  STAILQ_CONCAT_def STAILQ_SWAP_def wr_last_def slist_defs stailq_def slist_def

interpretation stailq: traversal "\<lambda>m. stailq m h" "\<lambda>m. STAILQ_FIRST m h" STAILQ_NEXT for h
  by unfold_locales (auto simp: stailq_def stailq_as_slist slist_FIRST slist_NEXT slist_NULL slist_def)

lemma stailq_init:
  "cell m (FirstOf h) \<noteq> None \<Longrightarrow> tqh_last m h \<noteq> None \<Longrightarrow> \<exists>m'. STAILQ_INIT m h = Inr m' \<and> stailq m' h []"
  by (auto simp: stailq_defs)

lemma stailq_head_initializer: "stailq (STAILQ_HEAD_INITIALIZER m h) h []"
  by (simp add: STAILQ_HEAD_INITIALIZER_def stailq_def slist_def)

lemma stailq_insert_head:
  assumes "stailq m h xs" and "is_link m e" and "e \<notin> set xs"
  shows "\<exists>m'. STAILQ_INSERT_HEAD m h e = Inr m' \<and> stailq m' h (e # xs)"
  using assms by (cases xs) (auto simp: stailq_defs is_link_def endl_not_next)

lemma stailq_insert_tail:
  assumes "stailq m h xs" and "is_link m e" and "e \<notin> set xs"
  shows "\<exists>m'. STAILQ_INSERT_TAIL m h e = Inr m' \<and> stailq m' h (xs @ [e])"
  using assms by (auto simp: stailq_defs is_link_def endl_not_next endl_not_next [symmetric])

lemma stailq_insert_after:
  assumes "stailq m h (xs @ x # ys)" and "is_link m e" and "e \<notin> set (xs @ x # ys)"
  shows "\<exists>m'. STAILQ_INSERT_AFTER m h x e = Inr m' \<and> stailq m' h (xs @ x # e # ys)"
  using assms by (cases ys) (auto simp: stailq_defs is_link_def endl_not_next)

lemma stailq_remove_head:
  assumes "stailq m h (x # xs)"
  shows "\<exists>m'. STAILQ_REMOVE_HEAD m h = Inr m' \<and> stailq m' h xs \<and> is_link m' x"
  using assms by (cases xs) (auto simp: stailq_defs is_link_def endl_not_next)

lemma stailq_remove_after:
  assumes "stailq m h (xs @ x # y # ys)"
  shows "\<exists>m'. STAILQ_REMOVE_AFTER m h x = Inr m' \<and> stailq m' h (xs @ x # ys) \<and> is_link m' y"
  using assms by (cases ys) (auto simp: stailq_defs is_link_def endl_not_next)

lemma stailq_remove:
  assumes q: "stailq m h (xs @ e # ys)"
  shows "\<exists>m'. STAILQ_REMOVE m h e = Inr m' \<and> stailq m' h (xs @ ys) \<and> is_link m' e"
proof (cases xs)
  case Nil
  with stailq_remove_head [of m h e ys] q stailq.start_law [OF q] show ?thesis
    by (simp add: STAILQ_REMOVE_def)
next
  case (Cons x zs)
  have sq: "slist m h (x # zs @ e # ys)" using q Cons by (simp add: stailq_def)
  have ne: "x \<noteq> e" using sq by (auto simp: slist_def)
  obtain us p where us: "xs = us @ [p]" using Cons by (metis append_butlast_last_id list.distinct(1))
  then have "last (x # zs) = p" using Cons by (metis last_snoc)
  then have "returned (seek_loop (STAILQ_NEXT m) e x) = Inr p"
    using slist_seek [OF sq] by (simp add: stailq_as_slist)
  moreover have "STAILQ_FIRST m h = Inr x" using stailq.start_law [OF q] Cons by simp
  ultimately have "STAILQ_REMOVE m h e = STAILQ_REMOVE_AFTER m h p"
    using ne by (simp add: STAILQ_REMOVE_def)
  with stailq_remove_after [of m h us p e ys] q us show ?thesis by simp
qed

lemma stailq_EMPTY: "stailq m h xs \<Longrightarrow> STAILQ_EMPTY m h = Inr (xs = [])"
  by (simp add: stailq_as_slist stailq_def slist_EMPTY)

lemma stailq_LAST:
  assumes "stailq m h xs"
  shows "STAILQ_LAST m h = Inr (if xs = [] then NULL else last xs)"
  using assms stailq_EMPTY [OF assms]
  by (auto simp: STAILQ_LAST_def stailq_def load_def endl_cases)

lemma stailq_concat:
  assumes q: "stailq m h1 xs" "stailq m h2 ys" and d: "h1 \<noteq> h2" "set xs \<inter> set ys = {}"
  shows "\<exists>m'. STAILQ_CONCAT m h1 h2 = Inr m' \<and> stailq m' h1 (xs @ ys) \<and> stailq m' h2 []"
proof (cases ys)
  case Nil
  with q stailq_EMPTY [OF q(2)] show ?thesis by (simp add: STAILQ_CONCAT_def)
next
  case (Cons y zs)
  let ?l = "endl (FirstOf h1) xs"
  have l: "?l \<noteq> FirstOf h2" "?l \<notin> NextOf ` set ys" "?l \<noteq> endl (NextOf y) zs" "?l \<noteq> NextOf y"
    "endl (NextOf y) zs \<noteq> FirstOf h2"
    using d Cons endl_in [of "FirstOf h1" xs] endl_in [of "NextOf y" zs] by auto
  with Cons q d show ?thesis by (auto simp: stailq_defs)
qed

lemma stailq_swap:
  assumes "stailq m h1 xs" "stailq m h2 ys" and "h1 \<noteq> h2" "set xs \<inter> set ys = {}"
  shows "\<exists>m'. STAILQ_SWAP m h1 h2 = Inr m' \<and> stailq m' h1 ys \<and> stailq m' h2 xs"
  using assms by (cases xs; cases ys) (auto simp: stailq_defs endl_not_next)

section \<open>Allocation of elements\<close>

text \<open>An element of a singly-linked list has one link, indeterminate after \<open>malloc\<close>.\<close>

definition alloc_link :: "tailq_store \<Rightarrow> ptr \<Rightarrow> ptr \<times> link \<Rightarrow> tailq_store" where
  "alloc_link m e junk = m\<lparr>cell := (cell m)(NextOf e \<mapsto> fst junk)\<rparr>"

definition free_link :: "tailq_store \<Rightarrow> ptr \<Rightarrow> tailq_store res" where
  "free_link m e =
     (if cell m (NextOf e) \<noteq> None then Inr (m\<lparr>cell := (cell m)(NextOf e := None)\<rparr>)
      else Inl BadFree)"

lemma is_link_alloc: "e \<noteq> NULL \<Longrightarrow> is_link (alloc_link m e junk) e"
  by (simp add: is_link_def alloc_link_def)

lemma slist_link_frame:
  assumes "slist m h xs" and "e \<notin> set xs"
  shows "slist (m\<lparr>cell := (cell m)(NextOf e := v)\<rparr>) h xs"
  using assms endl_not_next(1) [of e xs h] by (simp add: slist_def)

lemma stailq_link_frame:
  "stailq m h xs \<Longrightarrow> e \<notin> set xs \<Longrightarrow> stailq (m\<lparr>cell := (cell m)(NextOf e := v)\<rparr>) h xs"
  by (simp add: stailq_def slist_link_frame)

lemma stailq_alloc: "stailq m h xs \<Longrightarrow> e \<notin> set xs \<Longrightarrow> stailq (alloc_link m e junk) h xs"
  by (simp add: alloc_link_def stailq_link_frame)

lemma stailq_free:
  "stailq m h xs \<Longrightarrow> is_link m e \<Longrightarrow> e \<notin> set xs \<Longrightarrow> \<exists>m'. free_link m e = Inr m' \<and> stailq m' h xs"
  by (simp add: free_link_def is_link_def stailq_link_frame)

text \<open>The traversal as the contract of \<open>element_list\<close> has it, with a body that leaves the store.\<close>

definition reading :: "(ptr \<Rightarrow> 's \<Rightarrow> 's res) \<Rightarrow> ptr \<Rightarrow> tailq_store \<times> 's \<Rightarrow> (tailq_store \<times> 's) res" where
  "reading body x s = bindE (body x (snd s)) (\<lambda>s'. Inr (fst s, s'))"

lemma fold_reading:
  "fold_res (reading body) xs (m, s) = bindE (fold_res body xs s) (\<lambda>s'. Inr (m, s'))"
proof (induction xs arbitrary: s)
  case (Cons x xs)
  then show ?case by (cases "body x s") (simp_all add: reading_def)
qed simp

lemma stailq_FOREACH:
  assumes q: "stailq m h xs"
  shows "bindE (STAILQ_FOREACH m h (reading body) s) (\<lambda>r. Inr (snd r)) = fold_res body xs s"
proof -
  have keeps: "m' = m" if "reading body x (m, s) = Inr (m', s')" for x m s m' s'
    using that by (auto simp: reading_def bindE_Inr_iff)
  have "for_loop STAILQ_NEXT (reading body) (hd0 xs) (m, s) = Some (fold_res (reading body) xs (m, s))"
    by (rule stailq.for_loop_fold [of xs h "[]"]) (use keeps q in \<open>auto dest: keeps\<close>)
  with stailq.start_law [OF q] show ?thesis
    by (cases "fold_res body xs s") (simp_all add: STAILQ_FOREACH_def fold_reading)
qed

text \<open>A \<open>STAILQ\<close> provides the same contract as the tail queue of the server.\<close>

interpretation stailq_list: element_list "\<lambda>m. stailq m h" alloc_link "\<lambda>m. STAILQ_INSERT_TAIL m h"
  "\<lambda>m. STAILQ_EMPTY m h" "\<lambda>m. STAILQ_FIRST m h" "\<lambda>m e. STAILQ_REMOVE m h e" free_link
  "\<lambda>m body s. bindE (STAILQ_FOREACH m h (reading body) s) (\<lambda>r. Inr (snd r))" for h
proof unfold_locales
  fix m xs and e :: ptr and junk
  assume "stailq m h xs" "e \<noteq> NULL" "e \<notin> set xs"
  then show "\<exists>m'. STAILQ_INSERT_TAIL (alloc_link m e junk) h e = Inr m' \<and> stailq m' h (xs @ [e])"
    by (intro stailq_insert_tail stailq_alloc is_link_alloc)
next
  fix m x xs assume q: "stailq m h (x # xs)"
  obtain m1 where m1: "STAILQ_REMOVE m h x = Inr m1" "stailq m1 h xs" "is_link m1 x"
    using stailq_remove [of m h "[]" x xs] q by auto
  have "x \<notin> set xs" using stailq.null_law [OF q] by simp
  with m1 stailq_free [OF m1(2,3)]
  show "\<exists>m1 m2. STAILQ_REMOVE m h x = Inr m1 \<and> free_link m1 x = Inr m2 \<and> stailq m2 h xs"
    by blast
qed (use stailq.null_law stailq.start_law in \<open>force simp: stailq_EMPTY stailq_FOREACH\<close>)+

section \<open>Properties\<close>

lemma two_lists:
  "slist two_queues 8 [16, 24]" "slist two_queues 9 [40]" "stailq two_queues 8 [16, 24]"
  "stailq two_queues 9 [40]" "is_link two_queues 32"
  by (simp_all add: two_queues_def slist_def stailq_def is_link_def)

text \<open>
  \<open>SLIST_REMOVE\<close> searches the list: it ends and takes out exactly the element given, which
  stays allocated, and when the element is not in the list it follows the null pointer.
\<close>

theorem slist_remove_searches:
  assumes "slist m h xs" and "e \<noteq> NULL" and "cell m (NextOf NULL) = None"
  shows "(e \<in> set xs \<longrightarrow>
      (\<exists>m'. SLIST_REMOVE m h e = Inr m' \<and> slist m' h (remove1 e xs) \<and> is_link m' e)) \<and>
    (e \<notin> set xs \<longrightarrow> SLIST_REMOVE m h e = Inl BadPointer)"
proof (intro conjI impI)
  assume "e \<in> set xs"
  then obtain us ys where xs: "xs = us @ e # ys" "e \<notin> set us" by (meson split_list_first)
  then show "\<exists>m'. SLIST_REMOVE m h e = Inr m' \<and> slist m' h (remove1 e xs) \<and> is_link m' e"
    using slist_remove [of m h us e ys] assms(1) by (simp add: remove1_append)
qed (rule slist_remove_missing [OF assms(1) _ assms(2,3)])

theorem slist_remove_searches_witness:
  "(\<exists>m'. SLIST_REMOVE two_queues 8 24 = Inr m' \<and> slist m' 8 [16] \<and> is_link m' 24) \<and>
    SLIST_REMOVE two_queues 8 32 = Inl BadPointer"
proof -
  have "cell two_queues (NextOf NULL) = None" by (simp add: two_queues_def)
  with slist_remove_searches [OF two_lists(1), of 24] slist_remove_searches [OF two_lists(1), of 32]
  show ?thesis by simp
qed

text \<open>
  C35: For a client that appends fresh elements, reads the list and drains it, the singly-linked
  tail queue and the tail queue of the server are equivalent: both accept the same elements,
  the traversals give the same result, and both are drained in the order of insertion.
\<close>

theorem stailq_equivalent_to_tailq:
  assumes "tailq m h []" and "distinct es" and "NULL \<notin> set es"
  shows "\<exists>t1 s1 t2 s2.
    append_all alloc_elem (\<lambda>m. TAILQ_INSERT_TAIL m h) junk m es = Inr t1 \<and>
    append_all alloc_link (\<lambda>m. STAILQ_INSERT_TAIL m h) junk m es = Inr s1 \<and>
    bindE (STAILQ_FOREACH s1 h (reading body) s) (\<lambda>r. Inr (snd r)) = TAILQ_FOREACH t1 h body s \<and>
    drain_loop (\<lambda>m. TAILQ_EMPTY m h) (\<lambda>m. TAILQ_FIRST m h) (\<lambda>m. TAILQ_REMOVE m h) free_elem t1 [] =
      Some (Inr (t2, es)) \<and>
    drain_loop (\<lambda>m. STAILQ_EMPTY m h) (\<lambda>m. STAILQ_FIRST m h) (\<lambda>m. STAILQ_REMOVE m h) free_link s1 [] =
      Some (Inr (s2, es)) \<and>
    tailq t2 h [] \<and> stailq s2 h []"
proof -
  obtain t1 t2 where t: "append_all alloc_elem (\<lambda>m. TAILQ_INSERT_TAIL m h) junk m es = Inr t1"
    "TAILQ_FOREACH t1 h body s = fold_res body es s"
    "drain_loop (\<lambda>m. TAILQ_EMPTY m h) (\<lambda>m. TAILQ_FIRST m h) (\<lambda>m. TAILQ_REMOVE m h) free_elem t1 [] =
      Some (Inr (t2, es))" "tailq t2 h []"
    using tailq.append_then_drain [OF assms, of junk body s] by blast
  obtain s1 s2 where s: "append_all alloc_link (\<lambda>m. STAILQ_INSERT_TAIL m h) junk m es = Inr s1"
    "bindE (STAILQ_FOREACH s1 h (reading body) s) (\<lambda>r. Inr (snd r)) = fold_res body es s"
    "drain_loop (\<lambda>m. STAILQ_EMPTY m h) (\<lambda>m. STAILQ_FIRST m h) (\<lambda>m. STAILQ_REMOVE m h) free_link s1 [] =
      Some (Inr (s2, es))" "stailq s2 h []"
    using stailq_list.append_then_drain [OF tailq_stailq [OF assms(1)] assms(2,3), of junk body s]
    by blast
  from t s show ?thesis by simp
qed

text \<open>An empty tail queue at head 8.\<close>

definition empty_queue :: tailq_store where
  "empty_queue = \<lparr>cell = [FirstOf 8 \<mapsto> NULL], tqe_prev = Map.empty, tqh_last = [8 \<mapsto> FirstOf 8]\<rparr>"

theorem stailq_equivalent_to_tailq_witness:
  "\<exists>s1 s2. append_all alloc_link (\<lambda>m. STAILQ_INSERT_TAIL m 8) (77, FirstOf 77) empty_queue [16, 24] =
      Inr s1 \<and>
    drain_loop (\<lambda>m. STAILQ_EMPTY m 8) (\<lambda>m. STAILQ_FIRST m 8) (\<lambda>m. STAILQ_REMOVE m 8) free_link s1 [] =
      Some (Inr (s2, [16, 24])) \<and> stailq s2 8 []"
proof -
  have "tailq empty_queue 8 []" by (simp add: tailq_def empty_queue_def)
  from stailq_equivalent_to_tailq [OF this, of "[16, 24]" "(77, FirstOf 77)" "\<lambda>x s. Inr s" "()"]
  show ?thesis by auto
qed

end
