(* ===== verification/Doubly_Linked.thy ===== *)
theory Doubly_Linked
  imports Singly_Linked
begin

text \<open>
  The \<open>LIST\<close> family of \<open>server/queue.h\<close>: a head of one pointer, and elements with \<open>le_next\<close> and
  \<open>le_prev\<close>, which are the cells and the field \<open>tqe_prev\<close> of the store of the tail queue. Then
  what the four families share: safe traversals that remove elements, concatenation, exchange.
\<close>

section \<open>The macros of \<open>LIST\<close>\<close>

definition LIST_FIRST :: "tailq_store \<Rightarrow> ptr \<Rightarrow> ptr res" where
  "LIST_FIRST m head = load (cell m (FirstOf head))"

definition LIST_NEXT :: "tailq_store \<Rightarrow> ptr \<Rightarrow> ptr res" where
  "LIST_NEXT m elm = load (cell m (NextOf elm))"

definition LIST_EMPTY :: "tailq_store \<Rightarrow> ptr \<Rightarrow> bool res" where
  "LIST_EMPTY m head = bindE (LIST_FIRST m head) (\<lambda>p. Inr (p = NULL))"

definition LIST_HEAD_INITIALIZER :: "tailq_store \<Rightarrow> ptr \<Rightarrow> tailq_store" where
  "LIST_HEAD_INITIALIZER m head = m\<lparr>cell := (cell m)(FirstOf head \<mapsto> NULL)\<rparr>"

definition LIST_INIT :: "tailq_store \<Rightarrow> ptr \<Rightarrow> tailq_store res" where
  "LIST_INIT m head = wr_cell m (FirstOf head) NULL"

definition LIST_INSERT_HEAD :: "tailq_store \<Rightarrow> ptr \<Rightarrow> ptr \<Rightarrow> tailq_store res" where
  "LIST_INSERT_HEAD m head elm =
     bindE (LIST_FIRST m head) (\<lambda>f.
     bindE (wr_cell m (NextOf elm) f) (\<lambda>m.
     bindE (if f \<noteq> NULL then bindE (LIST_FIRST m head) (\<lambda>f. wr_prev m f (NextOf elm))
            else Inr m) (\<lambda>m.
     bindE (wr_cell m (FirstOf head) elm) (\<lambda>m.
     wr_prev m elm (FirstOf head)))))"

definition LIST_INSERT_AFTER :: "tailq_store \<Rightarrow> ptr \<Rightarrow> ptr \<Rightarrow> tailq_store res" where
  "LIST_INSERT_AFTER m listelm elm =
     bindE (LIST_NEXT m listelm) (\<lambda>n.
     bindE (wr_cell m (NextOf elm) n) (\<lambda>m.
     bindE (if n \<noteq> NULL then bindE (LIST_NEXT m listelm) (\<lambda>n. wr_prev m n (NextOf elm))
            else Inr m) (\<lambda>m.
     bindE (wr_cell m (NextOf listelm) elm) (\<lambda>m.
     wr_prev m elm (NextOf listelm)))))"

definition LIST_INSERT_BEFORE :: "tailq_store \<Rightarrow> ptr \<Rightarrow> ptr \<Rightarrow> tailq_store res" where
  "LIST_INSERT_BEFORE m listelm elm =
     bindE (load (tqe_prev m listelm)) (\<lambda>l.
     bindE (wr_prev m elm l) (\<lambda>m.
     bindE (wr_cell m (NextOf elm) listelm) (\<lambda>m.
     bindE (load (tqe_prev m listelm)) (\<lambda>l.
     bindE (wr_cell m l elm) (\<lambda>m.
     wr_prev m listelm (NextOf elm))))))"

definition LIST_REMOVE :: "tailq_store \<Rightarrow> ptr \<Rightarrow> tailq_store res" where
  "LIST_REMOVE m elm =
     bindE (LIST_NEXT m elm) (\<lambda>n.
     bindE (if n \<noteq> NULL then bindE (load (tqe_prev m elm)) (\<lambda>l. wr_prev m n l) else Inr m) (\<lambda>m.
     bindE (load (tqe_prev m elm)) (\<lambda>l.
     bindE (LIST_NEXT m elm) (\<lambda>n.
     wr_cell m l n))))"

text \<open>
  \<open>LIST_PREV\<close> computes the element from the address of its link; when that is another head's,
  the result points into the head's object, which the model calls a bad pointer.
\<close>

definition LIST_PREV :: "tailq_store \<Rightarrow> ptr \<Rightarrow> ptr \<Rightarrow> ptr res" where
  "LIST_PREV m elm head =
     bindE (load (tqe_prev m elm)) (\<lambda>l.
     if l = FirstOf head then Inr NULL
     else (case l of NextOf e \<Rightarrow> Inr e | FirstOf h \<Rightarrow> Inl BadPointer))"

definition LIST_CONCAT :: "tailq_store \<Rightarrow> ptr \<Rightarrow> ptr \<Rightarrow> tailq_store res" where
  "LIST_CONCAT m head1 head2 =
     bindE (LIST_FIRST m head1) (\<lambda>curelm.
     if curelm = NULL then
       bindE (LIST_FIRST m head2) (\<lambda>f.
       bindE (wr_cell m (FirstOf head1) f) (\<lambda>m.
       if f \<noteq> NULL then
         bindE (LIST_FIRST m head2) (\<lambda>f.
         bindE (wr_prev m f (FirstOf head1)) (\<lambda>m.
         LIST_INIT m head2))
       else Inr m))
     else
       bindE (LIST_FIRST m head2) (\<lambda>f.
       if f \<noteq> NULL then
         bindE (returned (seek_loop (LIST_NEXT m) NULL curelm)) (\<lambda>curelm.
         bindE (LIST_FIRST m head2) (\<lambda>f.
         bindE (wr_cell m (NextOf curelm) f) (\<lambda>m.
         bindE (LIST_FIRST m head2) (\<lambda>f.
         bindE (wr_prev m f (NextOf curelm)) (\<lambda>m.
         LIST_INIT m head2)))))
       else Inr m))"

definition LIST_SWAP :: "tailq_store \<Rightarrow> ptr \<Rightarrow> ptr \<Rightarrow> tailq_store res" where
  "LIST_SWAP m head1 head2 =
     bindE (LIST_FIRST m head1) (\<lambda>swap_tmp.
     bindE (LIST_FIRST m head2) (\<lambda>f.
     bindE (wr_cell m (FirstOf head1) f) (\<lambda>m.
     bindE (wr_cell m (FirstOf head2) swap_tmp) (\<lambda>m.
     bindE (LIST_FIRST m head1) (\<lambda>swap_tmp.
     bindE (if swap_tmp \<noteq> NULL then wr_prev m swap_tmp (FirstOf head1) else Inr m) (\<lambda>m.
     bindE (LIST_FIRST m head2) (\<lambda>swap_tmp.
     if swap_tmp \<noteq> NULL then wr_prev m swap_tmp (FirstOf head2) else Inr m)))))))"

definition LIST_FOREACH ::
  "tailq_store \<Rightarrow> ptr \<Rightarrow> (ptr \<Rightarrow> tailq_store \<times> 's \<Rightarrow> (tailq_store \<times> 's) res) \<Rightarrow> 's \<Rightarrow>
   (tailq_store \<times> 's) res" where
  "LIST_FOREACH m head body s =
     bindE (LIST_FIRST m head) (\<lambda>var. returned (for_loop LIST_NEXT body var (m, s)))"

definition LIST_FOREACH_FROM ::
  "tailq_store \<Rightarrow> ptr \<Rightarrow> ptr \<Rightarrow> (ptr \<Rightarrow> tailq_store \<times> 's \<Rightarrow> (tailq_store \<times> 's) res) \<Rightarrow> 's \<Rightarrow>
   (tailq_store \<times> 's) res" where
  "LIST_FOREACH_FROM m var head body s =
     bindE (start_from var (LIST_FIRST m head)) (\<lambda>var.
     returned (for_loop LIST_NEXT body var (m, s)))"

definition LIST_FOREACH_SAFE ::
  "tailq_store \<Rightarrow> ptr \<Rightarrow> (ptr \<Rightarrow> tailq_store \<times> 's \<Rightarrow> (tailq_store \<times> 's) res) \<Rightarrow> 's \<Rightarrow>
   (tailq_store \<times> 's) res" where
  "LIST_FOREACH_SAFE m head body s =
     bindE (LIST_FIRST m head) (\<lambda>var. returned (for_safe_loop LIST_NEXT body var (m, s)))"

definition LIST_FOREACH_FROM_SAFE ::
  "tailq_store \<Rightarrow> ptr \<Rightarrow> ptr \<Rightarrow> (ptr \<Rightarrow> tailq_store \<times> 's \<Rightarrow> (tailq_store \<times> 's) res) \<Rightarrow> 's \<Rightarrow>
   (tailq_store \<times> 's) res" where
  "LIST_FOREACH_FROM_SAFE m var head body s =
     bindE (start_from var (LIST_FIRST m head)) (\<lambda>var.
     returned (for_safe_loop LIST_NEXT body var (m, s)))"

section \<open>Abstraction to lists\<close>

definition listq :: "tailq_store \<Rightarrow> ptr \<Rightarrow> ptr list \<Rightarrow> bool" where
  "listq m h xs \<longleftrightarrow> distinct xs \<and> seg (cell m) (tqe_prev m) (FirstOf h) xs \<and>
     cell m (endl (FirstOf h) xs) = Some NULL"

lemma listq_slist: "listq m h xs \<Longrightarrow> slist m h xs"
  by (auto simp: listq_def slist_def dest: seg_path)

text \<open>A tail queue is a list whose head knows its end.\<close>

lemma tailq_listq:
  "tailq m h xs \<longleftrightarrow> listq m h xs \<and> tqh_last m h = Some (endl (FirstOf h) xs)"
  by (auto simp: tailq_def listq_def)

lemma list_as_slist:
  "LIST_FIRST = SLIST_FIRST" "LIST_NEXT = SLIST_NEXT" "LIST_EMPTY = SLIST_EMPTY"
  "LIST_INIT = SLIST_INIT"
  by (simp_all add: fun_eq_iff LIST_FIRST_def SLIST_FIRST_def LIST_NEXT_def SLIST_NEXT_def
      LIST_EMPTY_def SLIST_EMPTY_def LIST_INIT_def SLIST_INIT_def)

lemmas list_defs = list_as_slist LIST_INSERT_HEAD_def LIST_INSERT_AFTER_def
  LIST_INSERT_BEFORE_def LIST_REMOVE_def LIST_PREV_def LIST_SWAP_def wr_prev_def slist_defs
  listq_def

interpretation listq: traversal "\<lambda>m. listq m h" "\<lambda>m. LIST_FIRST m h" LIST_NEXT for h
proof unfold_locales
  fix m xs assume q: "listq m h xs"
  show "LIST_FIRST m h = Inr (hd0 xs)"
    using slist_FIRST [OF listq_slist [OF q]] by (simp add: list_as_slist)
  show "NULL \<notin> set xs \<and> distinct xs"
    using slist.null_law [OF listq_slist [OF q]] .
next
  fix m xs x ys assume "listq m h (xs @ x # ys)"
  from slist_NEXT [OF listq_slist [OF this]] show "LIST_NEXT m x = Inr (hd0 ys)"
    by (simp add: list_as_slist)
qed

lemma listq_insert_head:
  assumes "listq m h xs" and "is_elem m e" and "e \<notin> set xs"
  shows "\<exists>m'. LIST_INSERT_HEAD m h e = Inr m' \<and> listq m' h (e # xs)"
  using assms by (cases xs) (auto simp: list_defs is_elem_def endl_not_next)

lemma listq_insert_after:
  assumes "listq m h (xs @ x # ys)" and "is_elem m e" and "e \<notin> set (xs @ x # ys)"
  shows "\<exists>m'. LIST_INSERT_AFTER m x e = Inr m' \<and> listq m' h (xs @ x # e # ys)"
  using assms by (cases ys) (auto simp: list_defs is_elem_def endl_not_next)

text \<open>The end of the list after an element, against the cell before it.\<close>

lemma endl_middle:
  assumes "distinct (xs @ x # ys)"
  shows "endl (NextOf x) ys \<noteq> endl (FirstOf h) xs" "endl (FirstOf h) xs \<notin> NextOf ` set ys"
    "endl (FirstOf h) xs \<noteq> NextOf x"
  using assms endl_in [of "FirstOf h" xs] endl_in [of "NextOf x" ys] by auto

lemma listq_insert_before:
  assumes q: "listq m h (xs @ x # ys)" and "is_elem m e" and "e \<notin> set (xs @ x # ys)"
  shows "\<exists>m'. LIST_INSERT_BEFORE m x e = Inr m' \<and> listq m' h (xs @ e # x # ys)"
  using assms endl_middle [of xs x ys h]
  by (auto simp: list_defs is_elem_def endl_not_next endl_not_next [symmetric])

lemma listq_remove:
  assumes q: "listq m h (xs @ x # ys)"
  shows "\<exists>m'. LIST_REMOVE m x = Inr m' \<and> listq m' h (xs @ ys) \<and> is_elem m' x"
proof (cases ys)
  case Nil
  with q endl_middle [of xs x ys h] show ?thesis by (auto simp: list_defs is_elem_def)
next
  case (Cons y zs)
  with q endl_middle [of xs x ys h] endl_middle [of "xs" y zs h] show ?thesis
    by (auto simp: list_defs is_elem_def endl_not_next)
qed

lemma listq_PREV:
  assumes "listq m h (xs @ x # ys)"
  shows "LIST_PREV m x h = Inr (if xs = [] then NULL else last xs)"
  using assms by (cases xs rule: rev_cases) (auto simp: list_defs)

lemma listq_swap:
  assumes "listq m h1 xs" "listq m h2 ys" and "h1 \<noteq> h2" "set xs \<inter> set ys = {}"
  shows "\<exists>m'. LIST_SWAP m h1 h2 = Inr m' \<and> listq m' h1 ys \<and> listq m' h2 xs"
  using assms by (cases xs; cases ys) (auto simp: list_defs endl_not_next)

lemma listq_concat:
  assumes q: "listq m h1 xs" "listq m h2 ys" and d: "h1 \<noteq> h2" "set xs \<inter> set ys = {}"
  shows "\<exists>m'. LIST_CONCAT m h1 h2 = Inr m' \<and> listq m' h1 (xs @ ys) \<and> listq m' h2 []"
proof -
  have first: "SLIST_FIRST m h1 = Inr (hd0 xs)" "SLIST_FIRST m h2 = Inr (hd0 ys)"
    using q listq_slist slist_FIRST by blast+
  show ?thesis
  proof (cases "xs = []")
    case True
    with q d listq.null_law [OF q(2)] show ?thesis
      by (cases ys) (auto simp: LIST_CONCAT_def list_defs endl_not_next)
  next
    case False
    then obtain x zs where xs: "xs = x # zs" by (cases xs) auto
    obtain us p where us: "xs = us @ [p]" using xs by (metis append_butlast_last_id list.distinct(1))
    have p: "last (x # zs) = p" using us xs by (metis last_snoc)
    have x: "x \<noteq> NULL" using listq.null_law [OF q(1)] xs by auto
    have seek: "returned (seek_loop (SLIST_NEXT m) NULL x) = Inr p"
      using slist_last [of m h1 x zs] listq_slist [OF q(1)] xs p by simp
    have eval: "LIST_CONCAT m h1 h2 = (if hd0 ys \<noteq> NULL
        then bindE (wr_cell m (NextOf p) (hd0 ys)) (\<lambda>m. bindE (LIST_FIRST m h2) (\<lambda>f.
          bindE (wr_prev m f (NextOf p)) (\<lambda>m. LIST_INIT m h2))) else Inr m)"
      using first xs x seek by (simp add: LIST_CONCAT_def list_as_slist)
    show ?thesis
      using q d us listq.null_law [OF q(2)]
      by (cases ys) (auto simp: eval list_defs endl_not_next)
  qed
qed

lemma listq_init: "cell m (FirstOf h) \<noteq> None \<Longrightarrow> \<exists>m'. LIST_INIT m h = Inr m' \<and> listq m' h []"
  by (auto simp: list_defs)

lemma listq_head_initializer: "listq (LIST_HEAD_INITIALIZER m h) h []"
  by (simp add: LIST_HEAD_INITIALIZER_def listq_def)

lemma listq_EMPTY: "listq m h xs \<Longrightarrow> LIST_EMPTY m h = Inr (xs = [])"
  by (simp add: list_as_slist slist_EMPTY listq_slist)

section \<open>Removal during a safe traversal\<close>

lemma listq_free:
  assumes "listq m h xs" and "is_elem m e" and "e \<notin> set xs"
  shows "\<exists>m'. free_elem m e = Inr m' \<and> listq m' h xs"
  using assms endl_not_next(1) [of e xs h] by (simp add: listq_def free_elem_def is_elem_def)

lemma slist_free:
  "slist m h xs \<Longrightarrow> is_link m e \<Longrightarrow> e \<notin> set xs \<Longrightarrow> \<exists>m'. free_link m e = Inr m' \<and> slist m' h xs"
  by (simp add: free_link_def is_link_def slist_link_frame)

lemma remove_free:
  shows slist_remove_free: "slist m h (ps @ x # ys) \<Longrightarrow>
      \<exists>m1 m2. SLIST_REMOVE m h x = Inr m1 \<and> free_link m1 x = Inr m2 \<and> slist m2 h (ps @ ys)"
    and stailq_remove_free: "stailq m h (ps @ x # ys) \<Longrightarrow>
      \<exists>m1 m2. STAILQ_REMOVE m h x = Inr m1 \<and> free_link m1 x = Inr m2 \<and> stailq m2 h (ps @ ys)"
    and listq_remove_free: "listq m h (ps @ x # ys) \<Longrightarrow>
      \<exists>m1 m2. LIST_REMOVE m x = Inr m1 \<and> free_elem m1 x = Inr m2 \<and> listq m2 h (ps @ ys)"
proof -
  assume q: "slist m h (ps @ x # ys)"
  have "x \<notin> set (ps @ ys)" using slist.null_law [OF q] by simp
  with slist_remove [OF q] slist_free
  show "\<exists>m1 m2. SLIST_REMOVE m h x = Inr m1 \<and> free_link m1 x = Inr m2 \<and> slist m2 h (ps @ ys)"
    by blast
next
  assume q: "stailq m h (ps @ x # ys)"
  have "x \<notin> set (ps @ ys)" using stailq.null_law [OF q] by simp
  with stailq_remove [OF q] stailq_free
  show "\<exists>m1 m2. STAILQ_REMOVE m h x = Inr m1 \<and> free_link m1 x = Inr m2 \<and> stailq m2 h (ps @ ys)"
    by blast
next
  assume q: "listq m h (ps @ x # ys)"
  have "x \<notin> set (ps @ ys)" using listq.null_law [OF q] by simp
  with listq_remove [OF q] listq_free
  show "\<exists>m1 m2. LIST_REMOVE m x = Inr m1 \<and> free_elem m1 x = Inr m2 \<and> listq m2 h (ps @ ys)"
    by blast
qed

section \<open>Properties\<close>

text \<open>
  Inserting before or after an element of a \<open>LIST\<close> and removing it again restores the list,
  without the head and without a search; \<open>LIST_PREV\<close> of the element inserted after \<open>x\<close> is \<open>x\<close>.
\<close>

theorem list_insert_remove_roundtrip:
  assumes q: "listq m h (xs @ x # ys)" and e: "is_elem m e" "e \<notin> set (xs @ x # ys)"
  shows "(\<exists>m1 m2. LIST_INSERT_AFTER m x e = Inr m1 \<and> LIST_PREV m1 e h = Inr x \<and>
      LIST_REMOVE m1 e = Inr m2 \<and> listq m2 h (xs @ x # ys)) \<and>
    (\<exists>m1 m2. LIST_INSERT_BEFORE m x e = Inr m1 \<and> LIST_PREV m1 x h = Inr e \<and>
      LIST_REMOVE m1 e = Inr m2 \<and> listq m2 h (xs @ x # ys))"
proof
  obtain m1 where m1: "LIST_INSERT_AFTER m x e = Inr m1" "listq m1 h ((xs @ [x]) @ e # ys)"
    using listq_insert_after [OF q e] by auto
  then show "\<exists>m1 m2. LIST_INSERT_AFTER m x e = Inr m1 \<and> LIST_PREV m1 e h = Inr x \<and>
      LIST_REMOVE m1 e = Inr m2 \<and> listq m2 h (xs @ x # ys)"
    using listq_remove [OF m1(2)] listq_PREV [OF m1(2)] by auto
next
  obtain m1 where m1: "LIST_INSERT_BEFORE m x e = Inr m1" "listq m1 h (xs @ e # x # ys)"
    using listq_insert_before [OF q e] by auto
  moreover have "listq m1 h ((xs @ [e]) @ x # ys)" using m1(2) by simp
  ultimately show "\<exists>m1 m2. LIST_INSERT_BEFORE m x e = Inr m1 \<and> LIST_PREV m1 x h = Inr e \<and>
      LIST_REMOVE m1 e = Inr m2 \<and> listq m2 h (xs @ x # ys)"
    using listq_remove [OF m1(2)] listq_PREV [of m1 h "xs @ [e]" x ys] by auto
qed

lemma two_queues_listq: "listq two_queues 8 [16, 24]" "listq two_queues 9 [40]"
  using two_queues by (simp_all add: tailq_listq)

theorem list_insert_remove_roundtrip_witness:
  "\<exists>m1 m2. LIST_INSERT_AFTER two_queues 16 32 = Inr m1 \<and> LIST_PREV m1 32 8 = Inr 16 \<and>
    LIST_REMOVE m1 32 = Inr m2 \<and> listq m2 8 [16, 24]"
  using list_insert_remove_roundtrip [of two_queues 8 "[]" 16 "[24]" 32] two_queues_listq two_queues(3)
  by simp

text \<open>
  In each of the families the safe traversal with a body that removes and frees elements ends
  without a fault and leaves exactly the elements that the body keeps, in order.
\<close>

theorem families_safe_traversal:
  "(slist m h xs \<longrightarrow> (\<exists>m'. SLIST_FOREACH_SAFE m h
      (drop_unless (\<lambda>m. SLIST_REMOVE m h) free_link keep) () = Inr (m', ()) \<and> slist m' h [x\<leftarrow>xs. keep x])) \<and>
   (stailq m h xs \<longrightarrow> (\<exists>m'. STAILQ_FOREACH_SAFE m h
      (drop_unless (\<lambda>m. STAILQ_REMOVE m h) free_link keep) () = Inr (m', ()) \<and> stailq m' h [x\<leftarrow>xs. keep x])) \<and>
   (listq m h xs \<longrightarrow> (\<exists>m'. LIST_FOREACH_SAFE m h
      (drop_unless LIST_REMOVE free_elem keep) () = Inr (m', ()) \<and> listq m' h [x\<leftarrow>xs. keep x]))"
proof (intro conjI impI)
  assume q: "slist m h xs"
  from slist.safe_loop_drop [of h "\<lambda>m. SLIST_REMOVE m h" free_link m "[]" xs keep] slist_remove_free
    slist.start_law [OF q] q
  show "\<exists>m'. SLIST_FOREACH_SAFE m h (drop_unless (\<lambda>m. SLIST_REMOVE m h) free_link keep) () =
      Inr (m', ()) \<and> slist m' h [x\<leftarrow>xs. keep x]"
    by (auto simp: SLIST_FOREACH_SAFE_def)
next
  assume q: "stailq m h xs"
  from stailq.safe_loop_drop [of h "\<lambda>m. STAILQ_REMOVE m h" free_link m "[]" xs keep]
    stailq_remove_free stailq.start_law [OF q] q
  show "\<exists>m'. STAILQ_FOREACH_SAFE m h (drop_unless (\<lambda>m. STAILQ_REMOVE m h) free_link keep) () =
      Inr (m', ()) \<and> stailq m' h [x\<leftarrow>xs. keep x]"
    by (auto simp: STAILQ_FOREACH_SAFE_def)
next
  assume q: "listq m h xs"
  from listq.safe_loop_drop [of h LIST_REMOVE free_elem m "[]" xs keep] listq_remove_free
    listq.start_law [OF q] q
  show "\<exists>m'. LIST_FOREACH_SAFE m h (drop_unless LIST_REMOVE free_elem keep) () =
      Inr (m', ()) \<and> listq m' h [x\<leftarrow>xs. keep x]"
    by (auto simp: LIST_FOREACH_SAFE_def)
qed

theorem families_safe_traversal_witness:
  "\<exists>m'. STAILQ_FOREACH_SAFE two_queues 8
     (drop_unless (\<lambda>m. STAILQ_REMOVE m 8) free_link (\<lambda>x. x = 24)) () = Inr (m', ()) \<and> stailq m' 8 [24]"
  using families_safe_traversal [of two_queues 8 "[16, 24]" "\<lambda>x. x = 24"] two_lists(3) by simp

text \<open>
  C34: In each of the four families \<open>CONCAT\<close> moves the elements of the second list behind those of
  the first and leaves the second empty, and \<open>SWAP\<close> exchanges the two lists, whichever of the
  lists are empty.
\<close>

theorem families_concat_swap:
  assumes d: "h1 \<noteq> h2" "set xs \<inter> set ys = {}"
  shows "(slist m h1 xs \<and> slist m h2 ys \<longrightarrow>
      (\<exists>m'. SLIST_CONCAT m h1 h2 = Inr m' \<and> slist m' h1 (xs @ ys) \<and> slist m' h2 []) \<and>
      (\<exists>m'. SLIST_SWAP m h1 h2 = Inr m' \<and> slist m' h1 ys \<and> slist m' h2 xs)) \<and>
    (stailq m h1 xs \<and> stailq m h2 ys \<longrightarrow>
      (\<exists>m'. STAILQ_CONCAT m h1 h2 = Inr m' \<and> stailq m' h1 (xs @ ys) \<and> stailq m' h2 []) \<and>
      (\<exists>m'. STAILQ_SWAP m h1 h2 = Inr m' \<and> stailq m' h1 ys \<and> stailq m' h2 xs)) \<and>
    (listq m h1 xs \<and> listq m h2 ys \<longrightarrow>
      (\<exists>m'. LIST_CONCAT m h1 h2 = Inr m' \<and> listq m' h1 (xs @ ys) \<and> listq m' h2 []) \<and>
      (\<exists>m'. LIST_SWAP m h1 h2 = Inr m' \<and> listq m' h1 ys \<and> listq m' h2 xs)) \<and>
    (tailq m h1 xs \<and> tailq m h2 ys \<longrightarrow>
      (\<exists>m'. TAILQ_CONCAT m h1 h2 = Inr m' \<and> tailq m' h1 (xs @ ys) \<and> tailq m' h2 []) \<and>
      (\<exists>m'. TAILQ_SWAP m h1 h2 = Inr m' \<and> tailq m' h1 ys \<and> tailq m' h2 xs))"
  by (intro conjI impI; elim conjE; rule slist_concat slist_swap stailq_concat stailq_swap
      listq_concat listq_swap tailq_concat tailq_swap; (assumption | rule d))

theorem families_concat_swap_witness:
  "\<exists>m'. STAILQ_CONCAT two_queues 8 9 = Inr m' \<and> stailq m' 8 [16, 24, 40] \<and> stailq m' 9 []"
  using families_concat_swap [of 8 9 "[16, 24]" "[40]" two_queues] two_lists by simp

end
