(* ===== verification/Queue_Checks.thy ===== *)
theory Queue_Checks
  imports Doubly_Linked
begin

text \<open>
  What the macros of \<open>server/queue.h\<close> do in addition in a debug build: the checks of the links
  (\<open>_KERNEL\<close> with \<open>INVARIANTS\<close>), and the traces and overwritten links of \<open>QUEUE_MACRO_DEBUG\<close>. The
  checks never stop a list that is well formed, and those of a whole list pass only then.
\<close>

section \<open>The checks\<close>

text \<open>The result is \<open>()\<close> or a fault: \<open>Panic\<close>, or that of a link that cannot be followed.\<close>

definition QMD_LIST_CHECK_HEAD :: "tailq_store \<Rightarrow> ptr \<Rightarrow> unit res" where
  "QMD_LIST_CHECK_HEAD m head =
     bindE (LIST_FIRST m head) (\<lambda>f.
     if f \<noteq> NULL then
       bindE (LIST_FIRST m head) (\<lambda>f.
       bindE (load (tqe_prev m f)) (\<lambda>l. guardE Panic (l = FirstOf head)))
     else Inr ())"

definition QMD_LIST_CHECK_NEXT :: "tailq_store \<Rightarrow> ptr \<Rightarrow> unit res" where
  "QMD_LIST_CHECK_NEXT m elm =
     bindE (LIST_NEXT m elm) (\<lambda>n.
     if n \<noteq> NULL then
       bindE (LIST_NEXT m elm) (\<lambda>n.
       bindE (load (tqe_prev m n)) (\<lambda>l. guardE Panic (l = NextOf elm)))
     else Inr ())"

definition QMD_LIST_CHECK_PREV :: "tailq_store \<Rightarrow> ptr \<Rightarrow> unit res" where
  "QMD_LIST_CHECK_PREV m elm =
     bindE (load (tqe_prev m elm)) (\<lambda>l.
     bindE (load (cell m l)) (\<lambda>p. guardE Panic (p = elm)))"

definition QMD_TAILQ_CHECK_HEAD :: "tailq_store \<Rightarrow> ptr \<Rightarrow> unit res" where
  "QMD_TAILQ_CHECK_HEAD m head =
     bindE (TAILQ_EMPTY m head) (\<lambda>empty.
     if \<not> empty then
       bindE (TAILQ_FIRST m head) (\<lambda>f.
       bindE (load (tqe_prev m f)) (\<lambda>l. guardE Panic (l = FirstOf head)))
     else Inr ())"

definition QMD_TAILQ_CHECK_TAIL :: "tailq_store \<Rightarrow> ptr \<Rightarrow> unit res" where
  "QMD_TAILQ_CHECK_TAIL m head =
     bindE (load (tqh_last m head)) (\<lambda>l.
     bindE (load (cell m l)) (\<lambda>p. guardE Panic (p = NULL)))"

definition QMD_TAILQ_CHECK_NEXT :: "tailq_store \<Rightarrow> ptr \<Rightarrow> unit res" where
  "QMD_TAILQ_CHECK_NEXT m elm =
     bindE (TAILQ_NEXT m elm) (\<lambda>n.
     if n \<noteq> NULL then
       bindE (TAILQ_NEXT m elm) (\<lambda>n.
       bindE (load (tqe_prev m n)) (\<lambda>l. guardE Panic (l = NextOf elm)))
     else Inr ())"

definition QMD_TAILQ_CHECK_PREV :: "tailq_store \<Rightarrow> ptr \<Rightarrow> unit res" where
  "QMD_TAILQ_CHECK_PREV m elm =
     bindE (load (tqe_prev m elm)) (\<lambda>l.
     bindE (load (cell m l)) (\<lambda>p. guardE Panic (p = elm)))"

section \<open>Overwritten links\<close>

text \<open>
  \<open>TRASHIT\<close> writes the address \<open>-1\<close> to a link, through a pointer that \<open>QMD_SAVELINK\<close> has taken.
  As a \<open>struct type *\<close> it is a pointer, as a \<open>struct type **\<close> the address of a cell; no object is
  there.
\<close>

definition trash :: ptr where
  "trash = - 1"

definition TRASHIT_next :: "tailq_store \<Rightarrow> ptr \<Rightarrow> tailq_store res" where
  "TRASHIT_next m elm = wr_cell m (NextOf elm) trash"

definition TRASHIT_prev :: "tailq_store \<Rightarrow> ptr \<Rightarrow> tailq_store res" where
  "TRASHIT_prev m elm = wr_prev m elm (NextOf trash)"

section \<open>\<open>SLIST\<close>, \<open>STAILQ\<close> and \<open>LIST\<close> in a debug build\<close>

definition SLIST_REMOVE_debug :: "tailq_store \<Rightarrow> ptr \<Rightarrow> ptr \<Rightarrow> tailq_store res" where
  "SLIST_REMOVE_debug m head elm =
     bindE (SLIST_REMOVE m head elm) (\<lambda>m. TRASHIT_next m elm)"

definition STAILQ_REMOVE_debug :: "tailq_store \<Rightarrow> ptr \<Rightarrow> ptr \<Rightarrow> tailq_store res" where
  "STAILQ_REMOVE_debug m head elm =
     bindE (STAILQ_REMOVE m head elm) (\<lambda>m. TRASHIT_next m elm)"

definition LIST_INSERT_HEAD_debug :: "tailq_store \<Rightarrow> ptr \<Rightarrow> ptr \<Rightarrow> tailq_store res" where
  "LIST_INSERT_HEAD_debug m head elm =
     bindE (QMD_LIST_CHECK_HEAD m head) (\<lambda>_. LIST_INSERT_HEAD m head elm)"

definition LIST_INSERT_AFTER_debug :: "tailq_store \<Rightarrow> ptr \<Rightarrow> ptr \<Rightarrow> tailq_store res" where
  "LIST_INSERT_AFTER_debug m listelm elm =
     bindE (QMD_LIST_CHECK_NEXT m listelm) (\<lambda>_. LIST_INSERT_AFTER m listelm elm)"

definition LIST_INSERT_BEFORE_debug :: "tailq_store \<Rightarrow> ptr \<Rightarrow> ptr \<Rightarrow> tailq_store res" where
  "LIST_INSERT_BEFORE_debug m listelm elm =
     bindE (QMD_LIST_CHECK_PREV m listelm) (\<lambda>_. LIST_INSERT_BEFORE m listelm elm)"

definition LIST_REMOVE_debug :: "tailq_store \<Rightarrow> ptr \<Rightarrow> tailq_store res" where
  "LIST_REMOVE_debug m elm =
     bindE (QMD_LIST_CHECK_NEXT m elm) (\<lambda>_.
     bindE (QMD_LIST_CHECK_PREV m elm) (\<lambda>_.
     bindE (LIST_REMOVE m elm) (\<lambda>m.
     bindE (TRASHIT_next m elm) (\<lambda>m. TRASHIT_prev m elm))))"

section \<open>Traces\<close>

text \<open>The places, of which \<open>__LINE__\<close> and \<open>__FILE__\<close> are the current one.\<close>

type_synonym place = "c_long \<times> string"

record qm_trace =
  lastline :: c_long
  prevline :: c_long
  lastfile :: "string option"
  prevfile :: "string option"

definition TRACEBUF_INITIALIZER :: "place \<Rightarrow> qm_trace" where
  "TRACEBUF_INITIALIZER here = \<lparr>lastline = fst here, prevline = 0, lastfile = Some (snd here), prevfile = None\<rparr>"

definition QMD_TRACE :: "place \<Rightarrow> qm_trace \<Rightarrow> qm_trace" where
  "QMD_TRACE here t = t\<lparr>prevline := lastline t, prevfile := lastfile t,
     lastline := fst here, lastfile := Some (snd here)\<rparr>"

text \<open>The heads and elements of a tail queue have a trace each (\<open>TRACEBUF\<close>).\<close>

record debug_store =
  links :: tailq_store
  head_trace :: "ptr \<Rightarrow> qm_trace option"
  elem_trace :: "ptr \<Rightarrow> qm_trace option"

definition QMD_TRACE_HEAD :: "place \<Rightarrow> debug_store \<Rightarrow> ptr \<Rightarrow> debug_store res" where
  "QMD_TRACE_HEAD here d head = bindE (load (head_trace d head)) (\<lambda>t.
     Inr (d\<lparr>head_trace := (head_trace d)(head \<mapsto> QMD_TRACE here t)\<rparr>))"

definition QMD_TRACE_ELEM :: "place \<Rightarrow> debug_store \<Rightarrow> ptr \<Rightarrow> debug_store res" where
  "QMD_TRACE_ELEM here d elem = bindE (load (elem_trace d elem)) (\<lambda>t.
     Inr (d\<lparr>elem_trace := (elem_trace d)(elem \<mapsto> QMD_TRACE here t)\<rparr>))"

text \<open>A trace holds the last two places.\<close>

lemma trace_last_two:
  "fold QMD_TRACE (ps @ [p, q]) t = \<lparr>lastline = fst q, prevline = fst p,
     lastfile = Some (snd q), prevfile = Some (snd p)\<rparr>"
  "fold QMD_TRACE [q] (TRACEBUF_INITIALIZER p) = \<lparr>lastline = fst q, prevline = fst p,
     lastfile = Some (snd q), prevfile = Some (snd p)\<rparr>"
  by (simp_all add: QMD_TRACE_def TRACEBUF_INITIALIZER_def)

section \<open>\<open>TAILQ\<close> in a debug build\<close>

text \<open>
  The check, the plain macro on the links, the overwritten links, the traces. A trace that the
  source takes in the middle is here after the links, which it does not touch.
\<close>

definition on_links :: "debug_store \<Rightarrow> (tailq_store \<Rightarrow> tailq_store res) \<Rightarrow> debug_store res" where
  "on_links d f = bindE (f (links d)) (\<lambda>m. Inr (d\<lparr>links := m\<rparr>))"

definition TAILQ_HEAD_INITIALIZER_debug :: "place \<Rightarrow> debug_store \<Rightarrow> ptr \<Rightarrow> debug_store" where
  "TAILQ_HEAD_INITIALIZER_debug here d head = d\<lparr>links := TAILQ_HEAD_INITIALIZER (links d) head,
     head_trace := (head_trace d)(head \<mapsto> TRACEBUF_INITIALIZER here)\<rparr>"

definition TAILQ_INIT_debug :: "place \<Rightarrow> debug_store \<Rightarrow> ptr \<Rightarrow> debug_store res" where
  "TAILQ_INIT_debug here d head =
     bindE (on_links d (\<lambda>m. TAILQ_INIT m head)) (\<lambda>d. QMD_TRACE_HEAD here d head)"

definition TAILQ_CONCAT_debug :: "place \<Rightarrow> debug_store \<Rightarrow> ptr \<Rightarrow> ptr \<Rightarrow> debug_store res" where
  "TAILQ_CONCAT_debug here d head1 head2 =
     bindE (TAILQ_EMPTY (links d) head2) (\<lambda>empty.
     if \<not> empty then
       bindE (on_links d (\<lambda>m. TAILQ_CONCAT m head1 head2)) (\<lambda>d.
       bindE (QMD_TRACE_HEAD here d head2) (\<lambda>d.
       bindE (QMD_TRACE_HEAD here d head1) (\<lambda>d.
       QMD_TRACE_HEAD here d head2)))
     else Inr d)"

definition TAILQ_INSERT_AFTER_debug :: "place \<Rightarrow> debug_store \<Rightarrow> ptr \<Rightarrow> ptr \<Rightarrow> ptr \<Rightarrow> debug_store res" where
  "TAILQ_INSERT_AFTER_debug here d head listelm elm =
     bindE (QMD_TAILQ_CHECK_NEXT (links d) listelm) (\<lambda>_.
     bindE (TAILQ_NEXT (links d) listelm) (\<lambda>n.
     bindE (on_links d (\<lambda>m. TAILQ_INSERT_AFTER m head listelm elm)) (\<lambda>d.
     bindE (if n \<noteq> NULL then Inr d else QMD_TRACE_HEAD here d head) (\<lambda>d.
     bindE (QMD_TRACE_ELEM here d elm) (\<lambda>d. QMD_TRACE_ELEM here d listelm)))))"

definition TAILQ_INSERT_BEFORE_debug :: "place \<Rightarrow> debug_store \<Rightarrow> ptr \<Rightarrow> ptr \<Rightarrow> debug_store res" where
  "TAILQ_INSERT_BEFORE_debug here d listelm elm =
     bindE (QMD_TAILQ_CHECK_PREV (links d) listelm) (\<lambda>_.
     bindE (on_links d (\<lambda>m. TAILQ_INSERT_BEFORE m listelm elm)) (\<lambda>d.
     bindE (QMD_TRACE_ELEM here d elm) (\<lambda>d. QMD_TRACE_ELEM here d listelm)))"

definition TAILQ_INSERT_HEAD_debug :: "place \<Rightarrow> debug_store \<Rightarrow> ptr \<Rightarrow> ptr \<Rightarrow> debug_store res" where
  "TAILQ_INSERT_HEAD_debug here d head elm =
     bindE (QMD_TAILQ_CHECK_HEAD (links d) head) (\<lambda>_.
     bindE (on_links d (\<lambda>m. TAILQ_INSERT_HEAD m head elm)) (\<lambda>d.
     bindE (QMD_TRACE_HEAD here d head) (\<lambda>d. QMD_TRACE_ELEM here d elm)))"

definition TAILQ_INSERT_TAIL_debug :: "place \<Rightarrow> debug_store \<Rightarrow> ptr \<Rightarrow> ptr \<Rightarrow> debug_store res" where
  "TAILQ_INSERT_TAIL_debug here d head elm =
     bindE (QMD_TAILQ_CHECK_TAIL (links d) head) (\<lambda>_.
     bindE (on_links d (\<lambda>m. TAILQ_INSERT_TAIL m head elm)) (\<lambda>d.
     bindE (QMD_TRACE_HEAD here d head) (\<lambda>d. QMD_TRACE_ELEM here d elm)))"

definition TAILQ_REMOVE_debug :: "place \<Rightarrow> debug_store \<Rightarrow> ptr \<Rightarrow> ptr \<Rightarrow> debug_store res" where
  "TAILQ_REMOVE_debug here d head elm =
     bindE (QMD_TAILQ_CHECK_NEXT (links d) elm) (\<lambda>_.
     bindE (QMD_TAILQ_CHECK_PREV (links d) elm) (\<lambda>_.
     bindE (TAILQ_NEXT (links d) elm) (\<lambda>n.
     bindE (on_links d (\<lambda>m. TAILQ_REMOVE m head elm)) (\<lambda>d.
     bindE (if n \<noteq> NULL then Inr d else QMD_TRACE_HEAD here d head) (\<lambda>d.
     bindE (on_links d (\<lambda>m. bindE (TRASHIT_next m elm) (\<lambda>m. TRASHIT_prev m elm))) (\<lambda>d.
     QMD_TRACE_ELEM here d elm))))))"

section \<open>Well-formed lists pass\<close>

lemma checks_as_list:
  "QMD_TAILQ_CHECK_HEAD = QMD_LIST_CHECK_HEAD" "QMD_TAILQ_CHECK_NEXT = QMD_LIST_CHECK_NEXT"
  "QMD_TAILQ_CHECK_PREV = QMD_LIST_CHECK_PREV"
proof -
  have test: "bindE (bindE r (\<lambda>p. Inr (p = NULL))) (\<lambda>e. if \<not> e then f else g) =
      bindE r (\<lambda>p. if p \<noteq> NULL then f else g)" for r :: "ptr res" and f g :: "unit res"
    by (cases r) auto
  have first: "TAILQ_FIRST = LIST_FIRST" by (simp add: fun_eq_iff TAILQ_FIRST_def LIST_FIRST_def)
  show "QMD_TAILQ_CHECK_HEAD = QMD_LIST_CHECK_HEAD"
    unfolding QMD_TAILQ_CHECK_HEAD_def QMD_LIST_CHECK_HEAD_def TAILQ_EMPTY_def first test ..
  have "TAILQ_NEXT = LIST_NEXT" by (simp add: fun_eq_iff TAILQ_NEXT_def LIST_NEXT_def)
  then show "QMD_TAILQ_CHECK_NEXT = QMD_LIST_CHECK_NEXT"
    unfolding QMD_TAILQ_CHECK_NEXT_def QMD_LIST_CHECK_NEXT_def by (simp only:)
qed (simp add: fun_eq_iff QMD_TAILQ_CHECK_PREV_def QMD_LIST_CHECK_PREV_def)

lemmas check_defs = QMD_LIST_CHECK_HEAD_def QMD_LIST_CHECK_NEXT_def QMD_LIST_CHECK_PREV_def
  QMD_TAILQ_CHECK_TAIL_def

lemma listq_checks:
  shows "listq m h xs \<Longrightarrow> QMD_LIST_CHECK_HEAD m h = Inr ()"
    and "listq m h (xs @ x # ys) \<Longrightarrow> QMD_LIST_CHECK_NEXT m x = Inr ()"
    and "listq m h (xs @ x # ys) \<Longrightarrow> QMD_LIST_CHECK_PREV m x = Inr ()"
proof -
  show "QMD_LIST_CHECK_HEAD m h = Inr ()" if "listq m h xs"
    using that by (cases xs) (auto simp: check_defs list_defs)
  show "QMD_LIST_CHECK_NEXT m x = Inr ()" if "listq m h (xs @ x # ys)"
    using that by (cases ys) (auto simp: check_defs list_defs)
  show "QMD_LIST_CHECK_PREV m x = Inr ()" if "listq m h (xs @ x # ys)"
    using that by (auto simp: check_defs list_defs)
qed

lemma tailq_checks:
  shows "tailq m h xs \<Longrightarrow> QMD_TAILQ_CHECK_HEAD m h = Inr ()"
    and "tailq m h xs \<Longrightarrow> QMD_TAILQ_CHECK_TAIL m h = Inr ()"
    and "tailq m h (xs @ x # ys) \<Longrightarrow> QMD_TAILQ_CHECK_NEXT m x = Inr ()"
    and "tailq m h (xs @ x # ys) \<Longrightarrow> QMD_TAILQ_CHECK_PREV m x = Inr ()"
  using listq_checks by (auto simp: checks_as_list tailq_listq check_defs listq_def load_def)

lemma traced:
  "head_trace d p \<noteq> None \<Longrightarrow> \<exists>t. QMD_TRACE_HEAD here d p = Inr (d\<lparr>head_trace := (head_trace d)(p \<mapsto> t)\<rparr>)"
  "elem_trace d p \<noteq> None \<Longrightarrow> \<exists>t. QMD_TRACE_ELEM here d p = Inr (d\<lparr>elem_trace := (elem_trace d)(p \<mapsto> t)\<rparr>)"
  by (auto simp: QMD_TRACE_HEAD_def QMD_TRACE_ELEM_def load_def)

lemma both_traced:
  "head_trace d h \<noteq> None \<Longrightarrow> elem_trace d e \<noteq> None \<Longrightarrow>
    \<exists>d'. bindE (QMD_TRACE_HEAD here d h) (\<lambda>d. QMD_TRACE_ELEM here d e) = Inr d' \<and> links d' = links d"
  "elem_trace d e \<noteq> None \<Longrightarrow> elem_trace d x \<noteq> None \<Longrightarrow>
    \<exists>d'. bindE (QMD_TRACE_ELEM here d e) (\<lambda>d. QMD_TRACE_ELEM here d x) = Inr d' \<and> links d' = links d"
  by (auto simp: QMD_TRACE_HEAD_def QMD_TRACE_ELEM_def load_def)

lemma trash_removed:
  assumes "cell m (NextOf e) \<noteq> None" and "tqe_prev m e \<noteq> None"
  shows "bindE (TRASHIT_next m e) (\<lambda>m. TRASHIT_prev m e) =
    Inr (m\<lparr>cell := (cell m)(NextOf e \<mapsto> trash), tqe_prev := (tqe_prev m)(e \<mapsto> NextOf trash)\<rparr>)"
  using assms by (auto simp: TRASHIT_next_def TRASHIT_prev_def wr_cell_def wr_prev_def load_def)

lemma listq_trash:
  assumes "listq m h xs" and "e \<notin> set xs"
  shows "listq (m\<lparr>cell := (cell m)(NextOf e \<mapsto> v), tqe_prev := (tqe_prev m)(e \<mapsto> l)\<rparr>) h xs"
  using assms endl_not_next(1) [of e xs h] by (simp add: listq_def)

lemma tailq_trash:
  assumes "tailq m h xs" and "e \<notin> set xs"
  shows "tailq (m\<lparr>cell := (cell m)(NextOf e \<mapsto> v), tqe_prev := (tqe_prev m)(e \<mapsto> l)\<rparr>) h xs"
  using assms listq_trash [of m h xs e] by (simp add: tailq_listq)

lemma tailq_remove_debug:
  assumes q: "tailq (links d) h (xs @ x # ys)" and t: "head_trace d h \<noteq> None" "elem_trace d x \<noteq> None"
  shows "\<exists>d' m. TAILQ_REMOVE_debug here d h x = Inr d' \<and> TAILQ_REMOVE (links d) h x = Inr m \<and>
    links d' = m\<lparr>cell := (cell m)(NextOf x \<mapsto> trash), tqe_prev := (tqe_prev m)(x \<mapsto> NextOf trash)\<rparr> \<and>
    tailq (links d') h (xs @ ys)"
proof -
  obtain m where m: "TAILQ_REMOVE (links d) h x = Inr m" "tailq m h (xs @ ys)" "is_elem m x"
    using tailq_remove [OF q] by blast
  note n = tailq_NEXT [OF q]
  obtain d1 where d1: "(if (case ys of [] \<Rightarrow> NULL | y # _ \<Rightarrow> y) \<noteq> NULL then Inr (d\<lparr>links := m\<rparr>)
      else QMD_TRACE_HEAD here (d\<lparr>links := m\<rparr>) h) = Inr d1" "links d1 = m" "elem_trace d1 x \<noteq> None"
    using traced(1) [of "d\<lparr>links := m\<rparr>" h here] t by (cases "(case ys of [] \<Rightarrow> NULL | y # _ \<Rightarrow> y) = NULL") auto
  have x: "x \<notin> set (xs @ ys)" using tailq_distinct [OF q] by auto
  let ?m = "m\<lparr>cell := (cell m)(NextOf x \<mapsto> trash), tqe_prev := (tqe_prev m)(x \<mapsto> NextOf trash)\<rparr>"
  obtain t where "QMD_TRACE_ELEM here (d1\<lparr>links := ?m\<rparr>) x =
      Inr (d1\<lparr>links := ?m, elem_trace := (elem_trace d1)(x \<mapsto> t)\<rparr>)"
    using traced(2) [of "d1\<lparr>links := ?m\<rparr>" x here] d1(3) by auto
  then have "TAILQ_REMOVE_debug here d h x = Inr (d1\<lparr>links := ?m, elem_trace := (elem_trace d1)(x \<mapsto> t)\<rparr>)"
    using m(1,3) d1(2) trash_removed [of m x]
    by (simp add: TAILQ_REMOVE_debug_def tailq_checks [OF q] n d1(1) on_links_def is_elem_def)
  then show ?thesis using m(1) tailq_trash [OF m(2) x] by simp
qed

lemma insert_debug:
  assumes q: "tailq (links d) h (xs @ x # ys)" and e: "is_elem (links d) e" "e \<notin> set (xs @ x # ys)"
    and t: "head_trace d h \<noteq> None" "elem_trace d x \<noteq> None" "elem_trace d e \<noteq> None"
  shows "\<exists>d'. TAILQ_INSERT_HEAD_debug here d h e = Inr d' \<and> TAILQ_INSERT_HEAD (links d) h e = Inr (links d')"
    and "\<exists>d'. TAILQ_INSERT_TAIL_debug here d h e = Inr d' \<and> TAILQ_INSERT_TAIL (links d) h e = Inr (links d')"
    and "\<exists>d'. TAILQ_INSERT_AFTER_debug here d h x e = Inr d' \<and> TAILQ_INSERT_AFTER (links d) h x e = Inr (links d')"
    and "\<exists>d'. TAILQ_INSERT_BEFORE_debug here d x e = Inr d' \<and> TAILQ_INSERT_BEFORE (links d) x e = Inr (links d')"
proof -
  note checks = tailq_checks(1,2) [OF q] tailq_checks(3,4) [OF q]
  obtain m where "TAILQ_INSERT_HEAD (links d) h e = Inr m" using tailq_insert_head [OF q e] by blast
  then show "\<exists>d'. TAILQ_INSERT_HEAD_debug here d h e = Inr d' \<and> TAILQ_INSERT_HEAD (links d) h e = Inr (links d')"
    using both_traced(1) [of "d\<lparr>links := m\<rparr>" h e here] t
    by (auto simp: TAILQ_INSERT_HEAD_debug_def checks on_links_def)
  obtain m where "TAILQ_INSERT_TAIL (links d) h e = Inr m" using tailq_insert_tail [OF q e] by blast
  then show "\<exists>d'. TAILQ_INSERT_TAIL_debug here d h e = Inr d' \<and> TAILQ_INSERT_TAIL (links d) h e = Inr (links d')"
    using both_traced(1) [of "d\<lparr>links := m\<rparr>" h e here] t
    by (auto simp: TAILQ_INSERT_TAIL_debug_def checks on_links_def)
  obtain m where m: "TAILQ_INSERT_AFTER (links d) h x e = Inr m" using tailq_insert_after [OF q e] by blast
  obtain d1 where d1: "(if (case ys of [] \<Rightarrow> NULL | y # _ \<Rightarrow> y) \<noteq> NULL then Inr (d\<lparr>links := m\<rparr>)
      else QMD_TRACE_HEAD here (d\<lparr>links := m\<rparr>) h) = Inr d1" "links d1 = m" "elem_trace d1 = elem_trace d"
    using traced(1) [of "d\<lparr>links := m\<rparr>" h here] t
    by (cases "(case ys of [] \<Rightarrow> NULL | y # _ \<Rightarrow> y) = NULL") auto
  then show "\<exists>d'. TAILQ_INSERT_AFTER_debug here d h x e = Inr d' \<and>
      TAILQ_INSERT_AFTER (links d) h x e = Inr (links d')"
    using m both_traced(2) [of d1 e x here] t
    by (auto simp: TAILQ_INSERT_AFTER_debug_def checks tailq_NEXT [OF q] on_links_def)
  obtain m where "TAILQ_INSERT_BEFORE (links d) x e = Inr m" using tailq_insert_before [OF q e] by blast
  then show "\<exists>d'. TAILQ_INSERT_BEFORE_debug here d x e = Inr d' \<and> TAILQ_INSERT_BEFORE (links d) x e = Inr (links d')"
    using both_traced(2) [of "d\<lparr>links := m\<rparr>" e x here] t
    by (auto simp: TAILQ_INSERT_BEFORE_debug_def checks on_links_def)
qed

lemma list_remove_debug:
  assumes "listq m h (xs @ x # ys)"
  shows "\<exists>m' m1. LIST_REMOVE_debug m x = Inr m' \<and> LIST_REMOVE m x = Inr m1 \<and>
    m' = m1\<lparr>cell := (cell m1)(NextOf x \<mapsto> trash), tqe_prev := (tqe_prev m1)(x \<mapsto> NextOf trash)\<rparr> \<and>
    listq m' h (xs @ ys)"
proof -
  obtain m1 where m: "LIST_REMOVE m x = Inr m1" "listq m1 h (xs @ ys)" "is_elem m1 x"
    using listq_remove [OF assms] by blast
  have "x \<notin> set (xs @ ys)" using assms by (auto simp: listq_def)
  then show ?thesis
    using m listq_trash [OF m(2)] trash_removed [of m1 x] listq_checks(2,3) [OF assms]
    by (auto simp: LIST_REMOVE_debug_def is_elem_def)
qed

section \<open>All the checks of a list\<close>

text \<open>The checks at the head, at every element of a chain in turn, and at the tail.\<close>

definition check_all :: "tailq_store \<Rightarrow> ptr \<Rightarrow> ptr list \<Rightarrow> unit res" where
  "check_all m h xs = bindE (QMD_TAILQ_CHECK_HEAD m h) (\<lambda>_.
     bindE (fold_res (\<lambda>x _. bindE (QMD_TAILQ_CHECK_NEXT m x) (\<lambda>_. QMD_TAILQ_CHECK_PREV m x)) xs ()) (\<lambda>_.
     QMD_TAILQ_CHECK_TAIL m h))"

text \<open>From a cell that the first element points back to.\<close>

lemma check_elements:
  assumes "path (cell m) l xs" and "cell m (endl l xs) = Some NULL" and "\<forall>x \<in> set xs. tqe_prev m x \<noteq> None"
    and "xs \<noteq> [] \<Longrightarrow> tqe_prev m (hd xs) = Some l"
  shows "fold_res (\<lambda>x _. bindE (QMD_TAILQ_CHECK_NEXT m x) (\<lambda>_. QMD_TAILQ_CHECK_PREV m x)) xs () =
    (if seg (cell m) (tqe_prev m) l xs then Inr () else Inl Panic)"
  using assms
proof (induction xs arbitrary: l)
  case (Cons x xs)
  have x: "cell m l = Some x" "tqe_prev m x = Some l" using Cons.prems by auto
  have prev: "QMD_TAILQ_CHECK_PREV m x = Inr ()"
    using x by (simp add: QMD_TAILQ_CHECK_PREV_def load_def)
  show ?case
  proof (cases xs)
    case Nil
    then show ?thesis using Cons.prems x prev by (simp add: QMD_TAILQ_CHECK_NEXT_def tailq_defs)
  next
    case (Cons y ys)
    then obtain k where y: "cell m (NextOf x) = Some y" "y \<noteq> NULL" "tqe_prev m y = Some k"
      using Cons.prems by auto
    then have next_check: "QMD_TAILQ_CHECK_NEXT m x = (if k = NextOf x then Inr () else Inl Panic)"
      by (simp add: QMD_TAILQ_CHECK_NEXT_def tailq_defs)
    show ?thesis
    proof (cases "k = NextOf x")
      case True
      then show ?thesis
        using Cons.IH [of "NextOf x"] Cons.prems Cons x y prev next_check by auto
    next
      case False
      then show ?thesis using Cons x y next_check by simp
    qed
  qed
qed simp

lemma path_cells:
  assumes "path c l xs" and "c (endl l xs) = Some NULL" and "k \<in> insert l (NextOf ` set xs)"
  shows "\<exists>p. c k = Some p"
    and "distinct xs \<Longrightarrow> l \<notin> NextOf ` set xs \<Longrightarrow> c k = Some NULL \<Longrightarrow> k = endl l xs"
  using assms by (induction xs arbitrary: l) auto

text \<open>The two queues with traces.\<close>

definition debug_queues :: debug_store where
  "debug_queues = \<lparr>links = two_queues,
     head_trace = (\<lambda>h. if h = 8 \<or> h = 9 then Some (TRACEBUF_INITIALIZER (1, ''queue.c'')) else None),
     elem_trace = (\<lambda>e. if e \<in> {16, 24, 32, 40} then Some (TRACEBUF_INITIALIZER (2, ''queue.c'')) else None)\<rparr>"

lemma debug_queues:
  "links debug_queues = two_queues" "tailq (links debug_queues) 8 [16, 24]" "is_elem (links debug_queues) 32"
  "head_trace debug_queues 8 \<noteq> None" "elem_trace debug_queues 16 \<noteq> None" "elem_trace debug_queues 32 \<noteq> None"
  "cell (links debug_queues) (NextOf trash) = None" "tqe_prev (links debug_queues) trash = None"
proof -
  show "cell (links debug_queues) (NextOf trash) = None" "tqe_prev (links debug_queues) trash = None"
    by (simp_all add: debug_queues_def two_queues_def trash_def)
qed (simp_all add: debug_queues_def two_queues)

section \<open>Properties\<close>

text \<open>
  C29: On a well-formed list the macros of a debug build do what the plain ones do: no check stops,
  the links are those that the plain macro leaves, except that a removed element has its two
  links overwritten.
\<close>

theorem debug_build_agrees:
  assumes q: "tailq (links d) h (xs @ x # ys)" and e: "is_elem (links d) e" "e \<notin> set (xs @ x # ys)"
    and t: "head_trace d h \<noteq> None" "elem_trace d x \<noteq> None" "elem_trace d e \<noteq> None"
  shows "(\<exists>d'. TAILQ_INSERT_HEAD_debug here d h e = Inr d' \<and> TAILQ_INSERT_HEAD (links d) h e = Inr (links d') \<and>
      LIST_INSERT_HEAD_debug (links d) h e = LIST_INSERT_HEAD (links d) h e) \<and>
    (\<exists>d'. TAILQ_INSERT_TAIL_debug here d h e = Inr d' \<and> TAILQ_INSERT_TAIL (links d) h e = Inr (links d')) \<and>
    (\<exists>d'. TAILQ_INSERT_AFTER_debug here d h x e = Inr d' \<and> TAILQ_INSERT_AFTER (links d) h x e = Inr (links d') \<and>
      LIST_INSERT_AFTER_debug (links d) x e = LIST_INSERT_AFTER (links d) x e) \<and>
    (\<exists>d'. TAILQ_INSERT_BEFORE_debug here d x e = Inr d' \<and> TAILQ_INSERT_BEFORE (links d) x e = Inr (links d') \<and>
      LIST_INSERT_BEFORE_debug (links d) x e = LIST_INSERT_BEFORE (links d) x e) \<and>
    (\<exists>d' m. TAILQ_REMOVE_debug here d h x = Inr d' \<and> TAILQ_REMOVE (links d) h x = Inr m \<and>
      links d' = m\<lparr>cell := (cell m)(NextOf x \<mapsto> trash), tqe_prev := (tqe_prev m)(x \<mapsto> NextOf trash)\<rparr> \<and>
      tailq (links d') h (xs @ ys)) \<and>
    (\<exists>m' m. LIST_REMOVE_debug (links d) x = Inr m' \<and> LIST_REMOVE (links d) x = Inr m \<and>
      m' = m\<lparr>cell := (cell m)(NextOf x \<mapsto> trash), tqe_prev := (tqe_prev m)(x \<mapsto> NextOf trash)\<rparr> \<and>
      listq m' h (xs @ ys))"
proof -
  have l: "listq (links d) h (xs @ x # ys)" using q by (simp add: tailq_listq)
  show ?thesis
    using insert_debug [OF q e t] tailq_remove_debug [OF q t(1,2)] list_remove_debug [OF l]
    by (simp add: LIST_INSERT_HEAD_debug_def LIST_INSERT_AFTER_debug_def LIST_INSERT_BEFORE_debug_def
        listq_checks(1) [OF l] listq_checks(2,3) [OF l])
qed

theorem debug_build_agrees_witness:
  "\<exists>d' m. TAILQ_REMOVE_debug (7, ''a.c'') debug_queues 8 16 = Inr d' \<and> TAILQ_REMOVE two_queues 8 16 = Inr m \<and>
    cell (links d') (NextOf 16) = Some trash \<and> tailq (links d') 8 [24]"
  using debug_build_agrees [of debug_queues 8 "[]" 16 "[24]" 32 "(7, ''a.c'')"] debug_queues by auto

text \<open>
  C30: For a chain of elements that the head and the \<open>next\<close> links form, and an end pointer that
  points into the chain, the checks pass at the head, at every element and at the tail exactly
  if the chain is a well-formed tail queue; if it is not, they panic and do not fault.
\<close>

theorem checks_pass_exactly_on_queues:
  assumes "slist m h xs" and "\<forall>x \<in> set xs. tqe_prev m x \<noteq> None"
    and "tqh_last m h = Some l" and "l \<in> insert (FirstOf h) (NextOf ` set xs)"
  shows "check_all m h xs = (if tailq m h xs then Inr () else Inl Panic)"
proof -
  have s: "distinct xs" "path (cell m) (FirstOf h) xs" "cell m (endl (FirstOf h) xs) = Some NULL"
    using assms(1) by (simp_all add: slist_def)
  obtain p where p: "cell m l = Some p" using path_cells(1) [OF s(2,3) assms(4)] by blast
  have tail: "QMD_TAILQ_CHECK_TAIL m h = (if l = endl (FirstOf h) xs then Inr () else Inl Panic)"
    using path_cells(2) [OF s(2,3) assms(4) s(1)] s(3) assms(3) p
    by (cases "p = NULL") (auto simp: QMD_TAILQ_CHECK_TAIL_def load_def)
  have head: "QMD_TAILQ_CHECK_HEAD m h =
      (if xs = [] \<or> tqe_prev m (hd xs) = Some (FirstOf h) then Inr () else Inl Panic)"
    using s assms(2) by (cases xs) (auto simp: QMD_TAILQ_CHECK_HEAD_def tailq_defs)
  show ?thesis
  proof (cases "xs = [] \<or> tqe_prev m (hd xs) = Some (FirstOf h)")
    case True
    then show ?thesis
      using check_elements [OF s(2,3) assms(2)] head tail s assms(3) by (auto simp: check_all_def tailq_def)
  next
    case False
    then show ?thesis using head by (cases xs) (auto simp: check_all_def tailq_def)
  qed
qed

text \<open>The second element points back to the head instead of the first one.\<close>

theorem checks_pass_exactly_on_queues_witness:
  "check_all two_queues 8 [16, 24] = Inr () \<and>
    check_all (two_queues\<lparr>tqe_prev := (tqe_prev two_queues)(24 \<mapsto> FirstOf 8)\<rparr>) 8 [16, 24] = Inl Panic"
proof
  show "check_all two_queues 8 [16, 24] = Inr ()"
    using checks_pass_exactly_on_queues [of two_queues 8 "[16, 24]" "NextOf 24"] two_lists(1) two_queues(1)
    by (simp add: two_queues_def)
  let ?m = "two_queues\<lparr>tqe_prev := (tqe_prev two_queues)(24 \<mapsto> FirstOf 8)\<rparr>"
  have "slist ?m 8 [16, 24]" "\<not> tailq ?m 8 [16, 24]" "tqh_last ?m 8 = Some (NextOf 24)"
    "\<forall>x \<in> set [16, 24]. tqe_prev ?m x \<noteq> None"
    by (simp_all add: two_queues_def slist_def tailq_def)
  then show "check_all ?m 8 [16, 24] = Inl Panic"
    using checks_pass_exactly_on_queues [of ?m 8 "[16, 24]" "NextOf 24"] by simp
qed

text \<open>
  After the removal of an element in a debug build each further use of it as a member of the
  list is stopped. In the plain build a second removal of it is carried out, and an element that
  was put in its place meanwhile is lost from the queue.
\<close>

theorem second_removal:
  assumes q: "tailq (links d) h (x # ys)" and e: "is_elem (links d) e" "e \<notin> set (x # ys)"
    and t: "head_trace d h \<noteq> None" "elem_trace d x \<noteq> None"
    and free: "cell (links d) (NextOf trash) = None" "tqe_prev (links d) trash = None"
  shows "(\<exists>d'. TAILQ_REMOVE_debug here d h x = Inr d' \<and>
      TAILQ_REMOVE_debug there d' h x = Inl BadPointer \<and>
      TAILQ_INSERT_AFTER_debug there d' h x e = Inl BadPointer \<and>
      TAILQ_INSERT_BEFORE_debug there d' x e = Inl BadPointer) \<and>
    (\<exists>m1 m2 m3. TAILQ_REMOVE (links d) h x = Inr m1 \<and> TAILQ_INSERT_HEAD m1 h e = Inr m2 \<and>
      tailq m2 h (e # ys) \<and> TAILQ_REMOVE m2 h x = Inr m3 \<and> tailq m3 h ys)"
proof
  obtain d' m where d': "TAILQ_REMOVE_debug here d h x = Inr d'" "TAILQ_REMOVE (links d) h x = Inr m"
    "links d' = m\<lparr>cell := (cell m)(NextOf x \<mapsto> trash), tqe_prev := (tqe_prev m)(x \<mapsto> NextOf trash)\<rparr>"
    using tailq_remove_debug [of d h "[]" x ys here] q t by auto
  have x: "x \<noteq> trash" using q free(2) by (auto simp: tailq_def)
  have "cell m (NextOf trash) = None \<and> tqe_prev m trash = None"
    using d'(2) q free e(1) by (cases ys) (auto simp: tailq_defs tailq_def split: if_splits)
  then have no: "cell (links d') (NextOf trash) = None" "tqe_prev (links d') trash = None"
    "cell (links d') (NextOf x) = Some trash" "tqe_prev (links d') x = Some (NextOf trash)"
    using d'(3) x by auto
  have "trash \<noteq> NULL" by (simp add: trash_def)
  then have "TAILQ_REMOVE_debug there d' h x = Inl BadPointer"
    "TAILQ_INSERT_AFTER_debug there d' h x e = Inl BadPointer"
    "TAILQ_INSERT_BEFORE_debug there d' x e = Inl BadPointer"
    using no by (simp_all add: TAILQ_REMOVE_debug_def TAILQ_INSERT_AFTER_debug_def TAILQ_INSERT_BEFORE_debug_def
        QMD_TAILQ_CHECK_NEXT_def QMD_TAILQ_CHECK_PREV_def TAILQ_NEXT_def load_def)
  with d'(1) show "\<exists>d'. TAILQ_REMOVE_debug here d h x = Inr d' \<and>
      TAILQ_REMOVE_debug there d' h x = Inl BadPointer \<and>
      TAILQ_INSERT_AFTER_debug there d' h x e = Inl BadPointer \<and>
      TAILQ_INSERT_BEFORE_debug there d' x e = Inl BadPointer" by blast
next
  show "\<exists>m1 m2 m3. TAILQ_REMOVE (links d) h x = Inr m1 \<and> TAILQ_INSERT_HEAD m1 h e = Inr m2 \<and>
      tailq m2 h (e # ys) \<and> TAILQ_REMOVE m2 h x = Inr m3 \<and> tailq m3 h ys"
  proof (cases ys)
    case Nil
    then show ?thesis using q e by (auto simp: tailq_defs tailq_def is_elem_def)
  next
    case (Cons y zs)
    then show ?thesis
      using q e endl_not_next [of e zs y] by (auto simp: tailq_defs tailq_def is_elem_def)
  qed
qed

theorem second_removal_witness:
  "\<exists>m1 m2 m3. TAILQ_REMOVE two_queues 8 16 = Inr m1 \<and> TAILQ_INSERT_HEAD m1 8 32 = Inr m2 \<and>
    tailq m2 8 [32, 24] \<and> TAILQ_REMOVE m2 8 16 = Inr m3 \<and> tailq m3 8 [24]"
  using second_removal [of debug_queues 8 16 "[24]" 32] debug_queues by auto

end
