(* ===== verification/Circular_Buffer.thy ===== *)
theory Circular_Buffer
  imports Aesd_Prelude
begin

text \<open>
  The circular buffer of write commands: \<open>aesd-char-driver/aesd-circular-buffer.h\<close> and
  \<open>aesd-circular-buffer.c\<close>. An entry keeps a pointer and a size, the buffer is an
  array of ten entries with two \<open>uint8_t\<close> cursors and a flag. The bytes an entry points
  to belong to the driver and are modelled in \<open>Char_Driver\<close>.
\<close>

section \<open>Data\<close>

definition AESDCHAR_MAX_WRITE_OPERATIONS_SUPPORTED :: nat where
  "AESDCHAR_MAX_WRITE_OPERATIONS_SUPPORTED = 10"

record aesd_buffer_entry =
  buffptr :: ptr
  esize :: size_t

record aesd_circular_buffer =
  entry :: "aesd_buffer_entry list"
  in_offs :: u8
  out_offs :: u8
  full :: bool

text \<open>An all-zero entry, as \<open>memset\<close> leaves it.\<close>

definition zero_entry :: aesd_buffer_entry where
  "zero_entry = \<lparr>buffptr = NULL, esize = 0\<rparr>"

text \<open>\<open>buffer->entry[i]\<close>, outside the array a fault.\<close>

definition entry_at :: "aesd_circular_buffer \<Rightarrow> size_t \<Rightarrow> aesd_buffer_entry res" where
  "entry_at b i =
     (if unat i < length (entry b) then Inr (entry b ! unat i) else Inl OutOfBounds)"

section \<open>Operations\<close>

text \<open>
  The search loop of \<open>aesd_circular_buffer_find_entry_offset_for_fpos\<close>. Its result is
  the index of the entry whose address the code returns together with the value stored
  through \<open>entry_offset_byte_rtn\<close>, or \<open>None\<close> for NULL (nothing is stored then).
  A loop that does not end is the outer \<open>None\<close>.
\<close>

partial_function (option) find_loop ::
  "aesd_circular_buffer \<Rightarrow> size_t \<Rightarrow> size_t \<Rightarrow> size_t \<Rightarrow> bool \<Rightarrow> size_t \<Rightarrow>
   (size_t \<times> size_t) option res option" where
  "find_loop buffer char_offset bufferinpos bufferoutpos first_run curr_searched =
     (if bufferinpos \<noteq> bufferoutpos \<or> first_run then
        (case entry_at buffer bufferoutpos of
           Inl e \<Rightarrow> Some (Inl e)
         | Inr ent \<Rightarrow>
             (if char_offset < curr_searched + esize ent then
                (let searched = curr_searched + esize ent;
                     considered = searched - esize ent;
                     offset_within = char_offset - considered
                 in Some (Inr (Some (bufferoutpos, offset_within))))
              else
                find_loop buffer char_offset bufferinpos
                  (if bufferoutpos + 1 \<noteq> of_nat AESDCHAR_MAX_WRITE_OPERATIONS_SUPPORTED
                   then bufferoutpos + 1 else 0)
                  False (curr_searched + esize ent)))
      else Some (Inr None))"

definition aesd_circular_buffer_find_entry_offset_for_fpos ::
  "aesd_circular_buffer \<Rightarrow> size_t \<Rightarrow> (size_t \<times> size_t) option res" where
  "aesd_circular_buffer_find_entry_offset_for_fpos buffer char_offset =
     returned (find_loop buffer char_offset (ucast (in_offs buffer)) (ucast (out_offs buffer))
       True 0)"

text \<open>
  \<open>aesd_circular_buffer_add_entry\<close>: the pointer it returns (the buffer the caller must
  free, or NULL) and the updated buffer.
\<close>

definition aesd_circular_buffer_add_entry ::
  "aesd_circular_buffer \<Rightarrow> aesd_buffer_entry \<Rightarrow> (ptr \<times> aesd_circular_buffer) res" where
  "aesd_circular_buffer_add_entry buffer add_entry =
     bindE (entry_at buffer (ucast (in_offs buffer))) (\<lambda>old.
       let oldbufferptr = buffptr old;
           need_freed = (oldbufferptr \<noteq> NULL);
           buffer = buffer\<lparr>entry := (entry buffer)[unat (in_offs buffer) :=
             old\<lparr>buffptr := buffptr add_entry, esize := esize add_entry\<rparr>]\<rparr>;
           buffer =
             (if in_offs buffer = out_offs buffer \<and> full buffer then
                (let buffer = buffer\<lparr>out_offs := out_offs buffer + 1\<rparr>
                 in if out_offs buffer = of_nat AESDCHAR_MAX_WRITE_OPERATIONS_SUPPORTED
                    then buffer\<lparr>out_offs := 0\<rparr> else buffer)
              else buffer);
           buffer = buffer\<lparr>in_offs := in_offs buffer + 1\<rparr>;
           buffer =
             (if in_offs buffer = of_nat AESDCHAR_MAX_WRITE_OPERATIONS_SUPPORTED
              then buffer\<lparr>in_offs := 0, full := True\<rparr> else buffer)
       in Inr (if need_freed then oldbufferptr else NULL, buffer))"

text \<open>
  The same function store by store, for readers that take no lock: the buffer after each of its
  assignments, in the order of the source, the last one the buffer at its return.
\<close>

definition add_entry_states ::
  "aesd_circular_buffer \<Rightarrow> aesd_buffer_entry \<Rightarrow> aesd_circular_buffer list res" where
  "add_entry_states buffer add_entry =
     bindE (entry_at buffer (ucast (in_offs buffer))) (\<lambda>old.
       let i = unat (in_offs buffer);
           pointer_set = buffer\<lparr>entry := (entry buffer)[i := old\<lparr>buffptr := buffptr add_entry\<rparr>]\<rparr>;
           size_set = buffer\<lparr>entry := (entry buffer)[i :=
             old\<lparr>buffptr := buffptr add_entry, esize := esize add_entry\<rparr>]\<rparr>;
           out_moves =
             (if in_offs buffer = out_offs buffer \<and> full buffer then
                (let moved = size_set\<lparr>out_offs := out_offs buffer + 1\<rparr>
                 in if out_offs moved = of_nat AESDCHAR_MAX_WRITE_OPERATIONS_SUPPORTED
                    then [moved, moved\<lparr>out_offs := 0\<rparr>] else [moved])
              else []);
           out_done = last (size_set # out_moves);
           in_moved = out_done\<lparr>in_offs := in_offs buffer + 1\<rparr>;
           in_moves =
             (if in_offs in_moved = of_nat AESDCHAR_MAX_WRITE_OPERATIONS_SUPPORTED
              then [in_moved\<lparr>in_offs := 0\<rparr>, in_moved\<lparr>in_offs := 0, full := True\<rparr>] else [])
       in Inr (pointer_set # size_set # out_moves @ in_moved # in_moves))"

text \<open>\<open>aesd_circular_buffer_init\<close>: \<open>memset\<close> of the whole structure to zero.\<close>

definition aesd_circular_buffer_init :: aesd_circular_buffer where
  "aesd_circular_buffer_init =
     \<lparr>entry = replicate AESDCHAR_MAX_WRITE_OPERATIONS_SUPPORTED zero_entry,
      in_offs = 0, out_offs = 0, full = False\<rparr>"

definition get_buffer_size_of_current_entry :: "aesd_buffer_entry \<Rightarrow> size_t" where
  "get_buffer_size_of_current_entry entry_to_check = esize entry_to_check"

text \<open>
  Entries by address: the array is the first member of the structure at \<open>circle_buf\<close>,
  and an entry takes 16 bytes (a pointer and a \<open>size_t\<close>).
\<close>

definition entry_address :: "ptr \<Rightarrow> size_t \<Rightarrow> ptr" where
  "entry_address circle_buf i = circle_buf + 16 * i"

function index_loop :: "ptr \<Rightarrow> ptr \<Rightarrow> size_t \<Rightarrow> size_t" where
  "index_loop entry_to_check circle_buf position =
     (if position < of_nat AESDCHAR_MAX_WRITE_OPERATIONS_SUPPORTED then
        (if entry_to_check = entry_address circle_buf position then position
         else index_loop entry_to_check circle_buf (position + 1))
      else - 1)"
  by pat_completeness auto
termination
  by (relation "measure (\<lambda>(e, c, position). 10 - unat position)")
    (auto simp: AESDCHAR_MAX_WRITE_OPERATIONS_SUPPORTED_def intro: count_up_measure)

declare index_loop.simps [simp del]

definition get_index_of_current_entry :: "ptr \<Rightarrow> ptr \<Rightarrow> size_t" where
  "get_index_of_current_entry entry_to_check circle_buf =
     index_loop entry_to_check circle_buf 0"

definition get_next_entry_in_buffer :: "ptr \<Rightarrow> ptr \<Rightarrow> ptr" where
  "get_next_entry_in_buffer entry_to_check circle_buf =
     (let current_index = get_index_of_current_entry entry_to_check circle_buf;
          next_index = current_index + 1;
          next_index =
            (if next_index = of_nat AESDCHAR_MAX_WRITE_OPERATIONS_SUPPORTED then 0
             else next_index)
      in entry_address circle_buf next_index)"

text \<open>
  \<open>get_length_of_all_entries_in_buffer\<close>: the \<open>AESD_CIRCULAR_BUFFER_FOREACH\<close> loop, whose
  index is a \<open>uint8_t\<close>.
\<close>

function foreach_size :: "aesd_circular_buffer \<Rightarrow> u8 \<Rightarrow> size_t \<Rightarrow> size_t res" where
  "foreach_size buffer index total_size =
     (if index < of_nat AESDCHAR_MAX_WRITE_OPERATIONS_SUPPORTED then
        bindE (entry_at buffer (ucast index)) (\<lambda>ent.
          foreach_size buffer (index + 1) (total_size + esize ent))
      else Inr total_size)"
  by pat_completeness auto
termination
  by (relation "measure (\<lambda>(b, index, t). 10 - unat index)")
    (auto simp: AESDCHAR_MAX_WRITE_OPERATIONS_SUPPORTED_def intro: count_up_measure)

declare foreach_size.simps [simp del]

definition get_length_of_all_entries_in_buffer :: "aesd_circular_buffer \<Rightarrow> size_t res" where
  "get_length_of_all_entries_in_buffer buffer =
     foreach_size buffer 0 0"

text \<open>The unfinished \<open>copy_data_between_endpoints_to_user\<close> returns a constant.\<close>

definition copy_data_between_endpoints_to_user ::
  "size_t \<Rightarrow> size_t \<Rightarrow> c_int \<Rightarrow> aesd_circular_buffer \<Rightarrow> size_t" where
  "copy_data_between_endpoints_to_user start request_length fd buffer = 3"

section \<open>Invariant and abstraction\<close>

text \<open>
  The array has ten entries and both cursors are in it. Before the first wrap the oldest
  entry is at index 0 and the entries from \<open>in_offs\<close> on are still zero; after it the
  cursors coincide.
\<close>

definition cb_inv :: "aesd_circular_buffer \<Rightarrow> bool" where
  "cb_inv b \<longleftrightarrow> length (entry b) = 10 \<and> unat (in_offs b) < 10 \<and> unat (out_offs b) < 10 \<and>
     (if full b then in_offs b = out_offs b
      else out_offs b = 0 \<and> (\<forall>i \<in> {unat (in_offs b)..<10}. entry b ! i = zero_entry))"

definition cb_count :: "aesd_circular_buffer \<Rightarrow> nat" where
  "cb_count b = (if full b then 10 else unat (in_offs b))"

text \<open>\<open>n\<close> entries in ring order, from index \<open>p\<close>.\<close>

definition ring_slice :: "aesd_circular_buffer \<Rightarrow> nat \<Rightarrow> nat \<Rightarrow> aesd_buffer_entry list" where
  "ring_slice b p n = map (\<lambda>k. entry b ! ((p + k) mod 10)) [0..<n]"

text \<open>The abstraction: the commands held, oldest first.\<close>

definition cb_list :: "aesd_circular_buffer \<Rightarrow> aesd_buffer_entry list" where
  "cb_list b = ring_slice b (unat (out_offs b)) (cb_count b)"

lemma MAX_simp [simp]: "AESDCHAR_MAX_WRITE_OPERATIONS_SUPPORTED = 10"
  by (simp add: AESDCHAR_MAX_WRITE_OPERATIONS_SUPPORTED_def)

lemma cb_invD:
  assumes "cb_inv b"
  shows "length (entry b) = 10" "unat (in_offs b) < 10" "unat (out_offs b) < 10"
    "full b \<Longrightarrow> in_offs b = out_offs b" "\<not> full b \<Longrightarrow> out_offs b = 0"
    "\<not> full b \<Longrightarrow> unat (in_offs b) \<le> i \<Longrightarrow> i < 10 \<Longrightarrow> entry b ! i = zero_entry"
  using assms by (auto simp: cb_inv_def split: if_splits)

lemma length_ring_slice [simp]: "length (ring_slice b p n) = n"
  by (simp add: ring_slice_def)

lemma nth_ring_slice [simp]: "k < n \<Longrightarrow> ring_slice b p n ! k = entry b ! ((p + k) mod 10)"
  by (simp add: ring_slice_def)

lemma ring_slice_0 [simp]: "ring_slice b p 0 = []"
  by (simp add: ring_slice_def)

lemma ring_slice_Suc:
  "ring_slice b p (Suc n) = entry b ! (p mod 10) # ring_slice b (Suc p mod 10) n"
  by (rule nth_equalityI) (auto simp: nth_Cons mod_simps split: nat.split)

lemma length_cb_list [simp]: "length (cb_list b) = cb_count b"
  by (simp add: cb_list_def)

lemma cb_count_le: "cb_inv b \<Longrightarrow> cb_count b \<le> 10"
  by (auto simp: cb_count_def dest: cb_invD(2))

lemma entry_at_ok:
  "length (entry b) = 10 \<Longrightarrow> unat i < 10 \<Longrightarrow> entry_at b i = Inr (entry b ! unat i)"
  by (simp add: entry_at_def)

lemma cb_inv_init [simp]: "cb_inv aesd_circular_buffer_init"
  by (simp add: cb_inv_def aesd_circular_buffer_init_def)

lemma cb_list_init [simp]: "cb_list aesd_circular_buffer_init = []"
  by (simp add: cb_list_def cb_count_def aesd_circular_buffer_init_def)

section \<open>Adding an entry\<close>

text \<open>The updated buffer in closed form.\<close>

definition cb_push :: "aesd_circular_buffer \<Rightarrow> aesd_buffer_entry \<Rightarrow> aesd_circular_buffer" where
  "cb_push b e = \<lparr>entry = (entry b)[unat (in_offs b) := e],
     in_offs = of_nat (Suc (unat (in_offs b)) mod 10),
     out_offs = (if full b then of_nat (Suc (unat (out_offs b)) mod 10) else out_offs b),
     full = (full b \<or> unat (in_offs b) = 9)\<rparr>"

lemma entry_update [simp]:
  "old\<lparr>buffptr := buffptr e, esize := esize e\<rparr> = (e :: aesd_buffer_entry)"
  by simp

lemma add_entry_eq:
  assumes inv: "cb_inv b"
  shows "aesd_circular_buffer_add_entry b e =
    Inr (buffptr (entry b ! unat (in_offs b)), cb_push b e)"
proof -
  note b = cb_invD [OF inv]
  let ?next = "\<lambda>c :: u8. if c + 1 = 10 then 0 else c + 1"
  have at: "entry_at b (ucast (in_offs b)) = Inr (entry b ! unat (in_offs b))"
    using b by (simp add: entry_at_ok)
  have "aesd_circular_buffer_add_entry b e = Inr (buffptr (entry b ! unat (in_offs b)),
    \<lparr>entry = (entry b)[unat (in_offs b) := e], in_offs = ?next (in_offs b),
     out_offs = (if full b then ?next (out_offs b) else out_offs b),
     full = (full b \<or> in_offs b + 1 = 10)\<rparr>)"
    unfolding aesd_circular_buffer_add_entry_def at using b(4)
    by (cases b) (simp add: Let_def)
  moreover have "?next (in_offs b) = of_nat (Suc (unat (in_offs b)) mod 10)"
    using cursor_wrap [of "in_offs b" 10] b(2) by simp
  moreover have "?next (out_offs b) = of_nat (Suc (unat (out_offs b)) mod 10)"
    using cursor_wrap [of "out_offs b" 10] b(3) by simp
  moreover have "in_offs b + 1 = 10 \<longleftrightarrow> unat (in_offs b) = 9"
    using b(2) by (simp add: word_unat_eq_iff unat_add_small)
  ultimately show ?thesis
    by (simp only: cb_push_def)
qed

lemma add_entry_states_last:
  assumes "unat (in_offs b) < length (entry b)"
  shows "\<exists>bs p. add_entry_states b e = Inr bs \<and> aesd_circular_buffer_add_entry b e = Inr (p, last bs)"
  using assms by (auto simp: add_entry_states_def aesd_circular_buffer_add_entry_def entry_at_def Let_def)

text \<open>In a full buffer, the oldest entry with the new pointer and the old size; a cursor after the array.\<close>

lemma add_entry_states_full:
  assumes b: "cb_inv b" "full b" and bs: "add_entry_states b e = Inr bs"
  shows "b\<lparr>entry := (entry b)[unat (out_offs b) := (hd (cb_list b))\<lparr>buffptr := buffptr e\<rparr>]\<rparr> \<in> set bs"
    and "in_offs b = 9 \<Longrightarrow> b\<lparr>entry := (entry b)[9 := e], out_offs := 10\<rparr> \<in> set bs"
proof -
  have io: "in_offs b = out_offs b" "unat (in_offs b) < length (entry b)" "length (entry b) = 10"
    using b by (simp_all add: cb_inv_def split: if_splits)
  then have hd: "hd (cb_list b) = entry b ! unat (out_offs b)"
    using b(2) by (simp add: cb_list_def ring_slice_def cb_count_def hd_map upt_conv_Cons)
  show "b\<lparr>entry := (entry b)[unat (out_offs b) := (hd (cb_list b))\<lparr>buffptr := buffptr e\<rparr>]\<rparr> \<in> set bs"
    using bs io b(2) by (auto simp: hd add_entry_states_def entry_at_def Let_def)
  assume "in_offs b = 9"
  then show "b\<lparr>entry := (entry b)[9 := e], out_offs := 10\<rparr> \<in> set bs"
    using bs io b(2) by (auto simp: hd add_entry_states_def entry_at_def Let_def)
qed

lemma unat_mod_10: "unat (of_nat (n mod 10) :: u8) = n mod 10"
proof -
  have "n mod 10 < 2 ^ LENGTH(8)"
    by (rule less_trans [of _ 10]) simp_all
  then show ?thesis by (rule unat_of_nat_small)
qed

lemma cb_push_simps [simp]:
  "entry (cb_push b e) = (entry b)[unat (in_offs b) := e]"
  "unat (in_offs (cb_push b e)) = Suc (unat (in_offs b)) mod 10"
  "full (cb_push b e) = (full b \<or> unat (in_offs b) = 9)"
  by (simp_all add: cb_push_def unat_mod_10 del: of_nat_mod)

lemma unat_out_push:
  "unat (out_offs (cb_push b e)) =
    (if full b then Suc (unat (out_offs b)) mod 10 else unat (out_offs b))"
  by (simp add: cb_push_def unat_mod_10 del: of_nat_mod)

lemma cb_count_push:
  assumes "cb_inv b"
  shows "cb_count (cb_push b e) = min 10 (Suc (cb_count b))"
  using cb_invD(2) [OF assms] by (auto simp: cb_count_def mod_Suc)

lemma cb_inv_push:
  assumes inv: "cb_inv b"
  shows "cb_inv (cb_push b e)"
proof -
  note b = cb_invD [OF inv]
  show ?thesis
    using b by (auto simp: cb_inv_def unat_out_push word_unat_eq_iff mod_Suc)
qed

lemma cb_list_push_full:
  assumes inv: "cb_inv b" and full: "full b"
  shows "cb_list (cb_push b e) = tl (cb_list b) @ [e]"
proof (rule nth_equalityI)
  note b = cb_invD [OF inv]
  define p where "p = unat (out_offs b)"
  have io: "unat (in_offs b) = p" and p: "p < 10"
    using b(3) b(4) [OF full] by (simp_all add: p_def)
  show len: "length (cb_list (cb_push b e)) = length (tl (cb_list b) @ [e])"
    using full by (simp add: cb_count_push [OF inv]) (simp add: cb_count_def)
  fix k assume "k < length (cb_list (cb_push b e))"
  then have k: "k < 10" using full by (simp add: cb_count_def)
  have new: "cb_list (cb_push b e) ! k = (entry b)[p := e] ! (Suc (p + k) mod 10)"
    using full k by (simp add: cb_list_def cb_count_def io unat_out_push mod_simps) (simp add: p_def)
  show "cb_list (cb_push b e) ! k = (tl (cb_list b) @ [e]) ! k"
  proof (cases "k = 9")
    case True
    with p have "Suc (p + k) mod 10 = p" by simp
    then have "cb_list (cb_push b e) ! k = e"
      unfolding new using b(1) p by (metis nth_list_update_eq)
    moreover have "length (tl (cb_list b)) = k"
      using True full by (simp add: cb_count_def)
    ultimately show ?thesis by (metis nth_append_length)
  next
    case False
    with k p have "Suc (p + k) mod 10 \<noteq> p" by (auto simp: mod_if)
    then have "cb_list (cb_push b e) ! k = entry b ! (Suc (p + k) mod 10)"
      unfolding new by (metis nth_list_update_neq)
    moreover have "tl (cb_list b) ! k = entry b ! (Suc (p + k) mod 10)"
      using k False full by (simp add: nth_tl cb_count_def cb_list_def p_def)
    moreover have "k < length (tl (cb_list b))"
      using k False full by (simp add: cb_count_def)
    ultimately show ?thesis by (metis nth_append)
  qed
qed

lemma cb_list_push_not_full:
  assumes inv: "cb_inv b" and full: "\<not> full b"
  shows "cb_list (cb_push b e) = cb_list b @ [e]"
proof (rule nth_equalityI)
  note b = cb_invD [OF inv]
  have out: "unat (out_offs b) = 0" using b(5) [OF full] by simp
  have count: "cb_count (cb_push b e) = Suc (unat (in_offs b))"
    using full b(2) by (simp add: cb_count_push [OF inv]) (simp add: cb_count_def)
  show "length (cb_list (cb_push b e)) = length (cb_list b @ [e])"
    using full count by (simp add: cb_count_def)
  fix k assume "k < length (cb_list (cb_push b e))"
  with count have k: "k < Suc (unat (in_offs b))" by simp
  with b(2) have "k mod 10 = k" by simp
  then show "cb_list (cb_push b e) ! k = (cb_list b @ [e]) ! k"
    using full k b(1,2) out count
    by (auto simp: less_Suc_eq cb_list_def nth_append unat_out_push cb_count_def)
qed

lemma cb_list_push:
  assumes "cb_inv b"
  shows "cb_list (cb_push b e) = lastn 10 (cb_list b @ [e])"
proof (cases "full b")
  case True
  then show ?thesis
    using assms by (simp add: cb_list_push_full lastn_snoc_full cb_count_def)
next
  case False
  then show ?thesis
    using assms cb_invD(2) [OF assms] by (simp add: cb_list_push_not_full cb_count_def)
qed

text \<open>The pointer that is returned: the oldest entry's if one is dropped, else NULL.\<close>

lemma add_entry_returns:
  assumes inv: "cb_inv b"
  shows "buffptr (entry b ! unat (in_offs b)) =
    (if full b then buffptr (hd (cb_list b)) else NULL)"
proof (cases "full b")
  case True
  then have "hd (cb_list b) = entry b ! unat (in_offs b)"
    using cb_invD [OF inv]
    by (subst hd_conv_nth) (auto simp: cb_list_def cb_count_def simp flip: length_greater_0_conv)
  with True show ?thesis by simp
next
  case False
  then show ?thesis
    using cb_invD(2) [OF inv] cb_invD(6) [OF inv False, of "unat (in_offs b)"]
    by (simp add: zero_entry_def)
qed

section \<open>Searching an offset\<close>

text \<open>
  The reference: which of consecutive blocks of the given sizes holds the offset, and
  where in that block.
\<close>

fun locate :: "nat list \<Rightarrow> nat \<Rightarrow> (nat \<times> nat) option" where
  "locate [] off = None"
| "locate (n # ns) off =
     (if off < n then Some (0, off)
      else map_option (\<lambda>(k, r). (Suc k, r)) (locate ns (off - n)))"

lemma locate_None_iff: "locate ns off = None \<longleftrightarrow> sum_list ns \<le> off"
  by (induction ns off rule: locate.induct) auto

lemma locate_SomeD:
  "locate ns off = Some (k, r) \<Longrightarrow>
    k < length ns \<and> r < ns ! k \<and> off = sum_list (take k ns) + r"
proof (induction ns off arbitrary: k rule: locate.induct)
  case (2 n ns off)
  then show ?case
    by (cases "off < n") (auto simp: nth_Cons split: nat.splits)
qed simp

lemma locate_last: "0 < n \<Longrightarrow> locate (ns @ [n]) (sum_list ns) = Some (length ns, 0)"
  by (induction ns) auto

lemma locate_append_zeros [simp]: "locate (ns @ replicate m 0) off = locate ns off"
proof (induction ns off rule: locate.induct)
  case (1 off)
  then show ?case by (simp add: locate_None_iff sum_list_replicate)
qed simp

text \<open>The byte at an offset of a concatenation, by way of \<open>locate\<close>.\<close>

lemma locate_concat:
  "locate (map length xss) off = Some (k, r) \<Longrightarrow>
    drop off (concat xss) = drop r (xss ! k) @ concat (drop (Suc k) xss)"
proof (induction xss arbitrary: off k)
  case (Cons xs xss)
  then show ?case
    by (cases "off < length xs") auto
qed simp

definition entry_sizes :: "aesd_buffer_entry list \<Rightarrow> nat list" where
  "entry_sizes es = map (\<lambda>e. unat (esize e)) es"

lemma entry_sizes_simps [simp]:
  "entry_sizes [] = []" "entry_sizes (e # es) = unat (esize e) # entry_sizes es"
  "entry_sizes (es @ fs) = entry_sizes es @ entry_sizes fs"
  "length (entry_sizes es) = length es"
  by (simp_all add: entry_sizes_def)

text \<open>The index and offset the code returns for a position in ring order.\<close>

definition ring_position :: "nat \<Rightarrow> nat \<times> nat \<Rightarrow> size_t \<times> size_t" where
  "ring_position p kr = (case kr of (k, r) \<Rightarrow> (of_nat ((p + k) mod 10), of_nat r))"

lemma ring_position_Suc:
  "ring_position p (Suc k, r) = ring_position (Suc p mod 10) (k, r)"
  by (simp add: ring_position_def mod_simps)

lemma cursor_next:
  "unat (a :: size_t) < 10 \<Longrightarrow> (if a + 1 \<noteq> 10 then a + 1 else 0) = of_nat (Suc (unat a) mod 10)"
  using cursor_wrap [of a 10] by (simp split: if_splits)

text \<open>
  The loop started at index \<open>p\<close> visits the \<open>n\<close> entries up to the one where the
  cursor meets \<open>bufferinpos\<close> again.
\<close>

lemma find_loop_locate:
  assumes "length (entry b) = 10" and "p < 10" and "inpos = (p + n) mod 10"
    and "n \<le> 10" and "n = 10 \<longrightarrow> first" and "n = 0 \<longrightarrow> \<not> first"
    and "unat acc + sum_list (entry_sizes (ring_slice b p n)) < 2 ^ 64" and "acc \<le> off"
  shows "find_loop b off (of_nat inpos) (of_nat p) first acc =
    Some (Inr (map_option (ring_position p)
      (locate (entry_sizes (ring_slice b p n)) (unat off - unat acc))))"
  using assms
proof (induction n arbitrary: p first acc)
  case 0
  then show ?case by (subst find_loop.simps) simp
next
  case (Suc n)
  let ?e = "entry b ! p" and ?next = "of_nat (Suc p mod 10) :: size_t"
  have slice: "ring_slice b p (Suc n) = ?e # ring_slice b (Suc p mod 10) n"
    using Suc.prems(2) by (simp add: ring_slice_Suc)
  have p: "unat (of_nat p :: size_t) = p"
    using Suc.prems(2) by (intro unat_of_nat_small) simp
  have next_eq: "(if (of_nat p :: size_t) + 1 \<noteq> 10 then of_nat p + 1 else 0) = ?next"
    using cursor_next [of "of_nat p"] Suc.prems(2) p by simp
  have guard: "of_nat inpos \<noteq> (of_nat p :: size_t) \<or> first"
  proof (cases "Suc n = 10")
    case False
    then have "inpos \<noteq> p" and "inpos < 10" using Suc.prems(2,3,4) by (auto simp: mod_if)
    then show ?thesis
      using Suc.prems(2) p unat_of_nat_small [of inpos, where 'a = 64] by auto
  qed (use Suc.prems(5) in simp)
  have at: "entry_at b (of_nat p) = Inr ?e"
    using Suc.prems(1,2) p by (simp add: entry_at_ok)
  have size: "unat (acc + esize ?e) = unat acc + unat (esize ?e)"
    using Suc.prems(7) slice by (intro unat_add_small) simp
  show ?case
  proof (cases "off < acc + esize ?e")
    case True
    then have lt: "unat off - unat acc < unat (esize ?e)"
      using Suc.prems(8) size by (simp add: word_less_nat_alt word_le_nat_alt)
    have "off - acc = of_nat (unat off - unat acc)"
      using Suc.prems(8) by (simp add: word_le_nat_alt of_nat_diff)
    with True lt slice show ?thesis
      using guard at Suc.prems(2)
      by (subst find_loop.simps) (simp add: ring_position_def)
  next
    case False
    then have ge: "unat (esize ?e) \<le> unat off - unat acc"
      using size Suc.prems(8) by (simp add: word_less_nat_alt word_le_nat_alt)
    have IH: "find_loop b off (of_nat inpos) ?next False (acc + esize ?e) =
      Some (Inr (map_option (ring_position (Suc p mod 10))
        (locate (entry_sizes (ring_slice b (Suc p mod 10) n))
          (unat off - unat (acc + esize ?e)))))"
      using Suc.prems False size slice
      by (intro Suc.IH) (auto simp: mod_simps)
    have "map_option (ring_position p) (locate (entry_sizes (ring_slice b p (Suc n)))
        (unat off - unat acc)) =
      map_option (ring_position (Suc p mod 10))
        (locate (entry_sizes (ring_slice b (Suc p mod 10) n))
          (unat off - unat (acc + esize ?e)))"
      using ge size slice
      by (simp add: option.map_comp comp_def ring_position_Suc split_beta diff_diff_add)
    moreover have "find_loop b off (of_nat inpos) (of_nat p) first acc =
      find_loop b off (of_nat inpos) ?next False (acc + esize ?e)"
      using guard at False next_eq by (subst find_loop.simps) simp
    ultimately show ?thesis using IH by simp
  qed
qed

text \<open>The whole array in ring order: the commands held, then unused entries.\<close>

lemma ring_slice_rotate:
  "length (entry b) = 10 \<Longrightarrow> p < 10 \<Longrightarrow> ring_slice b p 10 = rotate p (entry b)"
  by (rule nth_equalityI) (simp_all add: nth_rotate add.commute)

lemma ring_slice_all:
  assumes inv: "cb_inv b"
  shows "ring_slice b (unat (out_offs b)) 10 =
    cb_list b @ replicate (10 - cb_count b) zero_entry"
proof (cases "full b")
  case True
  then show ?thesis by (simp add: cb_list_def cb_count_def)
next
  case False
  show ?thesis
  proof (rule nth_equalityI)
    show "length (ring_slice b (unat (out_offs b)) 10) =
      length (cb_list b @ replicate (10 - cb_count b) zero_entry)"
      using cb_count_le [OF inv] by simp
    fix k assume "k < length (ring_slice b (unat (out_offs b)) 10)"
    then show "ring_slice b (unat (out_offs b)) 10 ! k =
      (cb_list b @ replicate (10 - cb_count b) zero_entry) ! k"
      using False cb_invD [OF inv]
      by (auto simp: nth_append cb_list_def cb_count_def not_less)
  qed
qed

lemma entry_sizes_zeros [simp]: "entry_sizes (replicate m zero_entry) = replicate m 0"
  by (simp add: entry_sizes_def zero_entry_def)

text \<open>\<open>aesd_circular_buffer_find_entry_offset_for_fpos\<close> computes \<open>locate\<close>.\<close>

lemma find_entry_locate:
  assumes inv: "cb_inv b" and small: "sum_list (entry_sizes (cb_list b)) < 2 ^ 64"
  shows "aesd_circular_buffer_find_entry_offset_for_fpos b off =
    Inr (map_option (ring_position (unat (out_offs b)))
      (locate (entry_sizes (cb_list b)) (unat off)))"
proof -
  note b = cb_invD [OF inv]
  let ?p = "unat (out_offs b)"
  define n where "n = (if in_offs b = out_offs b then 10 else cb_count b)"
  have sizes: "locate (entry_sizes (ring_slice b ?p n)) = locate (entry_sizes (cb_list b))"
    "sum_list (entry_sizes (ring_slice b ?p n)) = sum_list (entry_sizes (cb_list b))"
    using ring_slice_all [OF inv]
    by (auto simp: n_def cb_list_def fun_eq_iff sum_list_replicate)
  have "unat (in_offs b) = (?p + n) mod 10 \<and> n \<le> 10 \<and> n \<noteq> 0"
  proof (cases "in_offs b = out_offs b")
    case True
    then show ?thesis using b(3) by (simp add: n_def)
  next
    case False
    then have "\<not> full b" using b(4) by blast
    moreover from this have "?p = 0" using b(5) by simp
    ultimately have "\<not> full b" "?p = 0" by simp_all
    with False b(2) show ?thesis by (auto simp: n_def cb_count_def word_unat_eq_iff)
  qed
  then have "find_loop b off (of_nat (unat (in_offs b))) (of_nat ?p) True 0 =
    Some (Inr (map_option (ring_position ?p)
      (locate (entry_sizes (ring_slice b ?p n)) (unat off - unat (0 :: size_t)))))"
    using b(1,3) small sizes(2) by (intro find_loop_locate) simp_all
  then show ?thesis
    by (simp add: aesd_circular_buffer_find_entry_offset_for_fpos_def sizes(1))
qed

section \<open>The total length\<close>

lemma foreach_size_eq:
  assumes "length (entry b) = 10" and "i \<le> 10"
  shows "foreach_size b (of_nat i) t = Inr (t + sum_list (map esize (drop i (entry b))))"
  using assms
proof (induction "10 - i" arbitrary: i t)
  case 0
  then show ?case by (subst foreach_size.simps) simp
next
  case (Suc m)
  then have i: "i < 10" by simp
  then have u: "unat (of_nat i :: u8) = i" by (intro unat_of_nat_small) simp
  have "foreach_size b (of_nat i + 1) (t + esize (entry b ! i)) =
    Inr (t + esize (entry b ! i) + sum_list (map esize (drop (Suc i) (entry b))))"
    using Suc.hyps(1) [of "Suc i"] Suc.hyps(2) Suc.prems(1) i by (simp add: add.commute)
  moreover have "drop i (entry b) = entry b ! i # drop (Suc i) (entry b)"
    using Suc.prems(1) i by (simp add: Cons_nth_drop_Suc)
  ultimately show ?case
    using i u Suc.prems(1)
    by (subst foreach_size.simps) (simp add: word_less_nat_alt entry_at_ok add.assoc)
qed

lemma unat_sum_list_small:
  fixes ws :: "'a::len word list"
  shows "sum_list (map unat ws) < 2 ^ LENGTH('a) \<Longrightarrow>
    unat (sum_list ws) = sum_list (map unat ws)"
  by (induction ws) (simp_all add: unat_add_small)

lemma sum_list_rotate: "sum_list (rotate n xs) = sum_list xs" for xs :: "'a::comm_monoid_add list"
  by (metis rotate_drop_take sum_list_append add.commute append_take_drop_id)

lemma get_length_eq:
  assumes inv: "cb_inv b"
  shows "get_length_of_all_entries_in_buffer b = Inr (sum_list (map esize (cb_list b)))"
proof -
  note b = cb_invD [OF inv]
  have "get_length_of_all_entries_in_buffer b = Inr (sum_list (map esize (entry b)))"
    using foreach_size_eq [of b 0 0] b(1)
    by (simp add: get_length_of_all_entries_in_buffer_def)
  also have "sum_list (map esize (entry b)) =
    sum_list (map esize (rotate (unat (out_offs b)) (entry b)))"
    by (simp add: rotate_map [symmetric] sum_list_rotate)
  also have "\<dots> = sum_list (map esize (cb_list b))"
    using b(1,3) ring_slice_all [OF inv]
    by (simp add: ring_slice_rotate [symmetric] zero_entry_def sum_list_replicate)
  finally show ?thesis .
qed

lemma get_length_unat:
  assumes "cb_inv b" and "sum_list (entry_sizes (cb_list b)) < 2 ^ 64"
  shows "\<exists>t. get_length_of_all_entries_in_buffer b = Inr t \<and>
    unat t = sum_list (entry_sizes (cb_list b))"
proof -
  have "map unat (map esize (cb_list b)) = entry_sizes (cb_list b)"
    by (simp add: entry_sizes_def)
  with assms show ?thesis
    using unat_sum_list_small [of "map esize (cb_list b)"]
    by (simp add: get_length_eq)
qed

section \<open>Entries by address\<close>

lemma entry_address_inj:
  assumes "i < 10" and "j < 10" and "entry_address p i = entry_address p j"
  shows "i = j"
proof -
  have u: "unat (16 * k) = 16 * unat k" if "k < 10" for k :: size_t
  proof -
    have "unat k < 10" using that by (simp add: word_less_nat_alt)
    then show ?thesis by (simp add: unat_word_ariths)
  qed
  have "unat (16 * i) = unat (16 * j)"
    using assms(3) by (simp add: entry_address_def)
  with u [OF assms(1)] u [OF assms(2)] show ?thesis
    by (simp add: word_unat_eq_iff)
qed

lemma index_loop_eq:
  assumes "unat i < 10" and "unat j \<le> unat i"
  shows "index_loop (entry_address p i) p j = i"
  using assms
proof (induction "unat i - unat j" arbitrary: j)
  case 0
  then have "j = i" by (simp add: word_unat_eq_iff)
  with 0 show ?case by (subst index_loop.simps) (simp add: word_less_nat_alt)
next
  case (Suc m)
  then have j: "unat j < 10" "j \<noteq> i" by auto
  then have "unat (j + 1) = Suc (unat j)"
    by (intro unat_Suc_bounded [of _ 10]) (simp add: word_less_nat_alt)
  moreover have "entry_address p i \<noteq> entry_address p j"
    using entry_address_inj [of i j p] j Suc.prems(1) by (auto simp: word_less_nat_alt)
  ultimately show ?case
    using Suc.hyps j Suc.prems(1)
    by (subst index_loop.simps) (simp add: word_less_nat_alt)
qed

lemma get_index_eq: "i < 10 \<Longrightarrow> get_index_of_current_entry (entry_address p i) p = i"
  by (simp add: get_index_of_current_entry_def index_loop_eq word_less_nat_alt)

section \<open>The contract of a bounded history\<close>

text \<open>
  What the driver relies on: adding an element to a history of capacity \<open>cap\<close> keeps
  the last \<open>cap\<close> elements and hands back the key of the one that is dropped. A run of
  additions then loses no key: every key added is handed back or still held, in order.
\<close>

fun add_run :: "('h \<Rightarrow> 'e \<Rightarrow> ('k \<times> 'h) res) \<Rightarrow> 'h \<Rightarrow> 'e list \<Rightarrow> ('k list \<times> 'h) res" where
  "add_run add h [] = Inr ([], h)"
| "add_run add h (e # es) =
     bindE (add h e) (\<lambda>(k, h). bindE (add_run add h es) (\<lambda>(ks, h). Inr (k # ks, h)))"

locale bounded_history =
  fixes add :: "'h \<Rightarrow> 'e \<Rightarrow> ('k \<times> 'h) res"
    and contents :: "'h \<Rightarrow> 'e list"
    and inv :: "'h \<Rightarrow> bool"
    and key :: "'e \<Rightarrow> 'k"
    and no_key :: 'k
    and cap :: nat
  assumes cap_pos: "0 < cap"
    and bounded: "inv h \<Longrightarrow> length (contents h) \<le> cap"
    and add_law: "inv h \<Longrightarrow> \<exists>h'. inv h' \<and> contents h' = lastn cap (contents h @ [e]) \<and>
      add h e = Inr (if length (contents h) = cap then key (hd (contents h)) else no_key, h')"
begin

lemma run_contents:
  "inv h \<Longrightarrow> \<exists>ks h'. add_run add h es = Inr (ks, h') \<and> inv h' \<and>
    contents h' = lastn cap (contents h @ es)"
proof (induction es arbitrary: h)
  case Nil
  then show ?case using bounded by simp
next
  case (Cons e es)
  obtain k h' where h': "inv h'" "contents h' = lastn cap (contents h @ [e])"
    "add h e = Inr (k, h')"
    using add_law [OF Cons.prems] by blast
  from Cons.IH [OF h'(1)] show ?case
    using h' by (auto simp: lastn_append_lastn)
qed

lemma run_conserves:
  assumes "inv h" and "no_key \<notin> key ` set (contents h @ es)"
  shows "\<exists>ks h'. add_run add h es = Inr (ks, h') \<and>
    filter (\<lambda>k. k \<noteq> no_key) ks @ map key (contents h') = map key (contents h @ es)"
  using assms
proof (induction es arbitrary: h)
  case Nil
  then show ?case by simp
next
  case (Cons e es)
  let ?k = "if length (contents h) = cap then key (hd (contents h)) else no_key"
  obtain h' where h': "inv h'" "contents h' = lastn cap (contents h @ [e])"
    "add h e = Inr (?k, h')"
    using add_law [OF Cons.prems(1)] by blast
  have "no_key \<notin> key ` set (contents h' @ es)"
    using Cons.prems(2) set_lastn_subset [of cap "contents h @ [e]"] h'(2) by auto
  from Cons.IH [OF h'(1) this] obtain ks h'' where run: "add_run add h' es = Inr (ks, h'')"
    and keys: "filter (\<lambda>k. k \<noteq> no_key) ks @ map key (contents h'') =
      map key (contents h' @ es)"
    by blast
  have "filter (\<lambda>k. k \<noteq> no_key) [?k] @ map key (contents h') = map key (contents h @ [e])"
  proof (cases "length (contents h) = cap")
    case True
    with cap_pos obtain c cs where "contents h = c # cs" by (cases "contents h") auto
    with True Cons.prems(2) show ?thesis
      using lastn_snoc_full [OF True cap_pos, of e] h'(2) by auto
  next
    case False
    with bounded [OF Cons.prems(1)] h'(2) show ?thesis by simp
  qed
  with keys have "filter (\<lambda>k. k \<noteq> no_key) (?k # ks) @ map key (contents h'') =
    map key (contents h @ e # es)"
    by (simp split: if_splits)
  with run h'(3) show ?case by (auto simp del: filter.simps)
qed

end

lemma cb_full_iff: "cb_inv b \<Longrightarrow> full b \<longleftrightarrow> cb_count b = 10"
  by (auto simp: cb_count_def dest: cb_invD(2))

interpretation ring: bounded_history aesd_circular_buffer_add_entry cb_list cb_inv buffptr NULL 10
proof unfold_locales
  fix b e assume "cb_inv b"
  then show "\<exists>b'. cb_inv b' \<and> cb_list b' = lastn 10 (cb_list b @ [e]) \<and>
    aesd_circular_buffer_add_entry b e =
      Inr (if length (cb_list b) = 10 then buffptr (hd (cb_list b)) else NULL, b')"
    by (auto simp: add_entry_eq cb_list_push cb_inv_push add_entry_returns cb_full_iff)
qed (simp_all add: cb_count_le)

section \<open>Properties\<close>

text \<open>
  C1: On a well-formed buffer \<open>aesd_circular_buffer_add_entry\<close> never leaves the array;
  it keeps the invariant, the commands held afterwards are the last ten of the old ones
  followed by the new one, and it returns the pointer of the command that is dropped, or
  NULL when none is.
\<close>

theorem add_entry_keeps_last_ten:
  assumes "cb_inv b"
  shows "\<exists>b'. aesd_circular_buffer_add_entry b e =
      Inr (if full b then buffptr (hd (cb_list b)) else NULL, b') \<and>
    cb_inv b' \<and> cb_list b' = lastn 10 (cb_list b @ [e])"
  using ring.add_law [OF assms, of e] assms by (auto simp: cb_full_iff)

definition full_buffer :: aesd_circular_buffer where
  "full_buffer = \<lparr>entry = map (\<lambda>p. \<lparr>buffptr = p, esize = 2\<rparr>)
       [100, 101, 102, 103, 104, 105, 106, 107, 108, 109],
     in_offs = 3, out_offs = 3, full = True\<rparr>"

lemma cb_inv_full_buffer: "cb_inv full_buffer"
  by (simp add: full_buffer_def cb_inv_def)

lemma cb_list_full_buffer:
  "cb_list full_buffer = map (\<lambda>p. \<lparr>buffptr = p, esize = 2\<rparr>)
    [103, 104, 105, 106, 107, 108, 109, 100, 101, 102]"
  by (simp add: full_buffer_def cb_list_def cb_count_def ring_slice_def upt_rec)

theorem add_entry_keeps_last_ten_witness:
  "\<exists>b'. aesd_circular_buffer_add_entry full_buffer \<lparr>buffptr = 200, esize = 7\<rparr> = Inr (103, b') \<and>
    map buffptr (cb_list b') = [104, 105, 106, 107, 108, 109, 100, 101, 102, 200]"
  using add_entry_keeps_last_ten [OF cb_inv_full_buffer, of "\<lparr>buffptr = 200, esize = 7\<rparr>"]
  by (auto simp: cb_list_full_buffer lastn_def) (simp add: full_buffer_def)

text \<open>
  C27: Any sequence of additions to an empty buffer succeeds, and no allocated command is
  lost or returned twice: the non-NULL pointers returned, in order, followed by the
  pointers still held, are exactly the pointers that were added.
\<close>

theorem add_sequence_conserves_pointers:
  assumes "NULL \<notin> buffptr ` set es"
  shows "\<exists>freed b. add_run aesd_circular_buffer_add_entry aesd_circular_buffer_init es =
      Inr (freed, b) \<and>
    filter (\<lambda>p. p \<noteq> NULL) freed @ map buffptr (cb_list b) = map buffptr es"
  using ring.run_conserves [of aesd_circular_buffer_init es] assms by simp

theorem add_sequence_conserves_pointers_witness:
  "\<exists>freed b. add_run aesd_circular_buffer_add_entry aesd_circular_buffer_init
      (map (\<lambda>p. \<lparr>buffptr = p, esize = 1\<rparr>) [16, 32]) = Inr (freed, b) \<and>
    filter (\<lambda>p. p \<noteq> NULL) freed @ map buffptr (cb_list b) = [16, 32]"
  using add_sequence_conserves_pointers
    [of "map (\<lambda>p. \<lparr>buffptr = p, esize = 1\<rparr>) [16, 32]"] by simp

text \<open>
  C2: \<open>aesd_circular_buffer_find_entry_offset_for_fpos\<close> always returns. For an offset
  inside the commands held it returns the array index of the command that contains it and
  the offset within that command; from the end on it returns NULL.
\<close>

theorem find_entry_offset_correct:
  assumes inv: "cb_inv b" and small: "sum_list (entry_sizes (cb_list b)) < 2 ^ 64"
  shows "if unat off < sum_list (entry_sizes (cb_list b)) then
      \<exists>k r. aesd_circular_buffer_find_entry_offset_for_fpos b off =
          Inr (Some (of_nat ((unat (out_offs b) + k) mod 10), r)) \<and>
        k < cb_count b \<and> unat r < unat (esize (cb_list b ! k)) \<and>
        unat off = sum_list (entry_sizes (take k (cb_list b))) + unat r
    else aesd_circular_buffer_find_entry_offset_for_fpos b off = Inr None"
proof (cases "locate (entry_sizes (cb_list b)) (unat off)")
  case None
  then show ?thesis
    by (simp add: find_entry_locate [OF inv small] locate_None_iff)
next
  case (Some kr)
  then obtain k r where kr: "kr = (k, r)" by (cases kr)
  with Some have *: "k < cb_count b" "r < unat (esize (cb_list b ! k))"
    "unat off = sum_list (entry_sizes (take k (cb_list b))) + r"
    by (auto dest!: locate_SomeD simp: entry_sizes_def take_map)
  then have "unat (of_nat r :: size_t) = r"
    by (intro unat_of_nat_small) (rule less_trans [OF _ unsigned_less])
  moreover have "unat off < sum_list (entry_sizes (cb_list b))"
    using Some locate_None_iff [of "entry_sizes (cb_list b)" "unat off"] by auto
  ultimately show ?thesis
    using * Some kr by (auto simp: find_entry_locate [OF inv small] ring_position_def)
qed

theorem find_entry_offset_correct_witness:
  "\<exists>k r. aesd_circular_buffer_find_entry_offset_for_fpos full_buffer 5 =
      Inr (Some (of_nat ((3 + k) mod 10), r)) \<and>
    k < 10 \<and> unat r < 2 \<and> 5 = sum_list (entry_sizes (take k (cb_list full_buffer))) + unat r"
proof -
  have sizes: "sum_list (entry_sizes (cb_list full_buffer)) = 20"
    by (simp add: cb_list_full_buffer)
  have "\<exists>k r. aesd_circular_buffer_find_entry_offset_for_fpos full_buffer 5 =
      Inr (Some (of_nat ((unat (out_offs full_buffer) + k) mod 10), r)) \<and>
    k < cb_count full_buffer \<and> unat r < unat (esize (cb_list full_buffer ! k)) \<and>
    unat (5 :: size_t) = sum_list (entry_sizes (take k (cb_list full_buffer))) + unat r"
    using find_entry_offset_correct [OF cb_inv_full_buffer, of 5] by (simp add: sizes)
  moreover have "\<forall>e \<in> set (cb_list full_buffer). esize e = 2"
    by (simp add: cb_list_full_buffer)
  then have "esize (cb_list full_buffer ! k) = 2" if "k < cb_count full_buffer" for k
    using that by simp
  moreover have "cb_count full_buffer = 10" "unat (out_offs full_buffer) = 3"
    by (simp_all add: full_buffer_def cb_count_def)
  ultimately show ?thesis by fastforce
qed

text \<open>
  \<open>get_length_of_all_entries_in_buffer\<close> never leaves the array and returns the sum
  of the sizes of the commands held, the unused entries adding nothing.
\<close>

theorem get_length_is_sum:
  assumes "cb_inv b" and "sum_list (entry_sizes (cb_list b)) < 2 ^ 64"
  shows "\<exists>t. get_length_of_all_entries_in_buffer b = Inr t \<and>
    unat t = sum_list (entry_sizes (cb_list b))"
  by (rule get_length_unat [OF assms])

theorem get_length_is_sum_witness:
  "\<exists>t. get_length_of_all_entries_in_buffer full_buffer = Inr t \<and> unat t = 20"
  using get_length_is_sum [OF cb_inv_full_buffer] by (simp add: cb_list_full_buffer)

text \<open>
  \<open>get_next_entry_in_buffer\<close> applied to the address of entry \<open>i\<close> gives the address
  of the next entry in ring order, the first one after the last.
\<close>

theorem get_next_entry_cycles:
  assumes "i < 10"
  shows "get_next_entry_in_buffer (entry_address p i) p =
    entry_address p (if i = 9 then 0 else i + 1)"
  using assms by (auto simp: get_next_entry_in_buffer_def get_index_eq Let_def)

theorem get_next_entry_cycles_witness:
  "get_next_entry_in_buffer (entry_address 4096 9) 4096 = 4096"
  using get_next_entry_cycles [of 9 4096] by (simp add: entry_address_def)

end
