(* ===== verification/Kernel_Interface.thy ===== *)
theory Kernel_Interface
  imports Circular_Buffer
begin

text \<open>
  What the driver sees of the kernel: the memory that \<open>kmalloc\<close> hands out, the memory of
  the calling process, and the kernel functions the driver calls. The functions are not
  part of the repository: they are the fields of a record, an argument of the driver's
  definitions, and \<open>kernel_ok\<close> states their documented behaviour.
\<close>

section \<open>Memory\<close>

text \<open>
  The kernel heap maps the base address of an allocated block to its contents: bytes, or
  one of the two structures the driver allocates.
\<close>

datatype kobj =
    Bytes "byte list"
  | EntryObj aesd_buffer_entry
  | RingObj aesd_circular_buffer

type_synonym kheap = "ptr \<Rightarrow> kobj option"

type_synonym umem = "ptr \<Rightarrow> byte option"

definition get_bytes :: "kheap \<Rightarrow> ptr \<Rightarrow> byte list res" where
  "get_bytes h p = (case h p of Some (Bytes bs) \<Rightarrow> Inr bs | _ \<Rightarrow> Inl BadPointer)"

definition get_entry :: "kheap \<Rightarrow> ptr \<Rightarrow> aesd_buffer_entry res" where
  "get_entry h p = (case h p of Some (EntryObj e) \<Rightarrow> Inr e | _ \<Rightarrow> Inl BadPointer)"

definition get_ring :: "kheap \<Rightarrow> ptr \<Rightarrow> aesd_circular_buffer res" where
  "get_ring h p = (case h p of Some (RingObj b) \<Rightarrow> Inr b | _ \<Rightarrow> Inl BadPointer)"

text \<open>
  Writing all fields of a structure into a block of at least its size: 16 bytes for an
  entry, 168 for the circular buffer (ten entries, three bytes, padding).
\<close>

definition obj_fits :: "nat \<Rightarrow> kobj \<Rightarrow> bool" where
  "obj_fits n x = (case x of Bytes bs \<Rightarrow> n \<le> length bs | EntryObj _ \<Rightarrow> n \<le> 16 | RingObj _ \<Rightarrow> n \<le> 168)"

definition put_entry :: "kheap \<Rightarrow> ptr \<Rightarrow> aesd_buffer_entry \<Rightarrow> kheap res" where
  "put_entry h p e = (case h p of None \<Rightarrow> Inl BadPointer
     | Some x \<Rightarrow> if obj_fits 16 x then Inr (h(p \<mapsto> EntryObj e)) else Inl OutOfBounds)"

definition put_ring :: "kheap \<Rightarrow> ptr \<Rightarrow> aesd_circular_buffer \<Rightarrow> kheap res" where
  "put_ring h p b = (case h p of None \<Rightarrow> Inl BadPointer
     | Some x \<Rightarrow> if obj_fits 168 x then Inr (h(p \<mapsto> RingObj b)) else Inl OutOfBounds)"

text \<open>Reading and writing a range of a block of bytes.\<close>

definition rd_range :: "kheap \<Rightarrow> ptr \<Rightarrow> nat \<Rightarrow> nat \<Rightarrow> byte list res" where
  "rd_range h p off n = bindE (get_bytes h p) (\<lambda>bs.
     if off + n \<le> length bs then Inr (take n (drop off bs)) else Inl OutOfBounds)"

definition wr_range :: "kheap \<Rightarrow> ptr \<Rightarrow> nat \<Rightarrow> byte list \<Rightarrow> kheap res" where
  "wr_range h p off new = bindE (get_bytes h p) (\<lambda>bs.
     if off + length new \<le> length bs
     then Inr (h(p \<mapsto> Bytes (take off bs @ new @ drop (off + length new) bs)))
     else Inl OutOfBounds)"

text \<open>Ranges of the memory of the calling process.\<close>

definition user_at :: "umem \<Rightarrow> ptr \<Rightarrow> nat \<Rightarrow> byte option list" where
  "user_at um p n = map (\<lambda>i. um (p + of_nat i)) [0..<n]"

definition user_mapped :: "umem \<Rightarrow> ptr \<Rightarrow> nat \<Rightarrow> bool" where
  "user_mapped um p n \<longleftrightarrow> (\<forall>i \<in> {0..<n}. um (p + of_nat i) \<noteq> None)"

definition user_write :: "umem \<Rightarrow> ptr \<Rightarrow> byte list \<Rightarrow> umem" where
  "user_write um p bs =
     (\<lambda>q. if unat (q - p) < length bs then Some (bs ! unat (q - p)) else um q)"

section \<open>Kernel functions\<close>

record kernel =
  kmalloc :: "kheap \<Rightarrow> size_t \<Rightarrow> ptr \<times> kheap"
  krealloc :: "kheap \<Rightarrow> ptr \<Rightarrow> size_t \<Rightarrow> ptr \<times> kheap"
  kfree :: "kheap \<Rightarrow> ptr \<Rightarrow> kheap"
  copy_from_user :: "umem \<Rightarrow> ptr \<Rightarrow> size_t \<Rightarrow> byte list \<times> size_t"
    \<comment> \<open>the bytes stored, the number of bytes not copied\<close>
  copy_to_user :: "umem \<Rightarrow> ptr \<Rightarrow> byte list \<Rightarrow> umem \<times> size_t"
  device_addr :: ptr \<comment> \<open>address of the variable \<open>aesd_device\<close>\<close>
  cdev_offset :: ptr \<comment> \<open>offset of \<open>cdev\<close> in \<open>struct aesd_dev\<close>\<close>

text \<open>
  Documented behaviour. \<open>kmalloc\<close> of a positive size gives NULL or a block that was not
  allocated; \<open>krealloc\<close> of a block gives NULL and leaves the block, or moves its contents
  to a block of the new size; \<open>kfree\<close> releases a block and ignores NULL; the copy
  functions return the number of bytes they could not copy.
\<close>

definition kmalloc_ok :: "kernel \<Rightarrow> bool" where
  "kmalloc_ok K \<longleftrightarrow> (\<forall>h n p h'. n \<noteq> 0 \<longrightarrow> kmalloc K h n = (p, h') \<longrightarrow>
     (p = NULL \<and> h' = h) \<or>
     (p \<noteq> NULL \<and> h p = None \<and> (\<exists>bs. length bs = unat n \<and> h' = h(p \<mapsto> Bytes bs))))"

definition krealloc_ok :: "kernel \<Rightarrow> bool" where
  "krealloc_ok K \<longleftrightarrow> (\<forall>h n p q h' bs. n \<noteq> 0 \<longrightarrow> p \<noteq> NULL \<longrightarrow> h p = Some (Bytes bs) \<longrightarrow>
     krealloc K h p n = (q, h') \<longrightarrow>
     (q = NULL \<and> h' = h) \<or>
     (q \<noteq> NULL \<and> (q = p \<or> h q = None) \<and>
       (\<exists>bs'. length bs' = unat n \<and>
          take (length bs) bs' = take (unat n) bs \<and>
          h' = (h(p := None))(q \<mapsto> Bytes bs'))))"

definition kfree_ok :: "kernel \<Rightarrow> bool" where
  "kfree_ok K \<longleftrightarrow> (\<forall>h. kfree K h NULL = h) \<and>
     (\<forall>h p. p \<noteq> NULL \<longrightarrow> h p \<noteq> None \<longrightarrow> kfree K h p = h(p := None))"

definition copy_user_ok :: "kernel \<Rightarrow> bool" where
  "copy_user_ok K \<longleftrightarrow>
     (\<forall>um p n bs left. copy_from_user K um p n = (bs, left) \<longrightarrow>
        length bs = unat n \<and> (left = 0 \<longleftrightarrow> user_mapped um p (unat n)) \<and>
        (left = 0 \<longrightarrow> map Some bs = user_at um p (unat n))) \<and>
     (\<forall>um p bs. user_mapped um p (length bs) \<longrightarrow>
        copy_to_user K um p bs = (user_write um p bs, 0))"

definition kernel_ok :: "kernel \<Rightarrow> bool" where
  "kernel_ok K \<longleftrightarrow> kmalloc_ok K \<and> krealloc_ok K \<and> kfree_ok K \<and> copy_user_ok K"

text \<open>
  The allocator has room for \<open>N\<close> blocks: it does not fail while fewer are allocated.
\<close>

definition kernel_room :: "kernel \<Rightarrow> nat \<Rightarrow> bool" where
  "kernel_room K N \<longleftrightarrow> (\<forall>h n. n \<noteq> 0 \<longrightarrow> card (dom h) < N \<longrightarrow>
     fst (kmalloc K h n) \<noteq> NULL \<and> (\<forall>p. p \<noteq> NULL \<longrightarrow> h p \<noteq> None \<longrightarrow> fst (krealloc K h p n) \<noteq> NULL))"

text \<open>\<open>kfree\<close> as called by the driver: releasing what is not allocated is a fault.\<close>

definition do_kfree :: "kernel \<Rightarrow> kheap \<Rightarrow> ptr \<Rightarrow> kheap res" where
  "do_kfree K h p =
     (if p \<noteq> NULL \<and> h p = None then Inl BadFree else Inr (kfree K h p))"

section \<open>Lemmas\<close>

named_theorems heap_simps \<open>typed access to the kernel heap\<close>

lemma get_bytes_Inr [heap_simps]: "get_bytes h p = Inr bs \<longleftrightarrow> h p = Some (Bytes bs)"
  by (auto simp: get_bytes_def split: option.splits kobj.splits)

lemma get_entry_Inr [heap_simps]: "get_entry h p = Inr e \<longleftrightarrow> h p = Some (EntryObj e)"
  by (auto simp: get_entry_def split: option.splits kobj.splits)

lemma get_ring_Inr [heap_simps]: "get_ring h p = Inr b \<longleftrightarrow> h p = Some (RingObj b)"
  by (auto simp: get_ring_def split: option.splits kobj.splits)

lemma put_entry_ok [heap_simps]:
  "h p = Some (EntryObj e) \<Longrightarrow> put_entry h p e' = Inr (h(p \<mapsto> EntryObj e'))"
  "h p = Some (Bytes bs) \<Longrightarrow> 16 \<le> length bs \<Longrightarrow> put_entry h p e' = Inr (h(p \<mapsto> EntryObj e'))"
  by (simp_all add: put_entry_def obj_fits_def)

lemma put_ring_ok [heap_simps]:
  "h p = Some (RingObj b) \<Longrightarrow> put_ring h p b' = Inr (h(p \<mapsto> RingObj b'))"
  "h p = Some (Bytes bs) \<Longrightarrow> 168 \<le> length bs \<Longrightarrow> put_ring h p b' = Inr (h(p \<mapsto> RingObj b'))"
  by (simp_all add: put_ring_def obj_fits_def)

lemma rd_range_ok [heap_simps]:
  "h p = Some (Bytes bs) \<Longrightarrow> off + n \<le> length bs \<Longrightarrow>
    rd_range h p off n = Inr (take n (drop off bs))"
  by (simp add: rd_range_def get_bytes_def)

lemma wr_range_ok [heap_simps]:
  "h p = Some (Bytes bs) \<Longrightarrow> off + length new \<le> length bs \<Longrightarrow>
    wr_range h p off new =
      Inr (h(p \<mapsto> Bytes (take off bs @ new @ drop (off + length new) bs)))"
  by (simp add: wr_range_def get_bytes_def)

lemma kmalloc_cases:
  assumes "kernel_ok K" and "n \<noteq> 0" and "kernel_room K N" and "card (dom h) < N"
  obtains p bs where "kmalloc K h n = (p, h(p \<mapsto> Bytes bs))" "p \<noteq> NULL" "h p = None"
    "length bs = unat n"
proof -
  obtain p h' where ph: "kmalloc K h n = (p, h')" by force
  moreover from this have "p \<noteq> NULL"
    using assms by (auto simp: kernel_room_def dest!: spec [of _ h])
  ultimately show thesis
    using assms(1,2) that unfolding kernel_ok_def kmalloc_ok_def by blast
qed

lemma krealloc_cases:
  assumes "kernel_ok K" and "n \<noteq> 0" and "kernel_room K N" and "card (dom h) < N"
    and "h p = Some (Bytes bs)" and "length bs \<le> unat n" and "p \<noteq> NULL"
  obtains q rest where "krealloc K h p n = (q, (h(p := None))(q \<mapsto> Bytes (bs @ rest)))"
    "q \<noteq> NULL" "q = p \<or> h q = None" "length bs + length rest = unat n"
proof -
  obtain q h' where qh: "krealloc K h p n = (q, h')" by force
  moreover from this have "q \<noteq> NULL"
    using assms by (force simp: kernel_room_def dest!: spec [of _ h])
  ultimately obtain bs' where bs': "length bs' = unat n" "take (length bs) bs' = take (unat n) bs"
    "h' = (h(p := None))(q \<mapsto> Bytes bs')" "q = p \<or> h q = None"
    using assms(1,2,5,7) unfolding kernel_ok_def krealloc_ok_def by blast
  have "bs' = bs @ drop (length bs) bs'"
    using bs'(2) assms(6) by (metis append_take_drop_id take_all)
  with bs' qh \<open>q \<noteq> NULL\<close> assms(6) show thesis
    by (intro that [of q "drop (length bs) bs'"]) auto
qed

lemma kfree_eq:
  assumes "kernel_ok K"
  shows "kfree K h NULL = h" and "p \<noteq> NULL \<Longrightarrow> h p \<noteq> None \<Longrightarrow> kfree K h p = h(p := None)"
  using assms by (auto simp: kernel_ok_def kfree_ok_def)

lemma copy_from_user_mapped:
  assumes "kernel_ok K" and "user_at um p (unat n) = map Some bs"
  shows "copy_from_user K um p n = (bs, 0)"
proof -
  have mapped: "user_mapped um p (unat n)"
    unfolding user_mapped_def
  proof
    fix i assume i: "i \<in> {0..<unat n}"
    then have "um (p + of_nat i) = map Some bs ! i"
      using assms(2) [symmetric] by (simp add: user_at_def)
    moreover have "i < length bs"
      using arg_cong [OF assms(2), of length] i by (simp add: user_at_def)
    ultimately show "um (p + of_nat i) \<noteq> None" by simp
  qed
  obtain bs' left where c: "copy_from_user K um p n = (bs', left)" by force
  with assms(1) mapped have "left = 0" and "map Some bs' = map Some bs"
    using assms(2) unfolding kernel_ok_def copy_user_ok_def by metis+
  with c show ?thesis by (simp add: inj_map_eq_map)
qed

lemma copy_to_user_mapped:
  "kernel_ok K \<Longrightarrow> user_mapped um p (length bs) \<Longrightarrow>
    copy_to_user K um p bs = (user_write um p bs, 0)"
  by (simp add: kernel_ok_def copy_user_ok_def)

text \<open>What was written is read back.\<close>

lemma user_at_write:
  assumes "length bs < 2 ^ 64"
  shows "user_at (user_write um p bs) p (length bs) = map Some bs"
proof (rule nth_equalityI)
  fix i assume "i < length (user_at (user_write um p bs) p (length bs))"
  then have i: "i < length bs" by (simp add: user_at_def)
  then have "unat (of_nat i :: size_t) = i"
    using assms by (intro unat_of_nat_small) simp
  with i show "user_at (user_write um p bs) p (length bs) ! i = map Some bs ! i"
    by (simp add: user_at_def user_write_def)
qed (simp add: user_at_def)

lemma card_dom_upd: "card (dom (h(p \<mapsto> x))) \<le> Suc (card (dom h))" for h :: "ptr \<Rightarrow> 'v option"
  by (simp add: card_insert_if)

lemma card_dom_same: "h p \<noteq> None \<Longrightarrow> dom (h(p \<mapsto> x)) = dom h"
  by (auto simp: domIff)

lemma card_dom_del: "card (dom (h(p := None))) \<le> card (dom h)" for h :: "ptr \<Rightarrow> 'v option"
  by (cases "finite (dom h)") (auto intro: card_mono)

lemma kernel_room_mono: "kernel_room K N \<Longrightarrow> M \<le> N \<Longrightarrow> kernel_room K M"
  by (auto simp: kernel_room_def)

section \<open>A concrete kernel\<close>

text \<open>
  The laws can hold: a kernel that takes the first free one of 32 addresses, reallocates in
  place and copies all or nothing.
\<close>

definition block_addrs :: "ptr list" where
  "block_addrs = map (\<lambda>i. 4096 * of_nat (Suc i)) [0..<32]"

definition first_free :: "kheap \<Rightarrow> ptr" where
  "first_free h = (case find (\<lambda>p. h p = None) block_addrs of None \<Rightarrow> NULL | Some p \<Rightarrow> p)"

definition first_fit_kernel :: kernel where
  "first_fit_kernel = \<lparr>
     kmalloc = (\<lambda>h n. let p = first_free h in
       if p = NULL then (NULL, h) else (p, h(p \<mapsto> Bytes (replicate (unat n) 0)))),
     krealloc = (\<lambda>h p n. case h p of
         Some (Bytes bs) \<Rightarrow>
           (p, h(p \<mapsto> Bytes (take (unat n) bs @ replicate (unat n - length bs) 0)))
       | _ \<Rightarrow> (p, h)),
     kfree = (\<lambda>h p. if p = NULL then h else h(p := None)),
     copy_from_user = (\<lambda>um p n. if user_mapped um p (unat n)
       then (map the (user_at um p (unat n)), 0) else (replicate (unat n) 0, n)),
     copy_to_user = (\<lambda>um p bs. if user_mapped um p (length bs)
       then (user_write um p bs, 0) else (um, of_nat (length bs))),
     device_addr = 256, cdev_offset = 64\<rparr>"

lemma first_free_cases:
  "first_free h = NULL \<and> (\<forall>p \<in> set block_addrs. h p \<noteq> None) \<or>
    first_free h \<noteq> NULL \<and> h (first_free h) = None"
proof (cases "find (\<lambda>p. h p = None) block_addrs")
  case None
  moreover from this have "\<forall>p \<in> set block_addrs. h p \<noteq> None"
    by (simp add: find_None_iff)
  ultimately show ?thesis by (simp add: first_free_def)
next
  case (Some p)
  then have "h p = None" "p \<in> set block_addrs"
    by (auto simp: find_Some_iff)
  moreover have "NULL \<notin> set block_addrs" by code_simp
  moreover have "first_free h = p" using Some by (simp add: first_free_def)
  ultimately show ?thesis by auto
qed

lemma first_free_room:
  assumes "card (dom h) < 32"
  shows "first_free h \<noteq> NULL"
proof
  assume "first_free h = NULL"
  with first_free_cases [of h] have "set block_addrs \<subseteq> dom h" by auto
  then have "card (set block_addrs) \<le> card (dom h)" by (intro card_mono) auto
  moreover have "distinct block_addrs" "length block_addrs = 32" by code_simp+
  ultimately show False using assms by (simp add: distinct_card)
qed

lemma first_fit_kernel_ok: "kernel_ok first_fit_kernel"
proof -
  have "kmalloc_ok first_fit_kernel"
    using first_free_cases
    by (auto simp: kmalloc_ok_def first_fit_kernel_def Let_def intro!: exI [of _ "replicate _ _"])
  moreover have "krealloc_ok first_fit_kernel"
  proof -
    have "length (take m bs @ replicate (m - length bs) 0) = m"
      "take (length bs) (take m bs @ replicate (m - length bs) (0::byte)) = take m bs"
      for m and bs :: "byte list"
      by (auto simp: min_def)
    then show ?thesis
      unfolding krealloc_ok_def first_fit_kernel_def
      by (simp del: length_append take_append) blast
  qed
  moreover have "kfree_ok first_fit_kernel"
    by (auto simp: kfree_ok_def first_fit_kernel_def)
  moreover have "copy_user_ok first_fit_kernel"
  proof -
    have "map Some (map the (user_at um p n)) = user_at um p n" if "user_mapped um p n" for um p n
      using that by (auto simp: user_at_def user_mapped_def)
    moreover have "user_mapped um p 0" for um p by (simp add: user_mapped_def)
    ultimately show ?thesis
      by (auto simp: copy_user_ok_def first_fit_kernel_def user_at_def)
  qed
  ultimately show ?thesis by (simp add: kernel_ok_def)
qed

lemma first_fit_kernel_room: "N \<le> 32 \<Longrightarrow> kernel_room first_fit_kernel N"
  using first_free_room
  by (auto simp: kernel_room_def first_fit_kernel_def Let_def split: option.split kobj.split)

end
