(* ===== verification/Char_Driver.thy ===== *)
theory Char_Driver
  imports Kernel_Interface
begin

text \<open>
  The character device of \<open>aesd-char-driver/main.c\<close>: module start and exit, open, seek,
  read and write. A call is one step on the state of the module; the driver's debug output
  is compiled out.
\<close>

section \<open>State\<close>

record aesd_dev =
  lock :: bool \<comment> \<open>the mutex is held\<close>
  read_buf :: ptr
  circ_buf :: ptr

text \<open>
  The module and what it works on: the kernel heap, the memory of the calling process, the
  variable \<open>aesd_device\<close>, the major number, and whether the device number range and the
  character device are registered.
\<close>

record kstate =
  heap :: kheap
  user :: umem
  dev :: aesd_dev
  aesd_major :: u32
  region :: bool
  cdev_live :: bool

record struct_file =
  f_pos :: loff_t
  private_data :: ptr

definition EFAULT :: c_long where "EFAULT = 14"
definition EINVAL :: c_long where "EINVAL = 22"
definition ERESTARTSYS :: c_long where "ERESTARTSYS = 512"

text \<open>\<open>struct aesd_dev *dev = filp->private_data\<close>, dereferenced.\<close>

definition dev_of :: "kernel \<Rightarrow> struct_file \<Rightarrow> kstate \<Rightarrow> aesd_dev res" where
  "dev_of K filp s = (if private_data filp = device_addr K then Inr (dev s) else Inl BadPointer)"

definition ring_of :: "kernel \<Rightarrow> struct_file \<Rightarrow> kstate \<Rightarrow> aesd_circular_buffer res" where
  "ring_of K filp s = bindE (dev_of K filp s) (\<lambda>d. get_ring (heap s) (circ_buf d))"

section \<open>Locking\<close>

text \<open>
  \<open>mutex_lock_interruptible\<close>: a signal that arrives first makes it fail, a held lock
  makes it wait.
\<close>

definition mutex_lock_interruptible :: "bool \<Rightarrow> kstate \<Rightarrow> (bool \<times> kstate) res" where
  "mutex_lock_interruptible signalled s =
     (if signalled then Inr (True, s)
      else if lock (dev s) then Inl Blocked
      else Inr (False, s\<lparr>dev := (dev s)\<lparr>lock := True\<rparr>\<rparr>))"

definition mutex_unlock :: "kstate \<Rightarrow> kstate" where
  "mutex_unlock s = s\<lparr>dev := (dev s)\<lparr>lock := False\<rparr>\<rparr>"

section \<open>Open, release and seek\<close>

text \<open>\<open>container_of(inode->i_cdev, struct aesd_dev, cdev)\<close> subtracts the offset of the member.\<close>

definition aesd_open :: "kernel \<Rightarrow> ptr \<Rightarrow> struct_file \<Rightarrow> c_int \<times> struct_file" where
  "aesd_open K i_cdev filp = (0, filp\<lparr>private_data := i_cdev - cdev_offset K\<rparr>)"

definition aesd_release :: c_int where
  "aesd_release = 0"

text \<open>\<open>newpos\<close> is a \<open>size_t\<close>; the code compares it with 0 before it stores it.\<close>

definition aesd_llseek :: "kernel \<Rightarrow> kstate \<Rightarrow> struct_file \<Rightarrow> loff_t \<Rightarrow> c_int \<Rightarrow> (loff_t \<times> struct_file) res" where
  "aesd_llseek K s filp off whence =
     bindE
       (if whence = 0 then Inr (Some off)
        else if whence = 1 then Inr (Some (f_pos filp + off))
        else if whence = 2 then
          bindE (ring_of K filp s) (\<lambda>b.
          bindE (get_length_of_all_entries_in_buffer b) (\<lambda>len. Inr (Some (len + off))))
        else Inr None)
       (\<lambda>newpos. case newpos of
          None \<Rightarrow> Inr (- EINVAL, filp)
        | Some newpos \<Rightarrow>
            if newpos < 0 then Inr (- EINVAL, filp)
            else Inr (newpos, filp\<lparr>f_pos := newpos\<rparr>))"

section \<open>Read\<close>

text \<open>
  \<open>aesd_read\<close> with the position as \<open>*f_pos\<close>: the value returned, the new position and
  the new state. All comparisons are unsigned: \<open>count\<close> and the sizes are \<open>size_t\<close>.
\<close>

definition aesd_read ::
  "kernel \<Rightarrow> kstate \<Rightarrow> struct_file \<Rightarrow> ptr \<Rightarrow> size_t \<Rightarrow> loff_t \<Rightarrow> (ssize_t \<times> loff_t \<times> kstate) res" where
  "aesd_read K s filp buf count pos =
     bindE (ring_of K filp s) (\<lambda>b.
     bindE (get_length_of_all_entries_in_buffer b) (\<lambda>total.
     let count = (if total < count then total - pos else count) in
     if count = 0 then Inr (0, pos, s)
     else bindE (aesd_circular_buffer_find_entry_offset_for_fpos b pos) (\<lambda>found.
       case found of
         None \<Rightarrow> Inr (0, pos, s)
       | Some (i, entry_offset_byte_rtn) \<Rightarrow>
           bindE (entry_at b i) (\<lambda>temp_entry.
             let size_of_current_buffer = esize temp_entry;
                 bytes_to_copy = count;
                 bytes_to_copy =
                   (if size_of_current_buffer - entry_offset_byte_rtn < count
                    then size_of_current_buffer - entry_offset_byte_rtn else bytes_to_copy);
                 bytes_to_copy =
                   (if count < size_of_current_buffer - entry_offset_byte_rtn
                    then count else bytes_to_copy)
             in bindE (rd_range (heap s) (buffptr temp_entry) (unat entry_offset_byte_rtn)
                   (unat bytes_to_copy)) (\<lambda>bs.
                let (um, left) = copy_to_user K (user s) buf bs
                in Inr (bytes_to_copy, pos + bytes_to_copy, s\<lparr>user := um\<rparr>))))))"

text \<open>
  For the interleaving with other threads: \<open>aesd_read\<close> up to the call of \<open>copy_to_user\<close>, whose arguments it has then computed: the address
  of the command's block, the offset in it and the number of bytes; and the rest.
\<close>

definition read_locate ::
  "kernel \<Rightarrow> kstate \<Rightarrow> struct_file \<Rightarrow> size_t \<Rightarrow> loff_t \<Rightarrow> (ptr \<times> nat \<times> size_t) option res" where
  "read_locate K s filp count pos =
     bindE (ring_of K filp s) (\<lambda>b.
     bindE (get_length_of_all_entries_in_buffer b) (\<lambda>total.
     let count = (if total < count then total - pos else count) in
     if count = 0 then Inr None
     else bindE (aesd_circular_buffer_find_entry_offset_for_fpos b pos) (\<lambda>found.
       case found of
         None \<Rightarrow> Inr None
       | Some (i, entry_offset_byte_rtn) \<Rightarrow>
           bindE (entry_at b i) (\<lambda>temp_entry.
             let size_of_current_buffer = esize temp_entry;
                 bytes_to_copy = count;
                 bytes_to_copy =
                   (if size_of_current_buffer - entry_offset_byte_rtn < count
                    then size_of_current_buffer - entry_offset_byte_rtn else bytes_to_copy);
                 bytes_to_copy =
                   (if count < size_of_current_buffer - entry_offset_byte_rtn
                    then count else bytes_to_copy)
             in Inr (Some (buffptr temp_entry, unat entry_offset_byte_rtn, bytes_to_copy))))))"

definition read_deliver ::
  "kernel \<Rightarrow> kstate \<Rightarrow> ptr \<Rightarrow> loff_t \<Rightarrow> ptr \<times> nat \<times> size_t \<Rightarrow> (ssize_t \<times> loff_t \<times> kstate) res" where
  "read_deliver K s buf pos src = (case src of (p, off, bytes_to_copy) \<Rightarrow>
     bindE (rd_range (heap s) p off (unat bytes_to_copy)) (\<lambda>bs.
     let (um, left) = copy_to_user K (user s) buf bs
     in Inr (bytes_to_copy, pos + bytes_to_copy, s\<lparr>user := um\<rparr>)))"

text \<open>Without another thread in between the two parts are the function.\<close>

lemma aesd_read_parts:
  "aesd_read K s filp buf count pos =
    bindE (read_locate K s filp count pos) (\<lambda>found.
      case found of None \<Rightarrow> Inr (0, pos, s) | Some src \<Rightarrow> read_deliver K s buf pos src)"
  unfolding aesd_read_def read_locate_def bindE_assoc
  by (intro arg_cong2 [where f = bindE] refl ext)
    (auto simp: Let_def bindE_assoc read_deliver_def intro!: arg_cong2 [where f = bindE] ext
      split: option.split)

section \<open>Write\<close>

text \<open>\<open>if (dev->read_buf == 0)\<close>: a new entry for the command being collected.\<close>

definition write_new_entry :: "kernel \<Rightarrow> kstate \<Rightarrow> kstate res" where
  "write_new_entry K s =
     (if read_buf (dev s) = NULL then
        (let (p, h) = kmalloc K (heap s) 16;
             s = s\<lparr>heap := h, dev := (dev s)\<lparr>read_buf := p\<rparr>\<rparr>
         in bindE (put_entry (heap s) p zero_entry) (\<lambda>h. Inr (s\<lparr>heap := h\<rparr>)))
      else Inr s)"

text \<open>The block that holds the collected bytes is allocated or grown by \<open>count\<close>.\<close>

definition write_grow :: "kernel \<Rightarrow> kstate \<Rightarrow> size_t \<Rightarrow> kstate res" where
  "write_grow K s count =
     bindE (get_entry (heap s) (read_buf (dev s))) (\<lambda>e.
       if buffptr e = NULL then
         (let (p, h) = kmalloc K (heap s) count
          in bindE (put_entry h (read_buf (dev s)) (e\<lparr>buffptr := p, esize := 0\<rparr>)) (\<lambda>h.
             Inr (s\<lparr>heap := h\<rparr>)))
       else
         bindE (get_bytes (heap s) (buffptr e)) (\<lambda>_.
         let (p, h) = krealloc K (heap s) (buffptr e) (esize e + count)
         in bindE (put_entry h (read_buf (dev s)) (e\<lparr>buffptr := p\<rparr>)) (\<lambda>h.
            Inr (s\<lparr>heap := h\<rparr>))))"

text \<open>\<open>copy_from_user\<close> to the end of the collected bytes; the result is what is left.\<close>

definition write_copy_in :: "kernel \<Rightarrow> kstate \<Rightarrow> ptr \<Rightarrow> size_t \<Rightarrow> (size_t \<times> kstate) res" where
  "write_copy_in K s buf count =
     bindE (get_entry (heap s) (read_buf (dev s))) (\<lambda>e.
     let (bs, left) = copy_from_user K (user s) buf count
     in bindE (wr_range (heap s) (buffptr e) (unat (esize e)) bs) (\<lambda>h.
        Inr (left, s\<lparr>heap := h\<rparr>)))"

text \<open>
  The loop \<open>for (int i=0; i<count; i++)\<close> over the new bytes, which start at \<open>start\<close> in
  the block \<open>p\<close>; \<open>size++\<close> is done once per byte. The counter is an \<open>int\<close>.
\<close>

function write_scan :: "kstate \<Rightarrow> ptr \<Rightarrow> nat \<Rightarrow> nat \<Rightarrow> size_t \<Rightarrow> bool \<Rightarrow> (bool \<times> kstate) res" where
  "write_scan s p start i count terminated =
     (if i < unat count then
        bindE (rd_range (heap s) p (start + i) 1) (\<lambda>mychar.
        bindE (get_entry (heap s) (read_buf (dev s))) (\<lambda>e.
        bindE (put_entry (heap s) (read_buf (dev s)) (e\<lparr>esize := esize e + 1\<rparr>)) (\<lambda>h.
        bindE (guardE IntOverflow (i < 2147483647)) (\<lambda>_.
        write_scan (s\<lparr>heap := h\<rparr>) p start (Suc i) count
          (terminated \<or> mychar = [newline])))))
      else Inr (terminated, s))"
  by pat_completeness auto
termination
  by (relation "measure (\<lambda>(s, p, start, i, count, t). unat count - i)") auto

declare write_scan.simps [simp del]

text \<open>
  A terminated command moves into the circular buffer; what falls out is freed. Before that a
  loop with an \<open>int\<close> counter and an empty body runs over the bytes of the command.
\<close>

definition write_commit :: "kernel \<Rightarrow> kstate \<Rightarrow> kstate res" where
  "write_commit K s =
     bindE (get_entry (heap s) (read_buf (dev s))) (\<lambda>e.
     bindE (guardE IntOverflow (esize e \<le> 2147483647)) (\<lambda>_.
     bindE (get_ring (heap s) (circ_buf (dev s))) (\<lambda>b.
     bindE (aesd_circular_buffer_add_entry b e) (\<lambda>(to_free, b).
     bindE (put_ring (heap s) (circ_buf (dev s)) b) (\<lambda>h.
     bindE (if to_free \<noteq> NULL then do_kfree K h to_free else Inr h) (\<lambda>h.
     Inr (s\<lparr>heap := h, dev := (dev s)\<lparr>read_buf := NULL\<rparr>\<rparr>)))))))"

definition aesd_write ::
  "kernel \<Rightarrow> bool \<Rightarrow> kstate \<Rightarrow> struct_file \<Rightarrow> ptr \<Rightarrow> size_t \<Rightarrow> (ssize_t \<times> kstate) res" where
  "aesd_write K signalled s filp buf count =
     bindE (dev_of K filp s) (\<lambda>_.
     bindE (mutex_lock_interruptible signalled s) (\<lambda>(failed, s).
     if failed then Inr (- ERESTARTSYS, s)
     else
       bindE (write_new_entry K s) (\<lambda>s.
       bindE (write_grow K s count) (\<lambda>s.
       bindE (write_copy_in K s buf count) (\<lambda>(left, s).
       if left \<noteq> 0 then Inr (- EFAULT, s)
       else
         bindE (get_entry (heap s) (read_buf (dev s))) (\<lambda>e.
         bindE (write_scan s (buffptr e) (unat (esize e)) 0 count False) (\<lambda>(terminated, s).
         bindE (if terminated then write_commit K s else Inr s) (\<lambda>s.
         Inr (count, mutex_unlock s)))))))))"

section \<open>Module start and exit\<close>

text \<open>
  \<open>aesd_setup_cdev\<close>; \<open>err\<close> is what \<open>cdev_add\<close> returns. The structures take 168 and 16
  bytes.
\<close>

definition aesd_setup_cdev :: "kernel \<Rightarrow> c_int \<Rightarrow> kstate \<Rightarrow> (c_int \<times> kstate) res" where
  "aesd_setup_cdev K err s =
     (let (p, h) = kmalloc K (heap s) 168;
          s = s\<lparr>heap := h, dev := (dev s)\<lparr>circ_buf := p\<rparr>\<rparr>
      in bindE (put_ring (heap s) p (aesd_circular_buffer_init\<lparr>full := False\<rparr>)) (\<lambda>h.
         let (q, h) = kmalloc K h 16;
             s = s\<lparr>heap := h, dev := (dev s)\<lparr>read_buf := q\<rparr>\<rparr>
         in bindE (put_entry (heap s) q \<lparr>buffptr = NULL, esize = 0\<rparr>) (\<lambda>h.
            let s = s\<lparr>heap := h, dev := (dev s)\<lparr>lock := False\<rparr>\<rparr>;
                s = (if err = 0 then s\<lparr>cdev_live := True\<rparr> else s)
            in Inr (err, s))))"

text \<open>
  \<open>aesd_init_module\<close>; \<open>result\<close> and \<open>devno\<close> are what \<open>alloc_chrdev_region\<close> returns
  and stores.
\<close>

definition aesd_init_module ::
  "kernel \<Rightarrow> c_int \<Rightarrow> u32 \<Rightarrow> c_int \<Rightarrow> kstate \<Rightarrow> (c_int \<times> kstate) res" where
  "aesd_init_module K result devno err s =
     (let s = s\<lparr>aesd_major := drop_bit 20 devno\<rparr>
      in if result <s 0 then Inr (result, s)
      else
        (let s = s\<lparr>region := True,
               dev := \<lparr>lock = False, read_buf = NULL, circ_buf = NULL\<rparr>\<rparr>
         in bindE (aesd_setup_cdev K err s) (\<lambda>(result, s).
            Inr (result, if result \<noteq> 0 then s\<lparr>region := False\<rparr> else s))))"

text \<open>The \<open>AESD_CIRCULAR_BUFFER_FOREACH\<close> loop of \<open>aesd_cleanup_module\<close>.\<close>

function cleanup_loop :: "kernel \<Rightarrow> ptr \<Rightarrow> u8 \<Rightarrow> kheap \<Rightarrow> kheap res" where
  "cleanup_loop K p index h =
     (if index < of_nat AESDCHAR_MAX_WRITE_OPERATIONS_SUPPORTED then
        bindE (get_ring h p) (\<lambda>b.
        bindE (entry_at b (ucast index)) (\<lambda>ent.
        bindE (do_kfree K h (buffptr ent)) (\<lambda>h.
        cleanup_loop K p (index + 1) h)))
      else Inr h)"
  by pat_completeness auto
termination
  by (relation "measure (\<lambda>(K, p, index, h). 10 - unat index)") (auto intro: count_up_measure)

declare cleanup_loop.simps [simp del]

definition aesd_cleanup_module :: "kernel \<Rightarrow> kstate \<Rightarrow> kstate res" where
  "aesd_cleanup_module K s =
     bindE (cleanup_loop K (circ_buf (dev s)) 0 (heap s)) (\<lambda>h.
     Inr (s\<lparr>heap := h, cdev_live := False, region := False\<rparr>))"

section \<open>What a state of the module represents\<close>

text \<open>
  An entry whose block is allocated and exactly full; the commands held by the ring, in
  blocks of their own; and the command being collected, in a further block.
\<close>

definition holds :: "kheap \<Rightarrow> aesd_buffer_entry \<Rightarrow> byte list \<Rightarrow> bool" where
  "holds h e bs \<longleftrightarrow> h (buffptr e) = Some (Bytes bs) \<and> unat (esize e) = length bs"

definition ring_rep :: "kheap \<Rightarrow> aesd_circular_buffer \<Rightarrow> byte list list \<Rightarrow> bool" where
  "ring_rep h b cmds \<longleftrightarrow> cb_inv b \<and> list_all2 (holds h) (cb_list b) cmds \<and>
     distinct (map buffptr (cb_list b)) \<and> [] \<notin> set cmds"

definition taken :: "aesd_circular_buffer \<Rightarrow> ptr set" where
  "taken b = buffptr ` set (cb_list b)"

text \<open>\<open>read_buf\<close> collects the block \<open>blk\<close>, of which the first \<open>n\<close> bytes are counted.\<close>

definition collecting :: "kstate \<Rightarrow> byte list list \<Rightarrow> byte list \<Rightarrow> nat \<Rightarrow> bool" where
  "collecting s cmds blk n \<longleftrightarrow> heap s NULL = None \<and>
     (\<exists>b e. heap s (circ_buf (dev s)) = Some (RingObj b) \<and> ring_rep (heap s) b cmds \<and>
        heap s (read_buf (dev s)) = Some (EntryObj e) \<and> buffptr e \<notin> taken b \<and>
        heap s (buffptr e) = Some (Bytes blk) \<and> unat (esize e) = n)"

text \<open>Nothing is collected: \<open>read_buf\<close> is NULL or an entry without a block.\<close>

definition idle :: "kstate \<Rightarrow> byte list list \<Rightarrow> bool" where
  "idle s cmds \<longleftrightarrow> heap s NULL = None \<and>
     (\<exists>b. heap s (circ_buf (dev s)) = Some (RingObj b) \<and> ring_rep (heap s) b cmds) \<and>
     (read_buf (dev s) \<noteq> NULL \<longrightarrow>
        (\<exists>e. heap s (read_buf (dev s)) = Some (EntryObj e) \<and> buffptr e = NULL))"

definition device :: "kstate \<Rightarrow> byte list list \<Rightarrow> byte list \<Rightarrow> bool" where
  "device s cmds pend \<longleftrightarrow>
     (pend = [] \<and> idle s cmds) \<or> collecting s cmds pend (length pend)"

lemma device_user [simp]: "device (s\<lparr>user := um\<rparr>) = device s"
  by (simp add: fun_eq_iff device_def idle_def collecting_def)

lemma collecting_user [simp]: "collecting (s\<lparr>user := um\<rparr>) = collecting s"
  by (simp add: fun_eq_iff collecting_def)

text \<open>What the steps of a write leave alone.\<close>

definition same_rest :: "kstate \<Rightarrow> kstate \<Rightarrow> bool" where
  "same_rest s t \<longleftrightarrow> user t = user s \<and> lock (dev t) = lock (dev s) \<and>
     circ_buf (dev t) = circ_buf (dev s) \<and> aesd_major t = aesd_major s \<and>
     region t = region s \<and> cdev_live t = cdev_live s"

lemma same_rest_refl [simp]: "same_rest s s"
  by (simp add: same_rest_def)

lemma same_rest_trans: "same_rest s t \<Longrightarrow> same_rest t u \<Longrightarrow> same_rest s u"
  by (simp add: same_rest_def)

lemma ring_rep_cong:
  assumes "ring_rep h b cmds" and "\<And>p. p \<in> taken b \<Longrightarrow> h' p = h p"
  shows "ring_rep h' b cmds"
proof -
  have "list_all2 (holds h) (cb_list b) cmds"
    using assms(1) by (simp add: ring_rep_def)
  then have "list_all2 (holds h') (cb_list b) cmds"
    by (rule list.rel_mono_strong) (use assms(2) in \<open>auto simp: holds_def taken_def\<close>)
  with assms(1) show ?thesis by (simp add: ring_rep_def)
qed

text \<open>The blocks of the ring are blocks of bytes, so storing elsewhere keeps the ring.\<close>

lemma ring_rep_Bytes:
  assumes "ring_rep h b cmds" and "p \<in> taken b"
  shows "\<exists>bs. h p = Some (Bytes bs)"
proof -
  obtain e where "e \<in> set (cb_list b)" "p = buffptr e"
    using assms(2) by (auto simp: taken_def)
  then obtain bs where "holds h e bs"
    using assms(1) by (auto simp: ring_rep_def list_all2_conv_all_nth in_set_conv_nth)
  with \<open>p = buffptr e\<close> show ?thesis by (auto simp: holds_def)
qed

lemma ring_rep_upd:
  assumes "ring_rep h b cmds" and "p \<notin> taken b"
  shows "ring_rep (h(p := x)) b cmds"
  using assms by (auto intro: ring_rep_cong)

lemma not_takenI:
  "ring_rep h b cmds \<Longrightarrow> h p = None \<Longrightarrow> p \<notin> taken b"
  "ring_rep h b cmds \<Longrightarrow> h p = Some (EntryObj e) \<Longrightarrow> p \<notin> taken b"
  "ring_rep h b cmds \<Longrightarrow> h p = Some (RingObj b') \<Longrightarrow> p \<notin> taken b"
  using ring_rep_Bytes by fastforce+

lemma length_cmds: "ring_rep h b cmds \<Longrightarrow> length cmds = cb_count b"
  by (auto simp: ring_rep_def dest: list_all2_lengthD)

lemma entry_sizes_cmds: "ring_rep h b cmds \<Longrightarrow> entry_sizes (cb_list b) = map length cmds"
  by (auto simp: ring_rep_def entry_sizes_def holds_def list_all2_conv_all_nth
      intro!: nth_equalityI)

section \<open>The steps of a write\<close>

lemma write_new_entry_ok:
  assumes dev: "device s cmds pend" and K: "kernel_ok K" "kernel_room K N"
    and room: "card (dom (heap s)) < N"
  shows "\<exists>t. write_new_entry K s = Inr t \<and> device t cmds pend \<and> same_rest s t \<and>
    read_buf (dev t) \<noteq> NULL \<and> card (dom (heap t)) \<le> Suc (card (dom (heap s))) \<and>
    heap t (circ_buf (dev s)) = heap s (circ_buf (dev s))"
proof (cases "read_buf (dev s) = NULL")
  case False
  with dev show ?thesis by (simp add: write_new_entry_def)
next
  case True
  then have idle: "idle s cmds" "pend = []"
    using dev by (auto simp: device_def collecting_def)
  obtain p bs where p: "kmalloc K (heap s) 16 = (p, (heap s)(p \<mapsto> Bytes bs))" "p \<noteq> NULL"
    "heap s p = None" "length bs = unat (16 :: size_t)"
    using kmalloc_cases [OF K(1) _ K(2) room, of 16] by auto
  let ?t = "s\<lparr>heap := (heap s)(p \<mapsto> EntryObj zero_entry), dev := (dev s)\<lparr>read_buf := p\<rparr>\<rparr>"
  have "write_new_entry K s = Inr ?t"
    using True p by (simp add: write_new_entry_def put_entry_def obj_fits_def Let_def)
  moreover obtain b where b: "heap s (circ_buf (dev s)) = Some (RingObj b)" "ring_rep (heap s) b cmds"
    using idle(1) by (auto simp: idle_def)
  moreover have "idle ?t cmds"
  proof -
    have "p \<notin> taken b" using b p(3) by (intro not_takenI)
    with b idle(1) p show ?thesis
      by (auto simp: idle_def zero_entry_def ring_rep_upd)
  qed
  ultimately show ?thesis
    using idle(2) p card_dom_upd [of "heap s" p]
    by (auto simp: device_def same_rest_def)
qed

lemma write_grow_ok:
  assumes dev: "device s cmds pend" "read_buf (dev s) \<noteq> NULL"
    and K: "kernel_ok K" "kernel_room K N" and room: "card (dom (heap s)) < N"
    and count: "count \<noteq> 0" "length pend + unat count < 2 ^ 64"
  shows "\<exists>t blk. write_grow K s count = Inr t \<and> collecting t cmds (pend @ blk) (length pend) \<and>
    length blk = unat count \<and> same_rest s t \<and> read_buf (dev t) = read_buf (dev s) \<and>
    card (dom (heap t)) \<le> Suc (card (dom (heap s))) \<and> heap t (circ_buf (dev s)) = heap s (circ_buf (dev s))"
proof (cases "pend = [] \<and> idle s cmds")
  case True
  then obtain b e where b: "heap s (circ_buf (dev s)) = Some (RingObj b)"
    "ring_rep (heap s) b cmds" "heap s (read_buf (dev s)) = Some (EntryObj e)"
    "buffptr e = NULL" "heap s NULL = None"
    using dev(2) by (auto simp: idle_def)
  obtain p blk where p: "kmalloc K (heap s) count = (p, (heap s)(p \<mapsto> Bytes blk))" "p \<noteq> NULL"
    "heap s p = None" "length blk = unat count"
    using kmalloc_cases [OF K(1) count(1) K(2) room] by metis
  let ?h = "(heap s)(p \<mapsto> Bytes blk, read_buf (dev s) \<mapsto> EntryObj (e\<lparr>buffptr := p, esize := 0\<rparr>))"
  have ne: "read_buf (dev s) \<noteq> p" "circ_buf (dev s) \<noteq> p" "circ_buf (dev s) \<noteq> read_buf (dev s)"
    using b p by auto
  have "write_grow K s count = Inr (s\<lparr>heap := ?h\<rparr>)"
    using b p ne by (simp add: write_grow_def get_entry_def put_entry_def obj_fits_def)
  moreover have "collecting (s\<lparr>heap := ?h\<rparr>) cmds blk 0"
  proof -
    have "p \<notin> taken b" "read_buf (dev s) \<notin> taken b"
      using not_takenI(1) [OF b(2) p(3)] not_takenI(2) [OF b(2,3)] by auto
    with b p ne dev(2) show ?thesis
      by (auto simp: collecting_def ring_rep_upd)
  qed
  ultimately show ?thesis
    using True p b(3) ne card_dom_upd [of "heap s" p "Bytes blk"]
    by (intro exI [of _ "s\<lparr>heap := ?h\<rparr>"] exI [of _ blk])
      (simp add: same_rest_def insert_absorb domIff)
next
  case False
  with dev have "collecting s cmds pend (length pend)" by (auto simp: device_def)
  then obtain b e where b: "heap s (circ_buf (dev s)) = Some (RingObj b)"
    "ring_rep (heap s) b cmds" "heap s (read_buf (dev s)) = Some (EntryObj e)"
    "buffptr e \<notin> taken b" "heap s (buffptr e) = Some (Bytes pend)"
    "unat (esize e) = length pend" "heap s NULL = None"
    by (auto simp: collecting_def)
  have size: "unat (esize e + count) = length pend + unat count"
    using b(6) count(2) by (simp add: unat_add_small)
  then have nz: "esize e + count \<noteq> 0"
    using count(1) by (metis add_is_0 unat_0 unat_eq_zero)
  have bne: "buffptr e \<noteq> NULL" using b(5,7) by auto
  obtain p blk where p: "krealloc K (heap s) (buffptr e) (esize e + count) =
      (p, (heap s)(buffptr e := None, p \<mapsto> Bytes (pend @ blk)))"
    "p \<noteq> NULL" "p = buffptr e \<or> heap s p = None" "length pend + length blk = unat (esize e + count)"
    using krealloc_cases [OF K(1) nz K(2) room b(5) _ bne] size by auto
  let ?h = "(heap s)(buffptr e := None, p \<mapsto> Bytes (pend @ blk),
    read_buf (dev s) \<mapsto> EntryObj (e\<lparr>buffptr := p\<rparr>))"
  have ne: "read_buf (dev s) \<noteq> p" "circ_buf (dev s) \<noteq> p" "circ_buf (dev s) \<noteq> read_buf (dev s)"
    "buffptr e \<noteq> NULL" "buffptr e \<noteq> read_buf (dev s)" "buffptr e \<noteq> circ_buf (dev s)"
    "p \<notin> taken b" "read_buf (dev s) \<notin> taken b"
    using b p not_takenI [OF b(2)] by auto
  have "write_grow K s count = Inr (s\<lparr>heap := ?h\<rparr>)"
    using b p ne
    by (simp add: write_grow_def get_entry_def get_bytes_def put_entry_def obj_fits_def)
  moreover have "collecting (s\<lparr>heap := ?h\<rparr>) cmds (pend @ blk) (length pend)"
  proof -
    have "ring_rep ?h b cmds"
      using b ne by (intro ring_rep_upd) auto
    with b p ne dev(2) show ?thesis by (auto simp: collecting_def)
  qed
  moreover have "card (dom ?h) \<le> Suc (card (dom (heap s)))"
  proof -
    have "card (dom ?h) = card (dom ((heap s)(buffptr e := None, p \<mapsto> Bytes (pend @ blk))))"
      using b(3) ne by (intro arg_cong [where f = card] card_dom_same) simp
    also have "\<dots> \<le> Suc (card (dom ((heap s)(buffptr e := None))))" by (rule card_dom_upd)
    also have "\<dots> \<le> Suc (card (dom (heap s)))" using card_dom_del [of "heap s"] by simp
    finally show ?thesis .
  qed
  ultimately show ?thesis
    using p size ne
    by (intro exI [of _ "s\<lparr>heap := ?h\<rparr>"] exI [of _ blk]) (simp add: same_rest_def)
qed

lemma collectingE:
  assumes "collecting s cmds blk n"
  obtains b e where "heap s NULL = None" "heap s (circ_buf (dev s)) = Some (RingObj b)"
    "ring_rep (heap s) b cmds" "heap s (read_buf (dev s)) = Some (EntryObj e)"
    "buffptr e \<notin> taken b" "heap s (buffptr e) = Some (Bytes blk)" "unat (esize e) = n"
    "read_buf (dev s) \<notin> taken b" "circ_buf (dev s) \<notin> taken b"
    "circ_buf (dev s) \<noteq> read_buf (dev s)" "buffptr e \<noteq> read_buf (dev s)"
    "buffptr e \<noteq> circ_buf (dev s)" "read_buf (dev s) \<noteq> NULL"
proof -
  obtain b e where b: "heap s NULL = None" "heap s (circ_buf (dev s)) = Some (RingObj b)"
    "ring_rep (heap s) b cmds" "heap s (read_buf (dev s)) = Some (EntryObj e)"
    "buffptr e \<notin> taken b" "heap s (buffptr e) = Some (Bytes blk)" "unat (esize e) = n"
    using assms by (auto simp: collecting_def)
  then show thesis
    by (intro that [of b e]) (auto dest: not_takenI)
qed

lemma write_copy_in_ok:
  assumes col: "collecting s cmds (pend @ blk) (length pend)" and K: "kernel_ok K"
    and user: "user_at (user s) buf (unat count) = map Some bs" and "length blk = unat count"
  shows "\<exists>t. write_copy_in K s buf count = Inr (0, t) \<and>
    collecting t cmds (pend @ bs) (length pend) \<and> same_rest s t \<and>
    read_buf (dev t) = read_buf (dev s) \<and> card (dom (heap t)) = card (dom (heap s)) \<and>
    heap t (circ_buf (dev s)) = heap s (circ_buf (dev s))"
proof -
  from col obtain b e where b: "heap s NULL = None"
    "heap s (circ_buf (dev s)) = Some (RingObj b)"
    "ring_rep (heap s) b cmds" "heap s (read_buf (dev s)) = Some (EntryObj e)"
    "buffptr e \<notin> taken b" "heap s (buffptr e) = Some (Bytes (pend @ blk))"
    "unat (esize e) = length pend" "buffptr e \<noteq> read_buf (dev s)"
    "buffptr e \<noteq> circ_buf (dev s)"
    by (elim collectingE) metis
  have len: "length bs = length blk"
    using arg_cong [OF user, of length] assms(4) by (simp add: user_at_def)
  let ?t = "s\<lparr>heap := (heap s)(buffptr e \<mapsto> Bytes (pend @ bs))\<rparr>"
  have "write_copy_in K s buf count = Inr (0, ?t)"
    using b len copy_from_user_mapped [OF K user]
    by (simp add: write_copy_in_def get_entry_def wr_range_ok)
  moreover have "collecting ?t cmds (pend @ bs) (length pend)"
    using b by (auto simp: collecting_def ring_rep_upd)
  ultimately show ?thesis using b by (simp add: same_rest_def insert_dom)
qed

lemma write_copy_in_fails:
  assumes col: "collecting s cmds (pend @ blk) (length pend)" and K: "kernel_ok K"
    and "length blk = unat count" and bad: "\<not> user_mapped (user s) buf (unat count)"
  shows "\<exists>left t blk'. write_copy_in K s buf count = Inr (left, t) \<and> left \<noteq> 0 \<and> same_rest s t \<and>
    collecting t cmds (pend @ blk') (length pend) \<and> card (dom (heap t)) = card (dom (heap s)) \<and>
    heap t (circ_buf (dev s)) = heap s (circ_buf (dev s))"
proof -
  from col obtain b e where b: "heap s NULL = None"
    "heap s (circ_buf (dev s)) = Some (RingObj b)"
    "ring_rep (heap s) b cmds" "heap s (read_buf (dev s)) = Some (EntryObj e)"
    "buffptr e \<notin> taken b" "heap s (buffptr e) = Some (Bytes (pend @ blk))"
    "unat (esize e) = length pend" "buffptr e \<noteq> read_buf (dev s)"
    "buffptr e \<noteq> circ_buf (dev s)"
    by (elim collectingE) metis
  obtain bs left where c: "copy_from_user K (user s) buf count = (bs, left)" by force
  then have "length bs = unat count" "left \<noteq> 0"
    using K bad unfolding kernel_ok_def copy_user_ok_def by blast+
  let ?t = "s\<lparr>heap := (heap s)(buffptr e \<mapsto> Bytes (pend @ bs))\<rparr>"
  have "write_copy_in K s buf count = Inr (left, ?t)"
    using b c assms(3) \<open>length bs = unat count\<close> by (simp add: write_copy_in_def get_entry_def wr_range_ok)
  moreover have "collecting ?t cmds (pend @ bs) (length pend)"
    using b by (auto simp: collecting_def ring_rep_upd)
  ultimately show ?thesis
    using b \<open>left \<noteq> 0\<close> by (intro exI [of _ left] exI [of _ ?t] exI [of _ bs]) (simp add: same_rest_def insert_dom)
qed

lemma write_scan_ok:
  assumes "collecting s cmds blk (start + i)" and "heap s (read_buf (dev s)) = Some (EntryObj e)"
    and "buffptr e = p" and "start + unat count = length blk" and "i \<le> unat count"
    and "unat count \<le> 2147483647" and "length blk < 2 ^ 64"
  shows "\<exists>t. write_scan s p start i count trm =
      Inr (trm \<or> newline \<in> set (drop (start + i) blk), t) \<and>
    collecting t cmds blk (length blk) \<and> same_rest s t \<and> read_buf (dev t) = read_buf (dev s) \<and>
    card (dom (heap t)) = card (dom (heap s)) \<and> heap t (circ_buf (dev s)) = heap s (circ_buf (dev s))"
  using assms
proof (induction "unat count - i" arbitrary: s i e trm)
  case 0
  then show ?case by (subst write_scan.simps) simp
next
  case (Suc m)
  then have i: "i < unat count" and m: "m = unat count - Suc i" by simp_all
  from Suc.prems(1) obtain b e' where b: "heap s NULL = None"
    "heap s (circ_buf (dev s)) = Some (RingObj b)" "ring_rep (heap s) b cmds"
    "heap s (read_buf (dev s)) = Some (EntryObj e')" "buffptr e' \<notin> taken b"
    "heap s (buffptr e') = Some (Bytes blk)" "unat (esize e') = start + i"
    "read_buf (dev s) \<notin> taken b" "circ_buf (dev s) \<noteq> read_buf (dev s)"
    "buffptr e' \<noteq> read_buf (dev s)" "read_buf (dev s) \<noteq> NULL"
    by (elim collectingE) metis
  have e': "e' = e" using b(4) Suc.prems(2) by simp
  have size: "unat (esize e + 1) = start + Suc i"
    using b(7) e' i Suc.prems(4,7) by (simp add: unat_add_small)
  let ?e = "e\<lparr>esize := esize e + 1\<rparr>"
  let ?s = "s\<lparr>heap := (heap s)(read_buf (dev s) \<mapsto> EntryObj ?e)\<rparr>"
  have col: "collecting ?s cmds blk (start + Suc i)"
    using b e' size by (auto simp: collecting_def ring_rep_upd)
  have drop: "drop (start + i) blk = blk ! (start + i) # drop (start + Suc i) blk"
    using i Suc.prems(4) by (simp add: Cons_nth_drop_Suc)
  have rd: "rd_range (heap s) p (start + i) 1 = Inr [blk ! (start + i)]"
    using b(6) e' Suc.prems(3,4) i drop by (simp add: rd_range_ok)
  obtain t where t: "write_scan ?s p start (Suc i) count (trm \<or> [blk ! (start + i)] = [newline]) =
      Inr ((trm \<or> [blk ! (start + i)] = [newline]) \<or> newline \<in> set (drop (start + Suc i) blk), t)"
    "collecting t cmds blk (length blk)" "same_rest ?s t" "read_buf (dev t) = read_buf (dev ?s)"
    "card (dom (heap t)) = card (dom (heap ?s))" "heap t (circ_buf (dev ?s)) = heap ?s (circ_buf (dev ?s))"
    using Suc.hyps(1) [OF m col, of ?e "trm \<or> [blk ! (start + i)] = [newline]"]
      Suc.prems i by auto
  have "write_scan s p start i count trm =
    write_scan ?s p start (Suc i) count (trm \<or> [blk ! (start + i)] = [newline])"
    using i rd b e' Suc.prems(6)
    by (subst write_scan.simps) (simp add: get_entry_def put_entry_def obj_fits_def)
  moreover have "card (dom (heap ?s)) = card (dom (heap s))" using b(4) by (simp add: insert_dom)
  ultimately show ?case
    using t drop b(9) by (auto simp: same_rest_def)
qed

lemma write_commit_ok:
  assumes col: "collecting s cmds blk (length blk)" and K: "kernel_ok K" and ne: "blk \<noteq> []"
    and short: "length blk \<le> 2147483647"
  shows "\<exists>t. write_commit K s = Inr t \<and> device t (lastn 10 (cmds @ [blk])) [] \<and>
    same_rest s t \<and> read_buf (dev t) = NULL \<and>
    heap t (read_buf (dev s)) = heap s (read_buf (dev s)) \<and>
    card (dom (heap t)) \<le> card (dom (heap s)) \<and>
    (\<forall>b. heap s (circ_buf (dev s)) = Some (RingObj b) \<longrightarrow> full b \<longrightarrow> heap t (buffptr (hd (cb_list b))) = None) \<and>
    (\<forall>b. heap s (circ_buf (dev s)) = Some (RingObj b) \<longrightarrow>
      (\<exists>b' e. heap t (circ_buf (dev t)) = Some (RingObj b') \<and> cb_list b' = lastn 10 (cb_list b @ [e])))"
proof -
  from col obtain b e where b: "heap s NULL = None"
    "heap s (circ_buf (dev s)) = Some (RingObj b)" "ring_rep (heap s) b cmds"
    "heap s (read_buf (dev s)) = Some (EntryObj e)" "buffptr e \<notin> taken b"
    "heap s (buffptr e) = Some (Bytes blk)" "unat (esize e) = length blk"
    "circ_buf (dev s) \<notin> taken b" "buffptr e \<noteq> circ_buf (dev s)"
    "read_buf (dev s) \<notin> taken b" "circ_buf (dev s) \<noteq> read_buf (dev s)"
    "read_buf (dev s) \<noteq> NULL"
    by (elim collectingE) metis
  have inv: "cb_inv b" using b(3) by (simp add: ring_rep_def)
  have counter: "esize e \<le> 2147483647" using b(7) short by (simp add: word_le_nat_alt)
  define old where "old = (if full b then buffptr (hd (cb_list b)) else NULL)"
  obtain b' where add: "aesd_circular_buffer_add_entry b e = Inr (old, b')" "cb_inv b'"
    "cb_list b' = lastn 10 (cb_list b @ [e])"
    using ring.add_law [OF inv, of e] inv by (auto simp: old_def cb_full_iff)
  define h where "h = (heap s)(circ_buf (dev s) \<mapsto> RingObj b')"
  define h' where "h' = (if old \<noteq> NULL then h(old := None) else h)"
  have ptrs: "distinct (map buffptr (cb_list b @ [e]))"
    using b(3,5) by (auto simp: ring_rep_def taken_def)
  have holds: "list_all2 (holds (heap s)) (cb_list b @ [e]) (cmds @ [blk])"
    using b(3,6,7) by (auto simp: ring_rep_def holds_def list_all2_appendI)
  have taken': "taken b' \<subseteq> insert (buffptr e) (taken b)"
    using set_lastn_subset [of 10 "cb_list b @ [e]"] by (auto simp: taken_def add(3))
  have old_in: "old \<in> taken b" "old \<notin> taken b'" if "old \<noteq> NULL"
  proof -
    from that have f: "full b" and hd: "old = buffptr (hd (cb_list b))"
      by (auto simp: old_def split: if_splits)
    then have len: "length (cb_list b) = 10" by (simp add: cb_count_def)
    then obtain x xs where x: "cb_list b = x # xs" by (cases "cb_list b") auto
    with hd show "old \<in> taken b" by (simp add: taken_def)
    have "cb_list b' = xs @ [e]"
      using add(3) lastn_snoc_full [OF len] x by simp
    with x hd ptrs show "old \<notin> taken b'" by (auto simp: taken_def)
  qed
  have free: "(if old \<noteq> NULL then do_kfree K h old else Inr h) = Inr h'"
  proof (cases "old = NULL")
    case False
    then have "h old \<noteq> None"
      using old_in ring_rep_Bytes [OF b(3), of old] by (auto simp: h_def)
    with False kfree_eq(2) [OF K, of old h] show ?thesis
      by (simp add: do_kfree_def h'_def)
  qed (simp add: h'_def)
  have keep: "h' p = heap s p" if "p \<in> taken b'" for p
    using that old_in taken' b(8,9) by (auto simp: h'_def h_def)
  have "list_all2 (holds (heap s)) (lastn 10 (cb_list b @ [e])) (lastn 10 (cmds @ [blk]))"
    using holds by (rule list_all2_lastn)
  moreover have "distinct (map buffptr (cb_list b'))"
    unfolding add(3) map_lastn unfolding lastn_def using ptrs by (rule distinct_drop)
  moreover have "[] \<notin> set (lastn 10 (cmds @ [blk]))"
    using b(3) ne set_lastn_subset [of 10 "cmds @ [blk]"] by (auto simp: ring_rep_def)
  ultimately have "ring_rep (heap s) b' (lastn 10 (cmds @ [blk]))"
    using add(2) unfolding ring_rep_def add(3) by blast
  then have ring: "ring_rep h' b' (lastn 10 (cmds @ [blk]))"
    using keep by (rule ring_rep_cong)
  let ?t = "s\<lparr>heap := h', dev := (dev s)\<lparr>read_buf := NULL\<rparr>\<rparr>"
  have "write_commit K s = Inr ?t"
    using b add(1) counter free [unfolded h_def]
    by (simp add: write_commit_def get_entry_def get_ring_def put_ring_ok split del: if_split)
  moreover have "idle ?t (lastn 10 (cmds @ [blk]))"
  proof -
    have "circ_buf (dev s) \<noteq> NULL" "circ_buf (dev s) \<noteq> old \<or> old = NULL"
      using b(1,2,8) old_in by auto
    then have "h' NULL = None" "h' (circ_buf (dev s)) = Some (RingObj b')"
      using b(1) by (auto simp: h'_def h_def)
    with ring show ?thesis by (auto simp: idle_def)
  qed
  moreover have "h' (read_buf (dev s)) = heap s (read_buf (dev s))"
    using b(10-12) old_in by (auto simp: h'_def h_def)
  moreover have "card (dom h') \<le> card (dom (heap s))"
    using card_dom_del [of h old] b(2) by (simp add: h'_def h_def insert_dom)
  moreover have "h' (buffptr (hd (cb_list b))) = None" if "full b"
    using that b(1,2) by (auto simp: h'_def h_def old_def)
  moreover have "h' (circ_buf (dev s)) = Some (RingObj b')"
    using b(8) old_in by (auto simp: h'_def h_def)
  ultimately show ?thesis using b(2) add(3) by (auto simp: device_def same_rest_def)
qed

section \<open>The abstract device\<close>

text \<open>
  What the driver promises: the last ten commands and the bytes since the last one. A
  write that contains a newline completes the collected bytes, up to its own end, as one
  command.
\<close>

type_synonym dev_spec = "byte list list \<times> byte list"

fun write_spec :: "byte list \<Rightarrow> dev_spec \<Rightarrow> dev_spec" where
  "write_spec bs (cmds, pend) =
     (if newline \<in> set bs then (lastn 10 (cmds @ [pend @ bs]), []) else (cmds, pend @ bs))"

text \<open>A call of \<open>aesd_write\<close> that the kernel serves: the precondition of a write.\<close>

definition write_call :: "kernel \<Rightarrow> kstate \<Rightarrow> struct_file \<Rightarrow> ptr \<Rightarrow> size_t \<Rightarrow> byte list \<Rightarrow> bool" where
  "write_call K s filp buf count bs \<longleftrightarrow>
     kernel_ok K \<and> kernel_room K (card (dom (heap s)) + 2) \<and>
     private_data filp = device_addr K \<and> \<not> lock (dev s) \<and>
     user_at (user s) buf (unat count) = map Some bs \<and>
     bs \<noteq> []"

lemma write_finish_ok:
  assumes col: "collecting s cmds (pend @ bs) (length (pend @ bs))" and K: "kernel_ok K" and ne: "bs \<noteq> []"
    and short: "length (pend @ bs) \<le> 2147483647"
  shows "\<exists>t. (if newline \<in> set bs then write_commit K s else Inr s) = Inr t \<and>
    device t (fst (write_spec bs (cmds, pend))) (snd (write_spec bs (cmds, pend))) \<and> same_rest s t \<and>
    (newline \<in> set bs \<longrightarrow> read_buf (dev t) = NULL \<and>
      (\<exists>e. heap t (read_buf (dev s)) = Some (EntryObj e))) \<and>
    card (dom (heap t)) \<le> card (dom (heap s))"
proof (cases "newline \<in> set bs")
  case True
  obtain e where "heap s (read_buf (dev s)) = Some (EntryObj e)"
    using col by (auto simp: collecting_def)
  with True show ?thesis using write_commit_ok [OF col K _ short] ne by fastforce
next
  case False
  with col show ?thesis by (auto simp: device_def)
qed

lemma aesd_write_ok:
  assumes dev: "device s cmds pend" and call: "write_call K s filp buf count bs"
    and small: "length pend + length bs \<le> 2147483647"
  shows "\<exists>t. aesd_write K False s filp buf count = Inr (count, t) \<and>
    device t (fst (write_spec bs (cmds, pend))) (snd (write_spec bs (cmds, pend))) \<and>
    \<not> lock (dev t) \<and> user t = user s \<and> circ_buf (dev t) = circ_buf (dev s) \<and>
    (read_buf (dev s) \<noteq> NULL \<longrightarrow> newline \<in> set bs \<longrightarrow>
       read_buf (dev t) = NULL \<and> (\<exists>e. heap t (read_buf (dev s)) = Some (EntryObj e))) \<and>
    card (dom (heap t)) \<le> card (dom (heap s)) + 2"
proof -
  note call = call [unfolded write_call_def]
  have len: "length bs = unat count"
    using call by (metis length_map length_upt diff_zero user_at_def)
  then have count: "count \<noteq> 0" using call by auto
  have short: "length (pend @ bs) \<le> 2147483647" using small by simp
  define s1 where "s1 = s\<lparr>dev := (dev s)\<lparr>lock := True\<rparr>\<rparr>"
  have s1: "device s1 cmds pend" "heap s1 = heap s" "user s1 = user s" "lock (dev s1)"
    using dev by (auto simp: s1_def device_def idle_def collecting_def)
  have mutex: "mutex_lock_interruptible False s = Inr (False, s1)"
    using call by (simp add: mutex_lock_interruptible_def s1_def)
  obtain s2 where s2: "write_new_entry K s1 = Inr s2" "device s2 cmds pend" "same_rest s1 s2"
    "read_buf (dev s2) \<noteq> NULL" "card (dom (heap s2)) \<le> Suc (card (dom (heap s1)))"
    using write_new_entry_ok [OF s1(1), of K "card (dom (heap s)) + 2"] call s1(2) by auto
  obtain s3 blk where s3: "write_grow K s2 count = Inr s3"
    "collecting s3 cmds (pend @ blk) (length pend)" "length blk = unat count" "same_rest s2 s3"
    "read_buf (dev s3) = read_buf (dev s2)" "card (dom (heap s3)) \<le> Suc (card (dom (heap s2)))"
    using write_grow_ok [OF s2(2,4), of K "card (dom (heap s)) + 2" count]
      call s2(5) s1(2) count len small by auto
  have "user_at (user s3) buf (unat count) = map Some bs"
    using call s1(3) s2(3) s3(4) by (simp add: same_rest_def)
  then obtain s4 where s4: "write_copy_in K s3 buf count = Inr (0, s4)"
    "collecting s4 cmds (pend @ bs) (length pend)" "same_rest s3 s4"
    "read_buf (dev s4) = read_buf (dev s3)" "card (dom (heap s4)) = card (dom (heap s3))"
    using write_copy_in_ok [OF s3(2)] call s3(3) by blast
  obtain e where e: "heap s4 (read_buf (dev s4)) = Some (EntryObj e)" "unat (esize e) = length pend"
    using s4(2) by (auto simp: collecting_def)
  obtain s5 where s5: "write_scan s4 (buffptr e) (length pend) 0 count False =
      Inr (newline \<in> set bs, s5)"
    "collecting s5 cmds (pend @ bs) (length (pend @ bs))" "same_rest s4 s5"
    "read_buf (dev s5) = read_buf (dev s4)" "card (dom (heap s5)) = card (dom (heap s4))"
    using write_scan_ok [of s4 cmds "pend @ bs" "length pend" 0 e "buffptr e" count False]
      s4(2) e(1) call len small by auto
  obtain s6 where s6: "(if newline \<in> set bs then write_commit K s5 else Inr s5) = Inr s6"
    "device s6 (fst (write_spec bs (cmds, pend))) (snd (write_spec bs (cmds, pend)))"
    "same_rest s5 s6" "newline \<in> set bs \<longrightarrow> read_buf (dev s6) = NULL \<and>
      (\<exists>e. heap s6 (read_buf (dev s5)) = Some (EntryObj e))"
    "card (dom (heap s6)) \<le> card (dom (heap s5))"
    using write_finish_ok [OF s5(2) _ _ short] call by blast
  have "aesd_write K False s filp buf count = Inr (count, mutex_unlock s6)"
    using call mutex s2(1) s3(1) s4(1) e s5(1) s6(1)
    by (simp add: aesd_write_def dev_of_def get_entry_def)
  moreover have "same_rest s1 s6"
    using s2(3) s3(4) s4(3) s5(3) s6(3) same_rest_trans by metis
  then have "user s6 = user s \<and> circ_buf (dev s6) = circ_buf (dev s)"
    by (simp add: same_rest_def s1_def)
  moreover have "read_buf (dev s5) = read_buf (dev s)" if "read_buf (dev s) \<noteq> NULL"
    using that s2(1) s3(5) s4(4) s5(4) by (auto simp: write_new_entry_def s1_def)
  moreover have "card (dom (heap s6)) \<le> card (dom (heap s)) + 2"
    using s1(2) s2(5) s3(6) s4(5) s5(5) s6(5) by simp
  ultimately show ?thesis
    using s6(2,4)
    by (auto simp: mutex_unlock_def device_def idle_def collecting_def)
qed

text \<open>
  A read serves one command at a time: the bytes of the command that contains the
  position, from there to its end, at most \<open>count\<close>.
\<close>

definition read_spec :: "byte list list \<Rightarrow> nat \<Rightarrow> nat \<Rightarrow> byte list" where
  "read_spec cmds pos count = (case locate (map length cmds) pos of
     None \<Rightarrow> [] | Some (k, r) \<Rightarrow> take count (drop r (cmds ! k)))"

lemma length_concat: "length (concat xss) = sum_list (map length xss)"
  by (induction xss) simp_all

lemma read_spec_prefix:
  "read_spec cmds pos count = take (length (read_spec cmds pos count)) (drop pos (concat cmds))"
  by (auto simp: read_spec_def locate_concat min_def split: option.split)

lemma read_spec_Nil_iff:
  "read_spec cmds pos count = [] \<longleftrightarrow> count = 0 \<or> length (concat cmds) \<le> pos"
proof (cases "locate (map length cmds) pos")
  case None
  then have "length (concat cmds) \<le> pos" by (simp add: locate_None_iff length_concat)
  with None show ?thesis by (simp add: read_spec_def)
next
  case (Some kr)
  obtain k r where kr: "kr = (k, r)" by (cases kr)
  with Some have "r < length (cmds ! k)" by (auto dest!: locate_SomeD)
  moreover have "\<not> length (concat cmds) \<le> pos"
    using Some locate_None_iff [of "map length cmds" pos] by (auto simp: length_concat)
  ultimately show ?thesis using Some kr by (auto simp: read_spec_def)
qed

lemma length_read_spec: "length (read_spec cmds pos count) \<le> count"
  by (auto simp: read_spec_def split: option.split)

lemma user_write_Nil [simp]: "user_write um p [] = um"
  by (simp add: user_write_def)

lemma deviceE:
  assumes "device s cmds pend"
  obtains b where "heap s (circ_buf (dev s)) = Some (RingObj b)" "ring_rep (heap s) b cmds"
  using assms by (auto simp: device_def idle_def collecting_def)

lemma device_total:
  assumes "device s cmds pend" and "\<forall>c \<in> set cmds. length c \<le> 2147483647"
  shows "length (concat cmds) < 2 ^ 40"
proof -
  obtain b where "ring_rep (heap s) b cmds" using assms(1) by (rule deviceE)
  then have "length cmds \<le> 10"
    using length_cmds cb_count_le by (fastforce simp: ring_rep_def)
  moreover have "length (concat cmds) \<le> length cmds * 2147483647"
    using assms(2) by (induction cmds) auto
  ultimately have "length (concat cmds) \<le> 10 * 2147483647"
    by (meson le_trans mult_le_mono1)
  then show ?thesis by (rule le_less_trans) simp
qed

text \<open>The ring seen through a file of the device.\<close>

lemma ring_lookup:
  assumes ring: "ring_rep h b cmds" and small: "length (concat cmds) < 2 ^ 64"
  shows "get_length_of_all_entries_in_buffer b = Inr (of_nat (length (concat cmds)))"
    and "aesd_circular_buffer_find_entry_offset_for_fpos b off =
      Inr (map_option (ring_position (unat (out_offs b))) (locate (map length cmds) (unat off)))"
proof -
  have inv: "cb_inv b" using ring by (simp add: ring_rep_def)
  have sizes: "sum_list (entry_sizes (cb_list b)) = length (concat cmds)"
    by (simp add: entry_sizes_cmds [OF ring] length_concat)
  obtain t where t: "get_length_of_all_entries_in_buffer b = Inr t"
    "unat t = length (concat cmds)"
    using get_length_unat [OF inv] small sizes by auto
  then show "get_length_of_all_entries_in_buffer b = Inr (of_nat (length (concat cmds)))"
    by (simp flip: t(2))
  show "aesd_circular_buffer_find_entry_offset_for_fpos b off =
      Inr (map_option (ring_position (unat (out_offs b))) (locate (map length cmds) (unat off)))"
    using find_entry_locate [OF inv] small sizes by (simp add: entry_sizes_cmds [OF ring])
qed

lemma ring_entry:
  assumes ring: "ring_rep h b cmds" and k: "k < length cmds"
  shows "entry_at b (of_nat ((unat (out_offs b) + k) mod 10)) = Inr (cb_list b ! k)"
    and "holds h (cb_list b ! k) (cmds ! k)"
proof -
  let ?i = "(unat (out_offs b) + k) mod 10"
  have inv: "cb_inv b" and k': "k < cb_count b"
    using ring k length_cmds [OF ring] by (simp_all add: ring_rep_def)
  have "unat (of_nat ?i :: size_t) = ?i"
    by (rule unat_of_nat_small) (rule less_trans [of _ 10], simp_all)
  then show "entry_at b (of_nat ?i) = Inr (cb_list b ! k)"
    using cb_invD(1) [OF inv] k' by (simp add: entry_at_def cb_list_def)
  show "holds h (cb_list b ! k) (cmds ! k)"
    using ring k by (auto simp: ring_rep_def list_all2_conv_all_nth)
qed

text \<open>The number of bytes copied, as the code computes it from the remaining bytes.\<close>

lemma bytes_to_copy_eq:
  fixes avail count :: size_t
  shows "(if count < avail then count else if avail < count then avail else count) = min count avail"
  by (auto simp: min_def)

text \<open>The look-up finds the command of the position, or nothing when there is nothing to read.\<close>

lemma read_locate_ok:
  assumes b: "heap s (circ_buf (dev s)) = Some (RingObj b)" "ring_rep (heap s) b cmds"
    and filp: "private_data filp = device_addr K" and small: "length (concat cmds) < 2 ^ 64"
    and out: "out = read_spec cmds (unat pos) (unat count)"
  shows "read_locate K s filp count pos = Inr (case locate (map length cmds) (unat pos) of
      None \<Rightarrow> None
    | Some (k, r) \<Rightarrow> if out = [] then None else Some (buffptr (cb_list b ! k), r, of_nat (length out)))"
proof -
  define total where "total = length (concat cmds)"
  define cnt where "cnt = (if of_nat total < count then of_nat total - pos else count)"
  have ut: "unat (of_nat total :: size_t) = total"
    using small by (intro unat_of_nat_small) (simp add: total_def)
  have ring_of: "ring_of K filp s = Inr b"
    using b(1) filp by (simp add: ring_of_def dev_of_def get_ring_def)
  note look = ring_lookup [OF b(2) small, folded total_def]
  show ?thesis
  proof (cases "locate (map length cmds) (unat pos)")
    case None
    then show ?thesis
      by (simp add: read_locate_def ring_of look cnt_def [symmetric])
  next
    case (Some kr)
    obtain k r where kr: "kr = (k, r)" by (cases kr)
    then have k: "k < length cmds" "r < length (cmds ! k)"
      and pos: "unat pos = sum_list (take k (map length cmds)) + r"
      using Some by (auto dest!: locate_SomeD)
    have e: "entry_at b (of_nat ((unat (out_offs b) + k) mod 10)) = Inr (cb_list b ! k)"
      "holds (heap s) (cb_list b ! k) (cmds ! k)"
      using ring_entry [OF b(2) k(1)] by auto
    have drop: "drop (unat pos) (concat cmds) = drop r (cmds ! k) @ concat (drop (Suc k) cmds)"
      using Some kr by (intro locate_concat) simp
    have "total - unat pos = length (drop (unat pos) (concat cmds))"
      by (simp add: total_def)
    also have "\<dots> = length (cmds ! k) - r + length (concat (drop (Suc k) cmds))"
      by (simp only: drop length_append length_drop)
    finally have rest: "length (cmds ! k) - r \<le> total - unat pos" and lt: "unat pos < total"
      using k(2) by auto
    have r: "unat (of_nat r :: size_t) = r"
      using lt ut pos small by (intro unat_of_nat_small) (simp add: total_def)
    moreover have "unat (esize (cb_list b ! k)) = length (cmds ! k)" using e(2) by (simp add: holds_def)
    ultimately have avail: "unat (esize (cb_list b ! k) - of_nat r) = length (cmds ! k) - r"
      using k(2) by (subst unat_sub_le) (simp_all add: word_le_nat_alt)
    have cnt: "unat cnt = (if total < unat count then total - unat pos else unat count)"
      using lt ut by (simp add: cnt_def word_less_nat_alt unat_sub_le word_le_nat_alt)
    then have "unat (min cnt (esize (cb_list b ! k) - of_nat r)) = length out"
      using avail rest lt out Some kr
      by (auto simp: read_spec_def min_def word_le_nat_alt)
    then have n: "min cnt (esize (cb_list b ! k) - of_nat r) = of_nat (length out)"
      by (metis of_nat_unat ucast_id)
    have "cnt = 0 \<longleftrightarrow> out = []"
    proof -
      have "cnt = 0 \<longleftrightarrow> unat cnt = 0" by (simp add: unat_eq_zero)
      then show ?thesis using cnt lt out Some kr k(2) by (auto simp: read_spec_def)
    qed
    then show ?thesis
      using Some kr e(1) n r
      by (cases "out = []") (simp_all add: read_locate_def ring_of look cnt_def [symmetric] ring_position_def
          bytes_to_copy_eq Let_def cong: if_cong split del: if_split)
  qed
qed

text \<open>The bytes of the look-up are in the block found.\<close>

lemma located_bytes:
  assumes "ring_rep h b cmds" and "locate (map length cmds) pos = Some (k, r)"
  shows "rd_range h (buffptr (cb_list b ! k)) r (length (read_spec cmds pos count)) =
      Inr (read_spec cmds pos count)"
proof -
  have k: "k < length cmds" "r < length (cmds ! k)" using assms(2) by (auto dest!: locate_SomeD)
  then have "holds h (cb_list b ! k) (cmds ! k)"
    using assms(1) by (auto simp: ring_rep_def list_all2_conv_all_nth)
  then show ?thesis
    using assms(2) k(2) by (subst rd_range_ok) (auto simp: holds_def read_spec_def min_def)
qed

lemma read_deliver_ok:
  assumes "rd_range (heap s) p off (length out) = Inr out" and "kernel_ok K"
    and "length out < 2 ^ 64" and "user_mapped (user s) buf (length out)"
  shows "read_deliver K s buf pos (p, off, of_nat (length out)) =
    Inr (of_nat (length out), pos + of_nat (length out), s\<lparr>user := user_write (user s) buf out\<rparr>)"
  using assms copy_to_user_mapped [OF assms(2,4)] unat_of_nat_small [of "length out", where 'a = 64]
  by (simp add: read_deliver_def)

lemma length_read_spec_total: "length (read_spec cmds pos count) \<le> length (concat cmds)"
  by (subst read_spec_prefix) simp

lemma aesd_read_ok:
  assumes dev: "device s cmds pend" and K: "kernel_ok K" "private_data filp = device_addr K"
    and small: "length (concat cmds) < 2 ^ 64"
    and out: "out = read_spec cmds (unat pos) (unat count)"
    and mapped: "user_mapped (user s) buf (length out)"
  shows "aesd_read K s filp buf count pos =
    Inr (of_nat (length out), pos + of_nat (length out),
         s\<lparr>user := user_write (user s) buf out\<rparr>)"
proof -
  obtain b where b: "heap s (circ_buf (dev s)) = Some (RingObj b)" "ring_rep (heap s) b cmds"
    using dev by (rule deviceE)
  have "length out < 2 ^ 64" using small out length_read_spec_total le_less_trans by blast
  then have "read_deliver K s buf pos (buffptr (cb_list b ! k), r, of_nat (length out)) =
      Inr (of_nat (length out), pos + of_nat (length out), s\<lparr>user := user_write (user s) buf out\<rparr>)"
    if "locate (map length cmds) (unat pos) = Some (k, r)" for k r
    using read_deliver_ok [OF _ K(1) _ mapped] located_bytes [OF b(2) that, of "unat count"] out by simp
  moreover have "out = []" if "locate (map length cmds) (unat pos) = None"
    using that out by (simp add: read_spec_def)
  ultimately show ?thesis
    using read_locate_ok [OF b K(2) small out]
    by (auto simp: aesd_read_parts split: option.split)
qed

section \<open>Module start and exit\<close>

lemma aesd_setup_cdev_ok:
  assumes K: "kernel_ok K" "kernel_room K (card (dom (heap s)) + 2)" and null: "heap s NULL = None"
  shows "\<exists>t p q. aesd_setup_cdev K err s = Inr (err, t) \<and> p \<noteq> q \<and> heap s p = None \<and> heap s q = None \<and>
    heap t = (heap s)(p \<mapsto> RingObj aesd_circular_buffer_init, q \<mapsto> EntryObj zero_entry) \<and>
    device t [] [] \<and> \<not> lock (dev t) \<and> region t = region s \<and>
    cdev_live t = (cdev_live s \<or> err = 0) \<and> user t = user s"
proof -
  obtain p bs where p: "kmalloc K (heap s) 168 = (p, (heap s)(p \<mapsto> Bytes bs))" "p \<noteq> NULL"
    "heap s p = None" "length bs = unat (168 :: size_t)"
    using kmalloc_cases [OF K(1) _ K(2), of 168 "heap s"] by auto
  define h where "h = (heap s)(p \<mapsto> RingObj aesd_circular_buffer_init)"
  have room: "card (dom h) < card (dom (heap s)) + 2"
    using card_dom_upd [of "heap s" p] by (simp add: h_def)
  obtain q bs' where q: "kmalloc K h 16 = (q, h(q \<mapsto> Bytes bs'))" "q \<noteq> NULL" "h q = None"
    "length bs' = unat (16 :: size_t)"
    using kmalloc_cases [OF K(1) _ K(2) room, of 16] by auto
  have full: "aesd_circular_buffer_init\<lparr>full := False\<rparr> = aesd_circular_buffer_init"
    by (simp add: aesd_circular_buffer_init_def)
  have put: "put_ring ((heap s)(p \<mapsto> Bytes bs)) p aesd_circular_buffer_init = Inr h"
    using p(4) by (simp add: put_ring_def obj_fits_def h_def)
  have put': "put_entry (h(q \<mapsto> Bytes bs')) q \<lparr>buffptr = NULL, esize = 0\<rparr> =
      Inr (h(q \<mapsto> EntryObj zero_entry))"
    using q(4) by (simp add: put_entry_def obj_fits_def zero_entry_def)
  have init: "ring_rep g aesd_circular_buffer_init []" for g
    by (simp add: ring_rep_def)
  have pq: "p \<noteq> q" "heap s q = None" "circ_buf (dev s) \<noteq> q \<or> True"
    using q(3) by (auto simp: h_def split: if_splits)
  let ?t = "s\<lparr>heap := h(q \<mapsto> EntryObj zero_entry), dev := \<lparr>lock = False, read_buf = q, circ_buf = p\<rparr>,
    cdev_live := cdev_live s \<or> err = 0\<rparr>"
  have "aesd_setup_cdev K err s = Inr (err, ?t)"
    using p(1) q(1) put put' by (cases s, cases "dev s") (simp add: aesd_setup_cdev_def full Let_def)
  moreover have "device ?t [] []"
    using p(2) q(2) pq null init by (auto simp: device_def idle_def h_def zero_entry_def)
  ultimately show ?thesis
    using pq p(3) by (intro exI [of _ ?t] exI [of _ p] exI [of _ q]) (simp add: h_def)
qed

lemma aesd_init_module_ok:
  assumes "kernel_ok K" and "kernel_room K (card (dom (heap s)) + 2)" and "heap s NULL = None"
    and result: "0 \<le>s result"
  shows "\<exists>t. aesd_init_module K result devno 0 s = Inr (0, t) \<and> device t [] [] \<and>
    \<not> lock (dev t) \<and> region t \<and> cdev_live t \<and> user t = user s \<and>
    card (dom (heap t)) \<le> card (dom (heap s)) + 2"
proof -
  define s0 where "s0 = s\<lparr>aesd_major := drop_bit 20 devno, region := True,
    dev := \<lparr>lock = False, read_buf = NULL, circ_buf = NULL\<rparr>\<rparr>"
  obtain t p q where t: "aesd_setup_cdev K 0 s0 = Inr (0, t)" "device t [] []" "\<not> lock (dev t)"
    "region t" "cdev_live t" "user t = user s"
    "heap t = (heap s)(p \<mapsto> RingObj aesd_circular_buffer_init, q \<mapsto> EntryObj zero_entry)"
    using aesd_setup_cdev_ok [of K s0 0] assms by (auto simp: s0_def)
  have "card (dom (heap t)) \<le> card (dom (heap s)) + 2"
    unfolding t(7) using card_dom_upd [of "(heap s)(p \<mapsto> RingObj aesd_circular_buffer_init)" q "EntryObj zero_entry"]
      card_dom_upd [of "heap s" p "RingObj aesd_circular_buffer_init"] by linarith
  note t = t(1-6) this
  have "\<not> result <s 0" using result by (simp add: signed.not_less)
  then show ?thesis
    using t by (simp add: aesd_init_module_def s0_def Let_def)
qed

text \<open>The pointers of the whole array: those of the commands held, and NULL.\<close>

lemma entry_ptrs_distinct:
  assumes inv: "cb_inv b" and dis: "distinct (map buffptr (cb_list b))"
    and "i < 10" "j < 10" "i \<noteq> j" "buffptr (entry b ! i) = buffptr (entry b ! j)"
  shows "buffptr (entry b ! i) = NULL"
proof (cases "full b")
  case True
  have "map buffptr (cb_list b) = rotate (unat (out_offs b)) (map buffptr (entry b))"
    using True ring_slice_all [OF inv] ring_slice_rotate cb_invD(1,3) [OF inv]
    by (simp add: cb_count_def rotate_map)
  with dis have "distinct (map buffptr (entry b))" by simp
  with assms(3-6) show ?thesis
    using cb_invD(1) [OF inv] by (auto simp: distinct_conv_nth)
next
  case False
  have zero: "buffptr (entry b ! k) = NULL" if "unat (in_offs b) \<le> k" "k < 10" for k
    using cb_invD(6) [OF inv False that] by (simp add: zero_entry_def)
  have "entry b ! k = cb_list b ! k" if "k < unat (in_offs b)" for k
    using that False cb_invD(2,5) [OF inv] by (simp add: cb_list_def cb_count_def)
  with dis assms(3-6) zero show ?thesis
    using False by (metis (no_types, lifting) cb_count_def distinct_conv_nth leI length_cb_list
        length_map nth_map)
qed

lemma set_entry:
  assumes "cb_inv b"
  shows "buffptr ` set (entry b) - {NULL} = taken b - {NULL}"
proof -
  have "set (entry b) = set (cb_list b @ replicate (10 - cb_count b) zero_entry)"
    using ring_slice_all [OF assms] ring_slice_rotate cb_invD(1,3) [OF assms]
    by (metis set_rotate)
  then show ?thesis by (auto simp: taken_def zero_entry_def)
qed

lemma cleanup_loop_ok:
  assumes K: "kernel_ok K" and len: "length (entry b) = 10" and "i \<le> 10"
    and ring: "h p = Some (RingObj b)"
    and blocks: "\<forall>j \<in> {i..<10}. buffptr (entry b ! j) \<noteq> NULL \<longrightarrow>
      (\<exists>bs. h (buffptr (entry b ! j)) = Some (Bytes bs))"
    and dis: "\<And>j k. j < 10 \<Longrightarrow> k < 10 \<Longrightarrow> j \<noteq> k \<Longrightarrow> buffptr (entry b ! j) = buffptr (entry b ! k) \<Longrightarrow>
      buffptr (entry b ! j) = NULL"
  shows "cleanup_loop K p (of_nat i) h =
    Inr (\<lambda>q. if q \<in> buffptr ` set (drop i (entry b)) - {NULL} then None else h q)"
  using assms(3) ring blocks
proof (induction "10 - i" arbitrary: i h)
  case 0
  then show ?case using len by (subst cleanup_loop.simps) simp
next
  case (Suc m)
  then have i: "i < 10" and m: "m = 10 - Suc i" by simp_all
  have u: "unat (of_nat i :: u8) = i" using i by (intro unat_of_nat_small) simp
  have lt: "(of_nat i :: u8) < of_nat AESDCHAR_MAX_WRITE_OPERATIONS_SUPPORTED"
    using i u by (simp add: word_less_nat_alt AESDCHAR_MAX_WRITE_OPERATIONS_SUPPORTED_def)
  let ?q = "buffptr (entry b ! i)"
  define h' where "h' = (if ?q = NULL then h else h(?q := None))"
  have free: "do_kfree K h ?q = Inr h'"
    using Suc.prems(3) i kfree_eq(1) [OF K] kfree_eq(2) [OF K]
    by (auto simp: do_kfree_def h'_def)
  have drop: "drop i (entry b) = entry b ! i # drop (Suc i) (entry b)"
    using len i by (simp add: Cons_nth_drop_Suc)
  have ring': "h' p = Some (RingObj b)"
    using Suc.prems(2,3) i by (auto simp: h'_def)
  have blocks': "\<forall>j \<in> {Suc i..<10}. buffptr (entry b ! j) \<noteq> NULL \<longrightarrow>
      (\<exists>bs. h' (buffptr (entry b ! j)) = Some (Bytes bs))"
    using Suc.prems(3) dis i by (auto simp: h'_def)
  have "cleanup_loop K p (of_nat i) h = cleanup_loop K p (of_nat (Suc i)) h'"
    using i u free Suc.prems(2) len lt
    by (subst cleanup_loop.simps) (simp add: get_ring_def entry_at_def add.commute)
  also have "\<dots> = Inr (\<lambda>q. if q \<in> buffptr ` set (drop (Suc i) (entry b)) - {NULL} then None else h' q)"
    using Suc.hyps(1) [OF m _ ring' blocks'] i by simp
  also have "\<dots> = Inr (\<lambda>q. if q \<in> buffptr ` set (drop i (entry b)) - {NULL} then None else h q)"
    by (rule arg_cong [of _ _ Inr]) (auto simp: drop h'_def)
  finally show ?case .
qed

lemma aesd_cleanup_module_ok:
  assumes dev: "device s cmds pend" and K: "kernel_ok K"
    and b: "heap s (circ_buf (dev s)) = Some (RingObj b)"
  shows "aesd_cleanup_module K s = Inr (s\<lparr>heap := (\<lambda>q. if q \<in> taken b then None else heap s q),
    cdev_live := False, region := False\<rparr>)"
proof -
  have ring: "ring_rep (heap s) b cmds" using dev b by (auto elim: deviceE)
  then have inv: "cb_inv b" and dis: "distinct (map buffptr (cb_list b))"
    by (simp_all add: ring_rep_def)
  have null: "heap s NULL = None" using dev by (auto simp: device_def idle_def collecting_def)
  then have nt: "NULL \<notin> taken b" using ring_rep_Bytes [OF ring] by force
  have "buffptr (entry b ! j) \<in> taken b" if "j < 10" "buffptr (entry b ! j) \<noteq> NULL" for j
    using that set_entry [OF inv] cb_invD(1) [OF inv] by (metis DiffE DiffI imageI nth_mem singletonD)
  then have "\<forall>j \<in> {0..<10}. buffptr (entry b ! j) \<noteq> NULL \<longrightarrow>
      (\<exists>bs. heap s (buffptr (entry b ! j)) = Some (Bytes bs))"
    using ring_rep_Bytes [OF ring] by auto
  then have "cleanup_loop K (circ_buf (dev s)) (of_nat 0) (heap s) =
    Inr (\<lambda>q. if q \<in> buffptr ` set (drop 0 (entry b)) - {NULL} then None else heap s q)"
    using entry_ptrs_distinct [OF inv dis] cb_invD(1) [OF inv] b K
    by (intro cleanup_loop_ok) auto
  then show ?thesis
    using nt by (simp add: aesd_cleanup_module_def set_entry [OF inv])
qed

end
