(* ===== verification/Driver_Properties.thy ===== *)
theory Driver_Properties
  imports Char_Driver
begin

text \<open>
  What the character device promises a process that opens, writes, seeks and reads it, on
  every path of \<open>aesd-char-driver/main.c\<close> but the \<open>ioctl\<close>; and a concrete device at which
  the promises are exercised.
\<close>

section \<open>A concrete device\<close>

text \<open>
  A device after module start, in a kernel with room for 32 blocks. The process has 16 bytes
  at address 512, of which the first three are \<open>h\<close>, \<open>i\<close>, newline.
\<close>

definition fresh_device :: kstate where
  "fresh_device = \<lparr>
     heap = [4096 \<mapsto> RingObj aesd_circular_buffer_init, 8192 \<mapsto> EntryObj zero_entry],
     user = user_write (\<lambda>_. None) 512 (104 # 105 # newline # replicate 13 0),
     dev = \<lparr>lock = False, read_buf = 8192, circ_buf = 4096\<rparr>,
     aesd_major = 240, region = True, cdev_live = True\<rparr>"

definition opened_file :: struct_file where
  "opened_file = \<lparr>f_pos = 0, private_data = 256\<rparr>"

lemma fresh_device_rep: "device fresh_device [] []"
  by (simp add: device_def idle_def fresh_device_def ring_rep_def zero_entry_def)

lemma fresh_device_fields [simp]:
  "lock (dev fresh_device) = False" "circ_buf (dev fresh_device) = 4096"
  "read_buf (dev fresh_device) = 8192" "private_data opened_file = device_addr first_fit_kernel"
  "heap fresh_device 4096 = Some (RingObj aesd_circular_buffer_init)"
  by (simp_all add: fresh_device_def opened_file_def first_fit_kernel_def)

lemma fresh_device_blocks [simp]: "card (dom (heap fresh_device)) = 2"
  by (simp add: fresh_device_def)

lemma fresh_device_user: "user_at (user fresh_device) 512 3 = map Some [104, 105, newline]"
  by (simp add: fresh_device_def user_at_def user_write_def upt_conv_Cons numeral_3_eq_3)

lemma fresh_device_mapped:
  "i + n \<le> 16 \<Longrightarrow> user_mapped (user fresh_device) (512 + of_nat i) n"
proof -
  assume i: "i + n \<le> 16"
  have "unat (of_nat i + of_nat j :: size_t) < 16" if "j < n" for j
  proof -
    have "unat (of_nat (i + j) :: size_t) = i + j"
      by (rule unat_of_nat_small) (rule less_trans [of _ 16], use i that in simp_all)
    with i that show ?thesis by simp
  qed
  then show ?thesis
    by (auto simp: user_mapped_def fresh_device_def user_write_def)
qed

lemma fresh_device_write_call:
  "write_call first_fit_kernel fresh_device opened_file 512 3 [104, 105, newline]"
  using first_fit_kernel_ok first_fit_kernel_room [of 4] fresh_device_user
  by (simp add: write_call_def)

section \<open>Write\<close>

text \<open>
  C4: A write that the kernel serves returns its length and refines the abstract log: the
  bytes are appended to the command being collected and, when they contain a newline, the
  collected bytes become the newest of the last ten commands. The mutex is free again.
\<close>

theorem aesd_write_refines_log:
  assumes "device s cmds pend" and "write_call K s filp buf count bs"
    and "length pend + length bs \<le> 2147483647"
  shows "\<exists>t. aesd_write K False s filp buf count = Inr (count, t) \<and>
    device t (fst (write_spec bs (cmds, pend))) (snd (write_spec bs (cmds, pend))) \<and>
    \<not> lock (dev t)"
  using aesd_write_ok [OF assms] by blast

theorem aesd_write_refines_log_witness:
  "\<exists>t. aesd_write first_fit_kernel False fresh_device opened_file 512 3 = Inr (3, t) \<and>
    device t [[104, 105, newline]] [] \<and> \<not> lock (dev t)"
  using aesd_write_refines_log [OF fresh_device_rep fresh_device_write_call] by simp

section \<open>Errors of a write\<close>

text \<open>
  A signal that arrives while a write waits for the mutex makes it return
  \<open>-ERESTARTSYS\<close>, with nothing changed; a write that finds the mutex held does not return.
\<close>

theorem aesd_write_signalled_or_waits:
  "private_data filp = device_addr K \<Longrightarrow>
    aesd_write K True s filp buf count = Inr (- ERESTARTSYS, s) \<and>
    (lock (dev s) \<longrightarrow> aesd_write K False s filp buf count = Inl Blocked)"
  by (simp add: aesd_write_def dev_of_def mutex_lock_interruptible_def)

theorem aesd_write_signalled_or_waits_witness:
  "aesd_write first_fit_kernel True fresh_device opened_file 512 3 =
    Inr (- ERESTARTSYS, fresh_device)"
  using aesd_write_signalled_or_waits [of opened_file first_fit_kernel] by simp

text \<open>
  When the buffer of the caller is not readable, the write returns \<open>-EFAULT\<close> but keeps
  the mutex: every later write of the device waits for ever.
\<close>

theorem aesd_write_efault_keeps_lock:
  assumes dev: "device s cmds pend" and K: "kernel_ok K" "kernel_room K (card (dom (heap s)) + 2)"
    and filp: "private_data filp = device_addr K" and free: "\<not> lock (dev s)"
    and count: "count \<noteq> 0" "length pend + unat count < 2 ^ 64"
    and bad: "\<not> user_mapped (user s) buf (unat count)"
  shows "\<exists>t. aesd_write K False s filp buf count = Inr (- EFAULT, t) \<and> lock (dev t) \<and>
    (\<forall>buf' count'. aesd_write K False t filp buf' count' = Inl Blocked)"
proof -
  define s1 where "s1 = s\<lparr>dev := (dev s)\<lparr>lock := True\<rparr>\<rparr>"
  have s1: "device s1 cmds pend" "heap s1 = heap s" "user s1 = user s" "lock (dev s1)"
    using dev by (auto simp: s1_def device_def idle_def collecting_def)
  have mutex: "mutex_lock_interruptible False s = Inr (False, s1)"
    using free by (simp add: mutex_lock_interruptible_def s1_def)
  obtain s2 where s2: "write_new_entry K s1 = Inr s2" "device s2 cmds pend" "same_rest s1 s2"
    "read_buf (dev s2) \<noteq> NULL" "card (dom (heap s2)) \<le> Suc (card (dom (heap s1)))"
    using write_new_entry_ok [OF s1(1) K(1) K(2)] s1(2) by auto
  obtain s3 blk where s3: "write_grow K s2 count = Inr s3"
    "collecting s3 cmds (pend @ blk) (length pend)" "length blk = unat count" "same_rest s2 s3"
    using write_grow_ok [OF s2(2,4) K(1) K(2) _ count] s2(5) s1(2) by auto
  have "user s3 = user s" "lock (dev s3)"
    using s1(3,4) s2(3) s3(4) by (simp_all add: same_rest_def)
  obtain left s4 where s4: "write_copy_in K s3 buf count = Inr (left, s4)" "left \<noteq> 0"
    "lock (dev s4)"
    using write_copy_in_fails [OF s3(2) K(1) s3(3), of buf] bad \<open>user s3 = user s\<close>
      \<open>lock (dev s3)\<close> by (auto simp: same_rest_def)
  have "aesd_write K False s filp buf count = Inr (- EFAULT, s4)"
    using filp mutex s2(1) s3(1) s4(1,2) by (simp add: aesd_write_def dev_of_def)
  moreover have "aesd_write K False s4 filp buf' count' = Inl Blocked" for buf' count'
    using filp s4(3) by (simp add: aesd_write_def dev_of_def mutex_lock_interruptible_def)
  ultimately show ?thesis using s4(3) by blast
qed

theorem aesd_write_efault_keeps_lock_witness:
  "\<exists>t. aesd_write first_fit_kernel False fresh_device opened_file 0 5 = Inr (- EFAULT, t) \<and>
    lock (dev t)"
proof -
  have "\<not> user_mapped (user fresh_device) 0 (unat (5 :: size_t))"
    by (auto simp: user_mapped_def fresh_device_def user_write_def intro!: bexI [of _ 0])
  then show ?thesis
    using aesd_write_efault_keeps_lock [OF fresh_device_rep first_fit_kernel_ok,
        of opened_file 5 0] first_fit_kernel_room [of 4] by auto
qed

section \<open>Read and seek\<close>

text \<open>
  C5: A read returns the number of bytes it stores at the buffer of the caller and advances
  the position by it. The bytes are those at the position in the concatenation of the
  commands held, at most \<open>count\<close>; there are none only at the end of the contents, or when
  none are asked for.
\<close>

theorem aesd_read_serves_contents:
  assumes "device s cmds pend" and "kernel_ok K" and "private_data filp = device_addr K"
    and "length (concat cmds) < 2 ^ 64" and "user_mapped (user s) buf (unat count)"
  shows "\<exists>bs. aesd_read K s filp buf count pos =
      Inr (of_nat (length bs), pos + of_nat (length bs), s\<lparr>user := user_write (user s) buf bs\<rparr>) \<and>
    bs = take (length bs) (drop (unat pos) (concat cmds)) \<and> length bs \<le> unat count \<and>
    (bs = [] \<longleftrightarrow> count = 0 \<or> length (concat cmds) \<le> unat pos)"
proof (intro exI conjI)
  let ?out = "read_spec cmds (unat pos) (unat count)"
  have "user_mapped (user s) buf (length ?out)"
    using assms(5) length_read_spec [of cmds "unat pos" "unat count"]
    by (auto simp: user_mapped_def)
  then show "aesd_read K s filp buf count pos =
      Inr (of_nat (length ?out), pos + of_nat (length ?out), s\<lparr>user := user_write (user s) buf ?out\<rparr>)"
    using aesd_read_ok [OF assms(1-4) refl] by blast
  show "?out = take (length ?out) (drop (unat pos) (concat cmds))" by (rule read_spec_prefix)
  show "length ?out \<le> unat count" by (rule length_read_spec)
  show "?out = [] \<longleftrightarrow> count = 0 \<or> length (concat cmds) \<le> unat pos"
    by (simp add: read_spec_Nil_iff unat_eq_zero)
qed

theorem aesd_read_serves_contents_witness:
  "\<exists>bs. aesd_read first_fit_kernel fresh_device opened_file 512 16 0 =
      Inr (of_nat (length bs), 0 + of_nat (length bs),
        fresh_device\<lparr>user := user_write (user fresh_device) 512 bs\<rparr>) \<and> bs = []"
  using aesd_read_serves_contents [OF fresh_device_rep first_fit_kernel_ok, of opened_file 512 16 0]
    fresh_device_mapped [of 0 16] by auto

text \<open>
  C6: A command is read back as it was written: after a write that ends a command, a read
  at the place of the newest command returns that command, byte for byte.
\<close>

theorem write_then_read_back:
  assumes dev: "device s cmds pend" and call: "write_call K s filp buf count bs"
    and "newline \<in> set bs" and small: "length pend + length bs \<le> 2147483647"
    and total: "length (concat (lastn 10 (cmds @ [pend @ bs]))) < 2 ^ 64"
    and pos: "pos + of_nat (length (pend @ bs)) = of_nat (length (concat (lastn 10 (cmds @ [pend @ bs]))))"
    and room: "length (pend @ bs) \<le> unat rcount"
      "user_mapped (user s) rbuf (length (pend @ bs))"
  shows "\<exists>t t'. aesd_write K False s filp buf count = Inr (count, t) \<and>
    aesd_read K t filp rbuf rcount pos =
      Inr (of_nat (length (pend @ bs)), pos + of_nat (length (pend @ bs)), t') \<and>
    user_at (user t') rbuf (length (pend @ bs)) = map Some (pend @ bs)"
proof -
  let ?cmd = "pend @ bs" and ?cmds = "lastn 10 (cmds @ [pend @ bs])"
  have K: "kernel_ok K" "private_data filp = device_addr K" and ne: "?cmd \<noteq> []"
    using call by (simp_all add: write_call_def)
  obtain t where t: "aesd_write K False s filp buf count = Inr (count, t)"
    "device t ?cmds []" "user t = user s"
    using aesd_write_ok [OF dev call small] assms(3) by auto
  obtain old where old: "?cmds = old @ [?cmd]"
    by (rule that [of "butlast ?cmds"]) (simp add: lastn_def)
  have "pos = of_nat (length (concat old))"
    using pos by (simp add: old)
  then have upos: "unat pos = length (concat old)"
    using total by (simp add: old unat_of_nat_small)
  have "locate (map length ?cmds) (unat pos) = Some (length old, 0)"
    using ne by (simp only: old upos) (simp add: locate_last length_concat del: length_append)
  then have "?cmd = read_spec ?cmds (unat pos) (unat rcount)"
    using room(1) by (simp only: read_spec_def old) simp
  then have "aesd_read K t filp rbuf rcount pos =
      Inr (of_nat (length ?cmd), pos + of_nat (length ?cmd), t\<lparr>user := user_write (user t) rbuf ?cmd\<rparr>)"
    using aesd_read_ok [OF t(2) K total] room(2) t(3) by simp
  moreover have "user_at (user_write (user t) rbuf ?cmd) rbuf (length ?cmd) = map Some ?cmd"
    using small by (intro user_at_write) simp
  ultimately show ?thesis using t(1) by fastforce
qed

theorem write_then_read_back_witness:
  "\<exists>t t'. aesd_write first_fit_kernel False fresh_device opened_file 512 3 = Inr (3, t) \<and>
    aesd_read first_fit_kernel t opened_file 515 10 0 = Inr (3, 3, t') \<and>
    user_at (user t') 515 3 = map Some [104, 105, newline]"
proof -
  have "user_mapped (user fresh_device) 515 3"
    using fresh_device_mapped [of 3 3] by simp
  then show ?thesis
    using write_then_read_back [OF fresh_device_rep fresh_device_write_call, of 0 10 515]
    by (simp add: numeral_3_eq_3)
qed

text \<open>
  A seek returns the requested position and stores it, whatever its sign: for the three
  defined origins the call never fails, also when the position is before the start of the
  device, because the range check is made on an unsigned value. Any other origin is
  \<open>-EINVAL\<close>, with the position kept.
\<close>

theorem aesd_llseek_never_rejects:
  assumes "device s cmds pend" and "private_data filp = device_addr K"
    and "length (concat cmds) < 2 ^ 64"
  shows "aesd_llseek K s filp off whence =
    (let origin = (if whence = 0 then Some 0 else if whence = 1 then Some (f_pos filp)
                   else if whence = 2 then Some (of_nat (length (concat cmds))) else None)
     in case origin of
          None \<Rightarrow> Inr (- EINVAL, filp)
        | Some n \<Rightarrow> Inr (n + off, filp\<lparr>f_pos := n + off\<rparr>))"
proof -
  obtain b where b: "heap s (circ_buf (dev s)) = Some (RingObj b)" "ring_rep (heap s) b cmds"
    using assms(1) by (rule deviceE)
  have "ring_of K filp s = Inr b"
    using b(1) assms(2) by (simp add: ring_of_def dev_of_def get_ring_def)
  then show ?thesis
    using ring_lookup(1) [OF b(2) assms(3)] by (auto simp: aesd_llseek_def)
qed

theorem aesd_llseek_never_rejects_witness:
  "aesd_llseek first_fit_kernel fresh_device opened_file (- 5) 2 =
    Inr (- 5, opened_file\<lparr>f_pos := - 5\<rparr>)"
  using aesd_llseek_never_rejects [OF fresh_device_rep, of opened_file first_fit_kernel "- 5" 2]
  by simp

section \<open>Module start and exit\<close>

text \<open>
  A module start that the kernel serves leaves an empty device with its mutex free and
  registered, and a file opened on its character device reaches it.
\<close>

theorem module_start_and_open:
  assumes "kernel_ok K" and "kernel_room K (card (dom (heap s)) + 2)" and "heap s NULL = None"
    and "0 \<le>s result"
  shows "\<exists>t. aesd_init_module K result devno 0 s = Inr (0, t) \<and> device t [] [] \<and>
    \<not> lock (dev t) \<and> region t \<and> cdev_live t \<and>
    (\<exists>f. aesd_open K (device_addr K + cdev_offset K) filp = (0, f) \<and>
       dev_of K f t = Inr (dev t) \<and> aesd_read K t f buf count pos = Inr (0, pos, t))"
proof -
  obtain t where t: "aesd_init_module K result devno 0 s = Inr (0, t)" "device t [] []"
    "\<not> lock (dev t)" "region t" "cdev_live t"
    using aesd_init_module_ok [OF assms] by blast
  let ?f = "filp\<lparr>private_data := device_addr K\<rparr>"
  have "aesd_read K t ?f buf count pos = Inr (0, pos, t)"
    using aesd_read_ok [OF t(2) assms(1), of ?f "[]" pos count buf]
    by (simp add: read_spec_def user_mapped_def)
  with t show ?thesis by (simp add: aesd_open_def dev_of_def)
qed

text \<open>A machine with nothing allocated.\<close>

definition bare_machine :: kstate where
  "bare_machine = fresh_device\<lparr>heap := Map.empty, dev := \<lparr>lock = True, read_buf = 1, circ_buf = 1\<rparr>,
     region := False, cdev_live := False\<rparr>"

lemma bare_machine_room:
  "kernel_room first_fit_kernel (card (dom (heap bare_machine)) + 2)" "heap bare_machine NULL = None"
proof -
  have "card (dom (heap bare_machine)) + 2 = 2" by (simp add: bare_machine_def)
  moreover have "kernel_room first_fit_kernel 2" by (rule first_fit_kernel_room) simp
  ultimately show "kernel_room first_fit_kernel (card (dom (heap bare_machine)) + 2)"
    by (simp only:)
  show "heap bare_machine NULL = None" by (simp add: bare_machine_def)
qed

theorem module_start_and_open_witness:
  "\<exists>t. aesd_init_module first_fit_kernel 0 251658240 0 bare_machine = Inr (0, t) \<and>
    device t [] [] \<and> \<not> lock (dev t)"
  using module_start_and_open [OF first_fit_kernel_ok bare_machine_room, of 0 251658240]
  by force

text \<open>
  The two failures of a module start. When no device number can be had, the error is
  returned and nothing has been allocated. When the character device cannot be added, the
  number is given back and the error returned, but the circular buffer and the first entry
  stay allocated.
\<close>

theorem module_start_failures:
  assumes "kernel_ok K" and "kernel_room K (card (dom (heap s)) + 2)" and "heap s NULL = None"
  shows "(result <s 0 \<longrightarrow>
      aesd_init_module K result devno err s = Inr (result, s\<lparr>aesd_major := drop_bit 20 devno\<rparr>)) \<and>
    (0 \<le>s result \<longrightarrow> err \<noteq> 0 \<longrightarrow>
      (\<exists>t p q b e. aesd_init_module K result devno err s = Inr (err, t) \<and> \<not> region t \<and>
         cdev_live t = cdev_live s \<and>
         heap t = (heap s)(p \<mapsto> RingObj b, q \<mapsto> EntryObj e) \<and> p \<noteq> q \<and> heap s p = None \<and> heap s q = None))"
proof (intro conjI impI)
  assume "result <s 0"
  then show "aesd_init_module K result devno err s = Inr (result, s\<lparr>aesd_major := drop_bit 20 devno\<rparr>)"
    by (simp add: aesd_init_module_def Let_def)
next
  assume r: "0 \<le>s result" and err: "err \<noteq> 0"
  define s0 where "s0 = s\<lparr>aesd_major := drop_bit 20 devno, region := True,
    dev := \<lparr>lock = False, read_buf = NULL, circ_buf = NULL\<rparr>\<rparr>"
  obtain t p q where t: "aesd_setup_cdev K err s0 = Inr (err, t)"
    "heap t = (heap s0)(p \<mapsto> RingObj aesd_circular_buffer_init, q \<mapsto> EntryObj zero_entry)"
    "p \<noteq> q" "heap s0 p = None" "heap s0 q = None" "cdev_live t = (cdev_live s0 \<or> err = 0)"
    using aesd_setup_cdev_ok [of K s0 err] assms by (auto simp: s0_def)
  have "\<not> result <s 0" using r by (simp add: signed.not_less)
  then have "aesd_init_module K result devno err s = Inr (err, t\<lparr>region := False\<rparr>)"
    using err t(1) by (simp add: aesd_init_module_def s0_def Let_def)
  then show "\<exists>t p q b e. aesd_init_module K result devno err s = Inr (err, t) \<and> \<not> region t \<and>
      cdev_live t = cdev_live s \<and>
      heap t = (heap s)(p \<mapsto> RingObj b, q \<mapsto> EntryObj e) \<and> p \<noteq> q \<and> heap s p = None \<and> heap s q = None"
    using t err
    by (intro exI [of _ "t\<lparr>region := False\<rparr>"] exI [of _ p] exI [of _ q]) (auto simp: s0_def)
qed

theorem module_start_failures_witness:
  "\<exists>t. aesd_init_module first_fit_kernel 0 251658240 (- 12) bare_machine = Inr (- 12, t) \<and>
    \<not> region t \<and> card (dom (heap t)) = 2"
proof -
  have "(- 12 :: c_int) \<noteq> 0" "(0 :: c_int) \<le>s 0" by simp_all
  then obtain t p q b e where
    "aesd_init_module first_fit_kernel 0 251658240 (- 12) bare_machine = Inr (- 12, t)" "\<not> region t"
    "heap t = (heap bare_machine)(p \<mapsto> RingObj b, q \<mapsto> EntryObj e)" "p \<noteq> q"
    using module_start_failures [OF first_fit_kernel_ok bare_machine_room, of 0 251658240 "- 12"]
    by metis
  moreover from this have "card (dom (heap t)) = 2"
    by (simp add: bare_machine_def)
  ultimately show ?thesis by blast
qed

text \<open>
  C36: Module exit frees the block of every command held, once, and unregisters the device;
  the circular buffer itself, the entry that collects a command and its bytes are not freed.
\<close>

theorem aesd_cleanup_frees_commands:
  assumes dev: "device s cmds pend" and K: "kernel_ok K"
  shows "\<exists>t b. aesd_cleanup_module K s = Inr t \<and> \<not> region t \<and> \<not> cdev_live t \<and>
    heap s (circ_buf (dev s)) = Some (RingObj b) \<and> card (taken b) = length cmds \<and>
    heap t = (\<lambda>q. if q \<in> taken b then None else heap s q) \<and>
    heap t (circ_buf (dev s)) = Some (RingObj b) \<and>
    heap t (read_buf (dev s)) = heap s (read_buf (dev s))"
proof -
  obtain b where b: "heap s (circ_buf (dev s)) = Some (RingObj b)" "ring_rep (heap s) b cmds"
    using dev by (rule deviceE)
  have "card (taken b) = length cmds"
    using b(2) length_cmds [OF b(2)] by (simp add: ring_rep_def taken_def distinct_card flip: set_map)
  moreover have "circ_buf (dev s) \<notin> taken b" using not_takenI(3) [OF b(2,1)] .
  moreover have "read_buf (dev s) \<in> taken b \<longrightarrow> heap s (read_buf (dev s)) = None"
  proof
    assume t: "read_buf (dev s) \<in> taken b"
    then obtain bs where "heap s (read_buf (dev s)) = Some (Bytes bs)"
      using ring_rep_Bytes [OF b(2)] by blast
    then show "heap s (read_buf (dev s)) = None"
      using dev by (auto simp: device_def idle_def collecting_def)
  qed
  ultimately show ?thesis
    using aesd_cleanup_module_ok [OF dev K b(1)] b(1) by auto
qed

theorem aesd_cleanup_frees_commands_witness:
  "\<exists>t b. aesd_cleanup_module first_fit_kernel fresh_device = Inr t \<and>
    heap t 4096 = Some (RingObj b)"
  using aesd_cleanup_frees_commands [OF fresh_device_rep first_fit_kernel_ok] by auto

text \<open>
  Every command that is completed while an entry is in use leaves that entry allocated
  and reachable from nothing: it is neither the entry being collected nor one of the blocks
  that module exit frees.
\<close>

theorem completed_write_leaks_entry:
  assumes "device s cmds pend" and "write_call K s filp buf count bs"
    and "length pend + length bs \<le> 2147483647" and "newline \<in> set bs"
    and "read_buf (dev s) \<noteq> NULL"
  shows "\<exists>t u. aesd_write K False s filp buf count = Inr (count, t) \<and> read_buf (dev t) = NULL \<and>
    aesd_cleanup_module K t = Inr u \<and> heap u (read_buf (dev s)) \<noteq> None"
proof -
  obtain t e where t: "aesd_write K False s filp buf count = Inr (count, t)"
    "device t (lastn 10 (cmds @ [pend @ bs])) []" "read_buf (dev t) = NULL"
    "heap t (read_buf (dev s)) = Some (EntryObj e)"
    using aesd_write_ok [OF assms(1-3)] assms(4,5) by auto
  obtain b where b: "heap t (circ_buf (dev t)) = Some (RingObj b)"
    "ring_rep (heap t) b (lastn 10 (cmds @ [pend @ bs]))"
    using t(2) by (rule deviceE)
  have "read_buf (dev s) \<notin> taken b" using not_takenI(2) [OF b(2) t(4)] .
  then show ?thesis
    using aesd_cleanup_module_ok [OF t(2) _ b(1)] t assms(2) by (auto simp: write_call_def)
qed

theorem completed_write_leaks_entry_witness:
  "\<exists>t u. aesd_write first_fit_kernel False fresh_device opened_file 512 3 = Inr (3, t) \<and>
    aesd_cleanup_module first_fit_kernel t = Inr u \<and> heap u 8192 \<noteq> None"
  using completed_write_leaks_entry [OF fresh_device_rep fresh_device_write_call] by auto

end
