(* ===== verification/Seek_Ioctl.thy ===== *)
theory Seek_Ioctl
  imports Driver_Properties
begin

text \<open>
  The seek command of the character device: \<open>aesd_ioctl\<close> of \<open>aesd-char-driver/main.c\<close> and
  the structure of \<open>aesd-char-driver/aesd_ioctl.h\<close> that carries it between the process and
  the driver.
\<close>

section \<open>The structure of the command\<close>

record aesd_seekto =
  write_cmd :: u32
  write_cmd_offset :: u32
  length_copied :: size_t
  special_buffer :: ptr

text \<open>The machine stores integers with the least significant byte first.\<close>

definition le_bytes :: "nat \<Rightarrow> 'a::len word \<Rightarrow> byte list" where
  "le_bytes n w = map (\<lambda>i. ucast (drop_bit (8 * i) w)) [0..<n]"

fun of_le :: "byte list \<Rightarrow> 'a::len word" where
  "of_le [] = 0"
| "of_le (b # bs) = or (ucast b) (push_bit 8 (of_le bs))"

text \<open>The layout of the structure: 24 bytes, no padding.\<close>

definition encode_seekto :: "aesd_seekto \<Rightarrow> byte list" where
  "encode_seekto r = le_bytes 4 (write_cmd r) @ le_bytes 4 (write_cmd_offset r) @
     le_bytes 8 (length_copied r) @ le_bytes 8 (special_buffer r)"

definition decode_seekto :: "byte list \<Rightarrow> aesd_seekto" where
  "decode_seekto bs = \<lparr>write_cmd = of_le (take 4 bs), write_cmd_offset = of_le (take 4 (drop 4 bs)),
     length_copied = of_le (take 8 (drop 8 bs)), special_buffer = of_le (take 8 (drop 16 bs))\<rparr>"

text \<open>\<open>_IOWR(0x16, 1, struct aesd_seekto)\<close>: direction, size, magic number, number.\<close>

definition AESDCHAR_IOCSEEKTO :: u32 where
  "AESDCHAR_IOCSEEKTO = push_bit 30 3 + push_bit 16 24 + push_bit 8 22 + 1"

section \<open>The copy loops\<close>

text \<open>
  The inner loop copies \<open>n\<close> bytes of one entry to the buffer \<open>mb\<close>. The index into the
  entry, \<open>i + write_cmd_offset\<close>, is computed in 32 bits. The counters \<open>i\<close> and \<open>pos\<close> are
  \<open>int\<close>s that stay below the size of the block written.
\<close>

fun seek_copy :: "kheap \<Rightarrow> ptr \<Rightarrow> ptr \<Rightarrow> nat \<Rightarrow> nat \<Rightarrow> u32 \<Rightarrow> nat \<Rightarrow> (kheap \<times> nat) res" where
  "seek_copy h mb p 0 i off pos = Inr (h, pos)"
| "seek_copy h mb p (Suc n) i off pos =
     bindE (rd_range h p (unat (of_nat i + off)) 1) (\<lambda>c.
     bindE (wr_range h mb pos c) (\<lambda>h.
     seek_copy h mb p n (Suc i) off (Suc pos)))"

text \<open>
  The outer loop goes through the entries from index \<open>p\<close> on until enough bytes have been
  copied or the oldest entry is reached. The number of bytes to take from an entry is a
  \<open>long\<close>, which is negative when the offset is past its end.
\<close>

partial_function (option) seek_loop ::
  "aesd_circular_buffer \<Rightarrow> ptr \<Rightarrow> c_long \<Rightarrow> kheap \<Rightarrow> size_t \<Rightarrow> u32 \<Rightarrow> nat \<Rightarrow> nat \<Rightarrow>
   (kheap \<times> nat) res option" where
  "seek_loop b mb total_bytes_to_read h p off pos sent =
     (if int sent < sint total_bytes_to_read then
        (case entry_at b p of
           Inl f \<Rightarrow> Some (Inl f)
         | Inr e \<Rightarrow>
             (let n = nat (sint (esize e - ucast off)) in
              case seek_copy h mb (buffptr e) n 0 off pos of
                Inl f \<Rightarrow> Some (Inl f)
              | Inr (h, pos) \<Rightarrow>
                  (let p = p + 1;
                       p = (if p = of_nat AESDCHAR_MAX_WRITE_OPERATIONS_SUPPORTED then 0 else p)
                   in if p = ucast (out_offs b) then Some (Inr (h, pos))
                      else seek_loop b mb total_bytes_to_read h p 0 pos (sent + n))))
      else Some (Inr (h, pos)))"

section \<open>The command\<close>

text \<open>
  The number of bytes to send and the index of the first entry, as the code computes them.
\<close>

definition seek_total :: "size_t \<Rightarrow> u32 \<Rightarrow> c_long" where
  "seek_total len offset =
     (let total_bytes_to_read = len - ucast offset
      in if total_bytes_to_read <s 1 then 0 else total_bytes_to_read)"

definition seek_first :: "u8 \<Rightarrow> u32 \<Rightarrow> size_t" where
  "seek_first curr_pos cmd =
     (let buff_to_read = ucast curr_pos + ucast cmd
      in if buff_to_read > 9 then buff_to_read - 10 else buff_to_read)"

text \<open>
  The end of the command: the bytes and the request with their number go to the process, the
  buffer is freed and the mutex released. The results of the copies are not looked at.
\<close>

definition seek_finish ::
  "kernel \<Rightarrow> kstate \<Rightarrow> ptr \<Rightarrow> ptr \<Rightarrow> aesd_seekto \<Rightarrow> kheap \<times> nat \<Rightarrow> (c_long \<times> kstate) res" where
  "seek_finish K s mybuffer arg myseek r = (case r of (h, mybufferposition) \<Rightarrow>
     bindE (if mybufferposition = 0 then Inr [] else rd_range h mybuffer 0 mybufferposition) (\<lambda>out.
     let (um, left) = copy_to_user K (user s) (special_buffer myseek) out;
         myseek = myseek\<lparr>length_copied := of_nat mybufferposition\<rparr>;
         (um, left) = copy_to_user K um arg (encode_seekto myseek)
     in bindE (do_kfree K h mybuffer) (\<lambda>h.
        Inr (0, mutex_unlock (s\<lparr>heap := h, user := um\<rparr>)))))"

text \<open>
  The case \<open>AESDCHAR_IOCSEEKTO\<close> with the mutex held, in three parts. The first allocates the
  scratch buffer of 500 bytes and copies the request; the result of the copy is not looked at. The
  second copies the bytes to the scratch buffer; it is \<open>None\<close> where the code returns \<open>-EINVAL\<close>, with
  the mutex locked and the scratch buffer allocated.
\<close>

definition seek_fetch :: "kernel \<Rightarrow> kstate \<Rightarrow> ptr \<Rightarrow> ptr \<times> aesd_seekto \<times> kstate" where
  "seek_fetch K s arg =
     (let (mybuffer, h) = kmalloc K (heap s) 500;
          (bs, left) = copy_from_user K (user s) arg 24
      in (mybuffer, decode_seekto bs, s\<lparr>heap := h\<rparr>))"

definition seek_gather :: "kstate \<Rightarrow> ptr \<Rightarrow> aesd_seekto \<Rightarrow> (kheap \<times> nat) option res" where
  "seek_gather s mybuffer myseek =
     bindE (get_ring (heap s) (circ_buf (dev s))) (\<lambda>b.
     bindE (get_length_of_all_entries_in_buffer b) (\<lambda>len.
     let total_bytes_to_read = seek_total len (write_cmd_offset myseek)
     in if write_cmd myseek > 10 then Inr None
     else
       let buff_to_read = seek_first (out_offs b) (write_cmd myseek)
       in bindE (entry_at b buff_to_read) (\<lambda>_.
          bindE (returned (seek_loop b mybuffer total_bytes_to_read (heap s) buff_to_read
                   (write_cmd_offset myseek) 0 0)) (\<lambda>r.
          Inr (Some r)))))"

definition seek_command :: "kernel \<Rightarrow> kstate \<Rightarrow> ptr \<Rightarrow> (c_long \<times> kstate) res" where
  "seek_command K s arg =
     (let (mybuffer, myseek, s) = seek_fetch K s arg
      in bindE (seek_gather s mybuffer myseek) (\<lambda>r. case r of
           None \<Rightarrow> Inr (- EINVAL, s)
         | Some r \<Rightarrow> seek_finish K s mybuffer arg myseek r))"

definition aesd_ioctl ::
  "kernel \<Rightarrow> bool \<Rightarrow> kstate \<Rightarrow> struct_file \<Rightarrow> u32 \<Rightarrow> ptr \<Rightarrow> (c_long \<times> kstate) res" where
  "aesd_ioctl K signalled s filp cmd arg =
     (if cmd = AESDCHAR_IOCSEEKTO then
        bindE (dev_of K filp s) (\<lambda>_.
        bindE (mutex_lock_interruptible signalled s) (\<lambda>(failed, s).
        if failed then Inr (- ERESTARTSYS, s) else seek_command K s arg))
      else Inr (0, s))"

section \<open>Bytes of a word\<close>

lemma length_le_bytes [simp]: "length (le_bytes n w) = n"
  by (simp add: le_bytes_def)

lemma bit_of_le:
  "bit (of_le bs :: 'a::len word) i \<longleftrightarrow> i < LENGTH('a) \<and> i div 8 < length bs \<and> bit (bs ! (i div 8)) (i mod 8)"
proof (induction bs arbitrary: i)
  case (Cons b bs)
  show ?case
  proof (cases "i < 8")
    case True
    then show ?thesis by (auto simp: bit_or_iff bit_push_bit_iff bit_ucast_iff)
  next
    case False
    then have i: "i div 8 = Suc ((i - 8) div 8)" "(i - 8) mod 8 = i mod 8"
      by (simp_all add: le_div_geq le_mod_geq)
    have "\<not> bit b i"
      using False by (auto dest: bit_imp_le_length)
    with False i show ?thesis
      by (auto simp: bit_or_iff bit_push_bit_iff bit_ucast_iff Cons.IH)
  qed
qed simp

lemma of_le_bytes:
  assumes "LENGTH('a) \<le> 8 * n"
  shows "of_le (le_bytes n (w :: 'a::len word)) = w"
proof (rule bit_word_eqI)
  fix i assume i: "i < LENGTH('a)"
  then have "i div 8 < n" using assms by linarith
  with i show "bit (of_le (le_bytes n w) :: 'a word) i \<longleftrightarrow> bit w i"
    by (simp add: bit_of_le le_bytes_def bit_ucast_iff bit_drop_bit_eq)
qed

lemma length_encode_seekto [simp]: "length (encode_seekto r) = 24"
  by (simp add: encode_seekto_def)

lemma decode_encode_seekto: "decode_seekto (encode_seekto r) = r"
  by (simp add: decode_seekto_def encode_seekto_def of_le_bytes)

section \<open>The copy loops compute the rest of the commands\<close>

text \<open>The signed difference of two sizes, as a count of bytes.\<close>

lemma sint_diff:
  fixes a b :: size_t
  assumes "unat a < 2 ^ 63" and "unat b < 2 ^ 63"
  shows "sint (a - b) = int (unat a) - int (unat b)"
proof -
  have "sint c = int (unat c)" if "unat c < 2 ^ 63" for c :: size_t
  proof -
    have "uint c < 2 ^ 63" using that by (simp flip: nat_uint_eq)
    then have "signed_take_bit 63 (uint c) = uint c"
      by (intro signed_take_bit_int_eq_self) (auto intro: order_trans [of _ 0])
    then show ?thesis by (simp add: sint_uint)
  qed
  then have "sint a = int (unat a)" "sint b = int (unat b)" using assms by blast+
  moreover have "sint (a - b) = signed_take_bit 63 (sint a - sint b)"
    using sint_word_ariths(2) [of a b] by simp
  moreover have "signed_take_bit 63 (int m - int n) = int m - int n"
    if "m < 2 ^ 63" "n < 2 ^ 63" for m n
    using that by (intro signed_take_bit_int_eq_self) simp_all
  ultimately show ?thesis
    using assms by (metis (no_types))
qed

lemma seek_copy_eq:
  assumes "h mb = Some (Bytes (acc @ rest))" and "h p = Some (Bytes bs)" and "mb \<noteq> p"
    and "i + n + unat off \<le> length bs" and "length bs < 2 ^ 32"
  shows "seek_copy h mb p n i off (length acc) =
    (if n \<le> length rest
     then Inr (h(mb \<mapsto> Bytes (acc @ take n (drop (unat off + i) bs) @ drop n rest)), length acc + n)
     else Inl OutOfBounds)"
  using assms
proof (induction n arbitrary: h i acc rest)
  case 0
  then show ?case by (auto simp: fun_upd_idem)
next
  case (Suc n)
  have idx: "unat (of_nat i + off) = unat off + i"
  proof -
    have "unat (of_nat i :: u32) = i" using Suc.prems(4,5) by (intro unat_of_nat_small) simp
    then show ?thesis using Suc.prems(4,5) by (subst unat_add_small) simp_all
  qed
  have drop: "drop (unat off + i) bs = bs ! (unat off + i) # drop (unat off + Suc i) bs"
    using Suc.prems(4) by (simp add: Cons_nth_drop_Suc)
  have rd: "rd_range h p (unat (of_nat i + off)) 1 = Inr [bs ! (unat off + i)]"
    using Suc.prems(2,4) drop by (simp add: idx rd_range_ok)
  show ?case
  proof (cases rest)
    case Nil
    then show ?thesis
      using rd Suc.prems(1) by (simp add: wr_range_def get_bytes_def)
  next
    case (Cons r rest')
    let ?h = "h(mb \<mapsto> Bytes ((acc @ [bs ! (unat off + i)]) @ rest'))"
    have "wr_range h mb (length acc) [bs ! (unat off + i)] = Inr ?h"
      using Suc.prems(1) Cons by (simp add: wr_range_ok)
    moreover have "seek_copy ?h mb p n (Suc i) off (length (acc @ [bs ! (unat off + i)])) =
      (if n \<le> length rest'
       then Inr (?h(mb \<mapsto> Bytes ((acc @ [bs ! (unat off + i)]) @ take n (drop (unat off + Suc i) bs) @ drop n rest')),
         length (acc @ [bs ! (unat off + i)]) + n)
       else Inl OutOfBounds)"
      using Suc.prems(2-5) by (intro Suc.IH) auto
    ultimately show ?thesis
      using rd drop Cons by (auto simp: fun_upd_def)
  qed
qed

text \<open>
  The reference: the pieces are appended one by one until at least \<open>t\<close> bytes are there.
\<close>

fun copy_until :: "nat \<Rightarrow> byte list \<Rightarrow> byte list list \<Rightarrow> byte list" where
  "copy_until t acc [] = acc"
| "copy_until t acc (c # cs) =
     (if length acc < t then copy_until t (acc @ c) cs else acc)"

lemma copy_until_prefix: "\<exists>xs. copy_until t acc cs = acc @ xs"
  by (induction t acc cs rule: copy_until.induct) auto

lemma copy_until_length: "length acc \<le> length (copy_until t acc cs)"
  using copy_until_prefix [of t acc cs] by auto

lemma copy_until_zeros [simp]: "copy_until t acc (cs @ replicate m []) = copy_until t acc cs"
proof (induction t acc cs rule: copy_until.induct)
  case (1 t acc)
  then show ?case by (induction m) auto
qed simp

lemma copy_until_all:
  "length acc + length (concat cs) \<le> t \<Longrightarrow> copy_until t acc cs = acc @ concat cs"
proof (induction t acc cs rule: copy_until.induct)
  case (2 t acc c cs)
  then show ?case
    by (cases "length acc < t") (auto dest: le_antisym)
qed simp

text \<open>An entry of the ring that holds the bytes \<open>bs\<close>; an unused entry holds none.\<close>

definition stored :: "kheap \<Rightarrow> ptr \<Rightarrow> aesd_buffer_entry \<Rightarrow> byte list \<Rightarrow> bool" where
  "stored h mb e bs \<longleftrightarrow> unat (esize e) = length bs \<and>
     (bs \<noteq> [] \<longrightarrow> buffptr e \<noteq> mb \<and> h (buffptr e) = Some (Bytes bs))"

lemma stored_upd: "stored h mb e bs \<Longrightarrow> stored (h(mb \<mapsto> x)) mb e bs"
  by (auto simp: stored_def)

lemma seek_copy_entry:
  assumes "stored h mb e bs" and "h mb = Some (Bytes (acc @ rest))" and "length bs < 2 ^ 32"
    and n: "n = nat (sint (esize e - ucast off))"
  shows "n = length (drop (unat off) bs)"
    and "seek_copy h mb (buffptr e) n 0 off (length acc) =
      (if n \<le> length rest
       then Inr (h(mb \<mapsto> Bytes (acc @ drop (unat off) bs @ drop n rest)), length acc + n)
       else Inl OutOfBounds)"
proof -
  have "unat off < 2 ^ 32" using unsigned_less [of off, where 'a = nat] by simp
  then have "sint (esize e - ucast off) = int (length bs) - int (unat off)"
    using assms(1,3) by (subst sint_diff) (simp_all add: stored_def)
  then show len: "n = length (drop (unat off) bs)"
    using n by (simp add: nat_diff_distrib')
  show "seek_copy h mb (buffptr e) n 0 off (length acc) =
      (if n \<le> length rest
       then Inr (h(mb \<mapsto> Bytes (acc @ drop (unat off) bs @ drop n rest)), length acc + n)
       else Inl OutOfBounds)"
  proof (cases "n = 0")
    case True
    then show ?thesis using len assms(2) by (simp add: fun_upd_idem)
  next
    case False
    then have "bs \<noteq> []" "n + unat off = length bs" using len by auto
    then show ?thesis
      using assms by (subst seek_copy_eq) (auto simp: stored_def len)
  qed
qed

text \<open>One round of the loop.\<close>

lemma seek_loop_round:
  assumes b: "length (entry b) = 10" "p < 10" and more: "length acc < nat (sint t)"
    and c: "stored h mb (entry b ! p) c" "length c < 2 ^ 32" and mb: "h mb = Some (Bytes (acc @ rest))"
    and acc': "acc' = acc @ drop (unat off) c"
    and h': "h' = h(mb \<mapsto> Bytes (acc' @ drop (length acc' - length acc) rest))"
  shows "seek_loop b mb t h (of_nat p) off (length acc) (length acc) =
    (if length acc' \<le> length acc + length rest
     then if Suc p mod 10 = unat (out_offs b) then Some (Inr (h', length acc'))
       else seek_loop b mb t h' (of_nat (Suc p mod 10)) 0 (length acc') (length acc')
     else Some (Inl OutOfBounds))"
proof -
  let ?e = "entry b ! p" and ?p' = "Suc p mod 10"
  define m where "m = nat (sint (esize ?e - ucast off))"
  have len: "m = length acc' - length acc" "length acc' = length acc + m"
    and copy: "seek_copy h mb (buffptr ?e) m 0 off (length acc) =
      (if m \<le> length rest then Inr (h', length acc') else Inl OutOfBounds)"
    using seek_copy_entry [OF c(1) mb c(2) m_def] by (simp_all add: acc' h')
  have p: "unat (of_nat p :: size_t) = p"
    using b(2) by (intro unat_of_nat_small) simp
  have u': "unat (of_nat ?p' :: size_t) = ?p'"
    by (rule unat_of_nat_small) (rule less_trans [of _ 10], simp_all)
  have at: "entry_at b (of_nat p) = Inr ?e"
    using b p by (simp add: entry_at_ok)
  have next_eq: "(if (of_nat p :: size_t) + 1 = 10 then 0 else of_nat p + 1 :: size_t) = of_nat ?p'"
    using cursor_wrap [of "of_nat p :: size_t" 10] p b(2) by simp
  have last: "of_nat ?p' = (ucast (out_offs b) :: size_t) \<longleftrightarrow> ?p' = unat (out_offs b)"
    using u' by (simp add: word_unat_eq_iff)
  have "int (length acc) < sint t" using more by linarith
  then show ?thesis
    using at copy next_eq last len(2)
    by (subst seek_loop.simps) (simp add: Let_def m_def [symmetric])
qed

text \<open>
  The loop from the index \<open>p\<close>, with \<open>n\<close> entries to go until the oldest one: the entries
  hold \<open>cs\<close>. It ends, and either the copied bytes fit the block or it writes past its end.
\<close>

lemma seek_loop_eq:
  assumes "length (entry b) = 10" and "unat (out_offs b) = (p + n) mod 10" and "p < 10"
    and "0 < n" and "n \<le> 10" and "list_all2 (stored h mb) (ring_slice b p n) cs"
    and "\<forall>c \<in> set cs. length c < 2 ^ 32" and "h mb = Some (Bytes (acc @ rest))"
    and "out = copy_until (nat (sint t)) acc (drop (unat off) (hd cs) # tl cs)"
    and "room = length acc + length rest"
  shows "seek_loop b mb t h (of_nat p) off (length acc) (length acc) =
    Some (if length out \<le> room
          then Inr (h(mb \<mapsto> Bytes (out @ drop (length out - length acc) rest)), length out)
          else Inl OutOfBounds)"
  using assms
proof (induction n arbitrary: p h off acc rest cs)
  case (Suc n)
  let ?t = "nat (sint t)" and ?p' = "Suc p mod 10"
  obtain c cs' where cs: "cs = c # cs'" and c: "stored h mb (entry b ! p) c"
    and cs': "list_all2 (stored h mb) (ring_slice b ?p' n) cs'"
    using Suc.prems(3,6) by (auto simp: ring_slice_Suc list_all2_Cons1)
  show ?case
  proof (cases "length acc < ?t")
    case False
    then have "out = acc" "\<not> int (length acc) < sint t" using Suc.prems(9) by simp_all
    then show ?thesis
      using Suc.prems(8,10) by (subst seek_loop.simps) (simp add: fun_upd_idem)
  next
    case True
    define acc' where "acc' = acc @ drop (unat off) c"
    define h' where "h' = h(mb \<mapsto> Bytes (acc' @ drop (length acc' - length acc) rest))"
    have out: "out = copy_until ?t acc' cs'" using True Suc.prems(9) cs by (simp add: acc'_def)
    then have long: "length acc' \<le> length out" by (simp add: copy_until_length)
    have last: "?p' = unat (out_offs b) \<longleftrightarrow> n = 0"
      using Suc.prems(2,3,5) by (auto simp: mod_if)
    have "length c < 2 ^ 32" using Suc.prems(7) cs by simp
    note step = seek_loop_round [OF Suc.prems(1,3) True c this Suc.prems(8) acc'_def h'_def]
    show ?thesis
    proof (cases "length acc' \<le> length acc + length rest \<and> n \<noteq> 0")
      case False
      then show ?thesis
        using long Suc.prems(10) last out cs' by (auto simp: step h'_def)
    next
      case m: True
      then have cs_ne: "cs' \<noteq> []" using list_all2_lengthD [OF cs'] by auto
      have "seek_loop b mb t h' (of_nat ?p') 0 (length acc') (length acc') =
        Some (if length out \<le> room
          then Inr (h'(mb \<mapsto> Bytes (out @ drop (length out - length acc')
            (drop (length acc' - length acc) rest))), length out)
          else Inl OutOfBounds)"
      proof (rule Suc.IH [OF Suc.prems(1)])
        show "unat (out_offs b) = (?p' + n) mod 10"
          using Suc.prems(2) by (simp add: mod_simps)
        show "list_all2 (stored h' mb) (ring_slice b ?p' n) cs'"
          using cs' unfolding h'_def by (rule list_all2_mono) (rule stored_upd)
        show "out = copy_until ?t acc' (drop (unat 0) (hd cs') # tl cs')"
          using out cs_ne by simp
      qed (use m Suc.prems(5,7,10) cs in \<open>auto simp: h'_def acc'_def\<close>)
      with m last long Suc.prems(10) show ?thesis
        by (simp add: step h'_def acc'_def)
    qed
  qed
qed simp

section \<open>The command computes the rest of the log\<close>

text \<open>
  What the command sends back: from an offset in the \<open>k\<close>th oldest command on, command by
  command, until as many bytes are copied as the whole log has beyond that offset.
\<close>

definition seek_spec :: "byte list list \<Rightarrow> nat \<Rightarrow> nat \<Rightarrow> byte list" where
  "seek_spec cmds k off = (case drop k cmds of [] \<Rightarrow> []
     | c # cs \<Rightarrow> copy_until (length (concat cmds) - off) [] (drop off c # cs))"

text \<open>For a position in the log it is everything from there on.\<close>

lemma seek_spec_in_range:
  assumes "k < length cmds" and "off < length (cmds ! k)"
  shows "seek_spec cmds k off = drop off (concat (drop k cmds))"
proof -
  have drop: "drop k cmds = cmds ! k # drop (Suc k) cmds"
    using assms(1) by (simp add: Cons_nth_drop_Suc)
  have "concat cmds = concat (take k cmds) @ concat (drop k cmds)"
    by (metis append_take_drop_id concat_append)
  then have "length (concat (drop k cmds)) \<le> length (concat cmds)" by simp
  then have "length (drop off (cmds ! k) @ concat (drop (Suc k) cmds)) \<le> length (concat cmds) - off"
    using assms(2) by (simp add: drop)
  then have "copy_until (length (concat cmds) - off) [] (drop off (cmds ! k) # drop (Suc k) cmds) =
      drop off (cmds ! k) @ concat (drop (Suc k) cmds)"
    by (subst copy_until_all) simp_all
  then show ?thesis
    using assms(2) by (simp add: seek_spec_def drop)
qed

lemma copy_until_slots:
  assumes "k < 10" and "length cmds \<le> 10"
  defines "slots \<equiv> cmds @ replicate (10 - length cmds) []"
  shows "copy_until (length (concat cmds) - off) [] (drop off (hd (drop k slots)) # tl (drop k slots)) =
    seek_spec cmds k off"
proof (cases "k < length cmds")
  case True
  then have "drop k cmds = cmds ! k # drop (Suc k) cmds" by (simp add: Cons_nth_drop_Suc)
  then show ?thesis
    using True copy_until_zeros [of _ _ "drop off (cmds ! k) # drop (Suc k) cmds"]
    by (simp add: slots_def seek_spec_def)
next
  case False
  then have "drop k slots = replicate (10 - k) []"
    using assms(2) by (simp add: slots_def)
  moreover have "replicate (10 - k) ([] :: byte list) = [] # replicate (9 - k) []"
    using assms(1) by (simp flip: replicate_Suc)
  ultimately show ?thesis
    using False copy_until_zeros [of _ "[]" "[]"] by (simp add: seek_spec_def)
qed

text \<open>The slots of the ring, oldest first, hold the commands and then nothing.\<close>

lemma ring_slots_stored:
  assumes ring: "ring_rep h b cmds" and mb: "mb \<notin> taken b"
  shows "list_all2 (stored h mb) (ring_slice b (unat (out_offs b)) 10)
    (cmds @ replicate (10 - length cmds) [])"
proof -
  have inv: "cb_inv b" and holds: "list_all2 (holds h) (cb_list b) cmds"
    using ring by (simp_all add: ring_rep_def)
  have "list_all2 (stored h mb) (cb_list b) cmds"
    using holds by (rule list.rel_mono_strong)
      (use mb in \<open>auto simp: holds_def stored_def taken_def\<close>)
  moreover have "list_all2 (stored h mb) (replicate m zero_entry) (replicate m [])" for m
    by (induction m) (simp_all add: stored_def zero_entry_def)
  ultimately show ?thesis
    using ring_slice_all [OF inv] length_cmds [OF ring] by (simp add: list_all2_appendI)
qed

lemma ring_slots_from:
  assumes "list_all2 R (ring_slice b q 10) slots" and "k < 10"
  shows "list_all2 R (ring_slice b ((q + k) mod 10) (10 - k)) (drop k slots)"
proof -
  have "ring_slice b ((q + k) mod 10) (10 - k) = drop k (ring_slice b q 10)"
    using assms(2) by (intro nth_equalityI) (simp_all add: mod_simps add.assoc)
  with assms(1) show ?thesis by simp
qed

text \<open>The start index, as the code computes it.\<close>

lemma seek_start:
  fixes o_offs :: u8 and cmd :: u32
  assumes "unat o_offs < 10" and "cmd \<le> 10"
  shows "seek_first o_offs cmd = of_nat ((unat o_offs + unat cmd) mod 10)"
proof -
  let ?p = "ucast o_offs + ucast cmd :: size_t"
  have c: "unat cmd \<le> 10" using assms(2) by (simp add: word_le_nat_alt)
  have p: "unat ?p = unat o_offs + unat cmd"
    using assms(1) c by (subst unat_add_small) simp_all
  show ?thesis
  proof (cases "?p > 9")
    case True
    then have "unat (?p - 10) = unat o_offs + unat cmd - 10" "unat o_offs + unat cmd \<ge> 10"
      using p by (simp_all add: word_less_nat_alt word_le_nat_alt unat_sub_le)
    then have "(unat o_offs + unat cmd) mod 10 = unat (?p - 10)"
      using assms(1) c by (simp add: le_mod_geq)
    then have "?p - 10 = of_nat ((unat o_offs + unat cmd) mod 10)"
      by (simp only: of_nat_unat ucast_id)
    with True show ?thesis by (simp add: seek_first_def)
  next
    case False
    then have "unat ?p < 10" using p by (simp add: word_less_nat_alt)
    then have "?p = of_nat ((unat o_offs + unat cmd) mod 10)"
      using p by (metis mod_less of_nat_unat ucast_id)
    with False show ?thesis by (simp add: seek_first_def)
  qed
qed

text \<open>The number of bytes wanted, as the code computes it.\<close>

lemma seek_wanted:
  assumes "n < 2 ^ 32"
  shows "nat (sint (seek_total (of_nat n) off)) = n - unat off"
proof -
  have n: "unat (of_nat n :: size_t) = n" using assms by (intro unat_of_nat_small) simp
  have "unat off < 2 ^ 32" using unsigned_less [of off, where 'a = nat] by simp
  then have "sint ((of_nat n :: size_t) - ucast off) = int n - int (unat off)"
    using assms n by (subst sint_diff) simp_all
  moreover have "sint (1 :: size_t) = 1" by simp
  ultimately have "nat (sint ((of_nat n :: size_t) - ucast off)) = n - unat off"
    "(of_nat n :: size_t) - ucast off <s 1 \<longleftrightarrow> n \<le> unat off"
    unfolding word_sless_alt by linarith+
  then show ?thesis by (simp add: seek_total_def Let_def)
qed

text \<open>A seek command that the driver accepts: the request \<open>r\<close> is at \<open>arg\<close>.\<close>

definition seek_call :: "kernel \<Rightarrow> kstate \<Rightarrow> ptr \<Rightarrow> aesd_seekto \<Rightarrow> bool" where
  "seek_call K s arg r \<longleftrightarrow> kernel_ok K \<and> kernel_room K (card (dom (heap s)) + 1) \<and>
     user_at (user s) arg 24 = map Some (encode_seekto r)"

text \<open>The reply: the bytes at the buffer of the request, then the request with their number.\<close>

definition seek_reply :: "aesd_seekto \<Rightarrow> ptr \<Rightarrow> byte list \<Rightarrow> umem \<Rightarrow> umem" where
  "seek_reply r arg out um = user_write (user_write um (special_buffer r) out) arg
     (encode_seekto (r\<lparr>length_copied := of_nat (length out)\<rparr>))"

lemma seek_call_copy:
  "seek_call K s arg r \<Longrightarrow> copy_from_user K (user s) arg 24 = (encode_seekto r, 0)"
  by (intro copy_from_user_mapped) (simp_all add: seek_call_def)

lemma user_mapped_write: "user_mapped um p n \<Longrightarrow> user_mapped (user_write um q bs) p n"
  by (auto simp: user_mapped_def user_write_def)

lemma user_at_mapped:
  assumes "user_at um p n = map Some bs"
  shows "user_mapped um p n"
proof -
  have "\<forall>x \<in> set (user_at um p n). x \<noteq> None" using assms by simp
  then show ?thesis by (simp add: user_at_def user_mapped_def)
qed

lemma length_in_concat: "c \<in> set cs \<Longrightarrow> length c \<le> length (concat cs)"
  by (induction cs) auto

lemma seek_finish_eq:
  assumes K: "kernel_ok K" and arg: "user_mapped (user s) arg 24"
    and mapped: "user_mapped (user s) (special_buffer r) (length out)"
    and mb: "h mb = Some (Bytes (out @ rest))" "mb \<noteq> NULL"
  shows "seek_finish K s mb arg r (h, length out) =
    Inr (0, mutex_unlock (s\<lparr>heap := h(mb := None), user := seek_reply r arg out (user s)\<rparr>))"
proof -
  have "copy_to_user K (user s) (special_buffer r) out = (user_write (user s) (special_buffer r) out, 0)"
    using K mapped by (rule copy_to_user_mapped)
  moreover have "copy_to_user K (user_write (user s) (special_buffer r) out) arg
      (encode_seekto (r\<lparr>length_copied := of_nat (length out)\<rparr>)) = (seek_reply r arg out (user s), 0)"
    using K user_mapped_write [OF arg] by (subst copy_to_user_mapped) (simp_all add: seek_reply_def)
  moreover have "do_kfree K h mb = Inr (h(mb := None))"
    using kfree_eq(2) [OF K mb(2), of h] mb(1) by (simp add: do_kfree_def)
  moreover have "(if length out = 0 then Inr [] else rd_range h mb 0 (length out)) = Inr out"
    using mb(1) by (simp add: rd_range_ok)
  ultimately show ?thesis
    by (simp add: seek_finish_def del: length_0_conv)
qed

lemma wrap_around: "q < 10 \<Longrightarrow> r < 10 \<Longrightarrow> ((q + r) mod 10 + (10 - r)) mod 10 = q" for q r :: nat
  by (cases "q + r < 10") (simp_all add: mod_if)

lemma seek_loop_ring:
  assumes ring: "ring_rep h b cmds" and mb: "mb \<notin> taken b" "h mb = Some (Bytes rest)"
    and cmd: "unat cmd \<le> 10" and small: "length (concat cmds) < 2 ^ 32"
    and out: "out = seek_spec cmds (unat cmd mod 10) (unat off)"
    and t: "nat (sint t) = length (concat cmds) - unat off"
  shows "seek_loop b mb t h (of_nat ((unat (out_offs b) + unat cmd) mod 10)) off 0 0 =
    Some (if length out \<le> length rest
          then Inr (h(mb \<mapsto> Bytes (out @ drop (length out) rest)), length out) else Inl OutOfBounds)"
proof -
  let ?k = "unat cmd mod 10" and ?slots = "cmds @ replicate (10 - length cmds) []"
  let ?p = "(unat (out_offs b) + ?k) mod 10"
  have inv: "cb_inv b" using ring by (simp add: ring_rep_def)
  have len: "length cmds \<le> 10" using length_cmds [OF ring] cb_count_le [OF inv] by simp
  have short: "\<forall>c \<in> set (drop ?k ?slots). length c < 2 ^ 32"
    using small length_in_concat by (fastforce dest!: in_set_dropD)
  have "seek_loop b mb t h (of_nat ?p) off (length ([] :: byte list)) (length ([] :: byte list)) =
    Some (if length out \<le> length rest
          then Inr (h(mb \<mapsto> Bytes (out @ drop (length out - length ([] :: byte list)) rest)), length out)
          else Inl OutOfBounds)"
  proof (rule seek_loop_eq [where n = "10 - ?k" and cs = "drop ?k ?slots" and rest = rest
        and acc = "[]" and p = ?p and room = "length rest"])
    show "unat (out_offs b) = (?p + (10 - ?k)) mod 10"
      using cb_invD(3) [OF inv] by (intro wrap_around [symmetric]) simp_all
    show "list_all2 (stored h mb) (ring_slice b ?p (10 - ?k)) (drop ?k ?slots)"
      using ring_slots_stored [OF ring mb(1)] by (rule ring_slots_from) simp
    show "out = copy_until (nat (sint t)) [] (drop (unat off) (hd (drop ?k ?slots)) # tl (drop ?k ?slots))"
      unfolding out t using len by (subst copy_until_slots) simp_all
  qed (use short mb(2) cb_invD(1) [OF inv] in simp_all)
  then show ?thesis by (simp add: mod_simps)
qed

text \<open>The device does not depend on a block that is not its own.\<close>

lemma device_extra:
  assumes "device s cmds pend" and "heap s mb = None" and "mb \<noteq> NULL"
  shows "device (s\<lparr>heap := (heap s)(mb \<mapsto> x)\<rparr>) cmds pend"
proof -
  have ring: "ring_rep ((heap s)(mb \<mapsto> x)) b cmds" if "ring_rep (heap s) b cmds" for b
    using ring_rep_upd [OF that not_takenI(1) [OF that assms(2)]] .
  show ?thesis
    using assms ring unfolding device_def idle_def collecting_def
    by (elim disjE conjE exE) (simp_all, fastforce+)
qed

lemma seek_fetch_cases:
  assumes "kernel_ok K" and "kernel_room K N" and "card (dom (heap s)) < N"
  obtains mb rest r where "seek_fetch K s arg = (mb, r, s\<lparr>heap := (heap s)(mb \<mapsto> Bytes rest)\<rparr>)"
    "mb \<noteq> NULL" "heap s mb = None" "length rest = 500"
    "user_at (user s) arg 24 = map Some (encode_seekto r') \<Longrightarrow> r = r'"
proof -
  obtain mb rest where mb: "kmalloc K (heap s) 500 = (mb, (heap s)(mb \<mapsto> Bytes rest))" "mb \<noteq> NULL"
    "heap s mb = None" "length rest = 500"
    using kmalloc_cases [OF assms(1) _ assms(2), of 500 "heap s"] assms(3) by auto
  show thesis
    using that mb copy_from_user_mapped [OF assms(1), of "user s" arg 24 "encode_seekto r'"]
    by (cases "copy_from_user K (user s) arg 24") (auto simp: seek_fetch_def decode_encode_seekto)
qed

lemma seek_gather_refused:
  assumes dev: "device s cmds pend" and mb: "mb \<noteq> NULL" "heap s mb = None"
    and small: "length (concat cmds) < 2 ^ 64" and cmd: "write_cmd r > 10"
  shows "seek_gather (s\<lparr>heap := (heap s)(mb \<mapsto> Bytes rest)\<rparr>) mb r = Inr None"
proof -
  obtain b where b: "heap s (circ_buf (dev s)) = Some (RingObj b)" "ring_rep (heap s) b cmds"
    using dev by (rule deviceE)
  have "circ_buf (dev s) \<noteq> mb" using b(1) mb(2) by auto
  then show ?thesis
    using b(1) cmd ring_lookup(1) [OF b(2) small] by (simp add: seek_gather_def get_ring_def)
qed

lemma seek_gather_eq:
  assumes dev: "device s cmds pend" and mb: "mb \<noteq> NULL" "heap s mb = None"
    and cmd: "write_cmd r \<le> 10" and small: "length (concat cmds) < 2 ^ 32"
    and out: "out = seek_spec cmds (unat (write_cmd r) mod 10) (unat (write_cmd_offset r))"
  shows "seek_gather (s\<lparr>heap := (heap s)(mb \<mapsto> Bytes rest)\<rparr>) mb r =
    (if length out \<le> length rest
     then Inr (Some ((heap s)(mb \<mapsto> Bytes (out @ drop (length out) rest)), length out))
     else Inl OutOfBounds)"
proof -
  obtain b where b: "heap s (circ_buf (dev s)) = Some (RingObj b)" "ring_rep (heap s) b cmds"
    using dev by (rule deviceE)
  define h where "h = (heap s)(mb \<mapsto> Bytes rest)"
  have mb_free: "mb \<notin> taken b" using not_takenI(1) [OF b(2) mb(2)] .
  have ring: "ring_rep h b cmds" "h (circ_buf (dev s)) = Some (RingObj b)"
    using b mb(2) mb_free by (auto simp: h_def ring_rep_upd)
  have o10: "unat (out_offs b) < 10" using b(2) cb_invD(3) by (auto simp: ring_rep_def)
  have len: "get_length_of_all_entries_in_buffer b = Inr (of_nat (length (concat cmds)))"
    using ring_lookup(1) [OF b(2)] small by simp
  have c10: "unat (write_cmd r) \<le> 10" "\<not> write_cmd r > 10" using cmd by (simp_all add: word_le_nat_alt leD)
  let ?p = "of_nat ((unat (out_offs b) + unat (write_cmd r)) mod 10) :: size_t"
  have "seek_loop b mb (seek_total (of_nat (length (concat cmds))) (write_cmd_offset r)) h ?p
      (write_cmd_offset r) 0 0 =
    Some (if length out \<le> length rest then Inr (h(mb \<mapsto> Bytes (out @ drop (length out) rest)), length out)
          else Inl OutOfBounds)"
    using seek_loop_ring [OF ring(1) mb_free _ c10(1) small out seek_wanted [OF small], of rest]
    by (simp add: h_def)
  moreover have "\<exists>e. entry_at b ?p = Inr e"
  proof -
    have "unat ?p < 10"
      by (subst unat_of_nat_small) (rule less_trans [of _ 10], simp_all)
    then show ?thesis using b(2) cb_invD(1) by (auto simp: ring_rep_def entry_at_def)
  qed
  ultimately show ?thesis
    using c10(2) ring(2) len seek_start [OF o10 cmd]
    by (auto simp: seek_gather_def get_ring_def h_def [symmetric] Let_def) (simp add: h_def)
qed

lemma seek_command_eq:
  assumes dev: "device s cmds pend" and call: "seek_call K s arg r" and cmd: "write_cmd r \<le> 10"
    and small: "length (concat cmds) < 2 ^ 32"
    and out: "out = seek_spec cmds (unat (write_cmd r) mod 10) (unat (write_cmd_offset r))"
    and mapped: "length out \<le> 500 \<Longrightarrow> user_mapped (user s) (special_buffer r) (length out)"
  shows "seek_command K s arg =
    (if length out \<le> 500 then Inr (0, mutex_unlock (s\<lparr>user := seek_reply r arg out (user s)\<rparr>))
     else Inl OutOfBounds)"
proof -
  have K: "kernel_ok K" "kernel_room K (card (dom (heap s)) + 1)"
    and arg: "user_at (user s) arg 24 = map Some (encode_seekto r)"
    using call by (simp_all add: seek_call_def)
  obtain mb rest where mb: "seek_fetch K s arg = (mb, r, s\<lparr>heap := (heap s)(mb \<mapsto> Bytes rest)\<rparr>)"
    "mb \<noteq> NULL" "heap s mb = None" "length rest = 500"
    by (rule seek_fetch_cases [OF K, of s arg r]) (use arg in auto)
  let ?h = "(heap s)(mb \<mapsto> Bytes (out @ drop (length out) rest))"
  have "seek_finish K (s\<lparr>heap := (heap s)(mb \<mapsto> Bytes rest)\<rparr>) mb arg r (?h, length out) =
    Inr (0, mutex_unlock (s\<lparr>user := seek_reply r arg out (user s)\<rparr>))" if "length out \<le> 500"
    using that seek_finish_eq [OF K(1), of "s\<lparr>heap := (heap s)(mb \<mapsto> Bytes rest)\<rparr>" arg r out ?h mb
        "drop (length out) rest"] user_at_mapped [OF arg] mapped mb(2,3) by (simp add: fun_upd_idem)
  then show ?thesis
    using seek_gather_eq [OF dev mb(2,3) cmd small out, of rest] mb(1,4)
    by (simp add: seek_command_def)
qed

section \<open>The system call\<close>

lemma device_lock: "device s cmds pend \<Longrightarrow> device (s\<lparr>dev := (dev s)\<lparr>lock := l\<rparr>\<rparr>) cmds pend"
  by (simp add: device_def idle_def collecting_def)

lemma seek_call_lock: "seek_call K s arg r \<Longrightarrow> seek_call K (s\<lparr>dev := (dev s)\<lparr>lock := l\<rparr>\<rparr>) arg r"
  by (simp add: seek_call_def)

lemma aesd_ioctl_eq:
  assumes dev: "device s cmds pend" and call: "seek_call K s arg r"
    and filp: "private_data filp = device_addr K" and free: "\<not> lock (dev s)"
    and cmd: "write_cmd r \<le> 10" and small: "length (concat cmds) < 2 ^ 32"
    and out: "out = seek_spec cmds (unat (write_cmd r) mod 10) (unat (write_cmd_offset r))"
    and mapped: "length out \<le> 500 \<Longrightarrow> user_mapped (user s) (special_buffer r) (length out)"
  shows "aesd_ioctl K False s filp AESDCHAR_IOCSEEKTO arg =
    (if length out \<le> 500 then Inr (0, s\<lparr>user := seek_reply r arg out (user s)\<rparr>)
     else Inl OutOfBounds)"
proof -
  let ?s = "s\<lparr>dev := (dev s)\<lparr>lock := True\<rparr>\<rparr>"
  have "mutex_unlock (?s\<lparr>user := um\<rparr>) = s\<lparr>user := um\<rparr>" for um
    using free by (cases s, cases "dev s") (simp add: mutex_unlock_def)
  then show ?thesis
    using seek_command_eq [OF device_lock [OF dev, of True] seek_call_lock [OF call, of True] cmd small out]
      mapped filp free
    by (simp add: aesd_ioctl_def dev_of_def mutex_lock_interruptible_def)
qed

lemma user_at_reply:
  "user_at (seek_reply r arg out um) arg 24 =
    map Some (encode_seekto (r\<lparr>length_copied := of_nat (length out)\<rparr>))"
  using user_at_write [of "encode_seekto (r\<lparr>length_copied := of_nat (length out)\<rparr>)" _ arg]
  by (simp add: seek_reply_def)

section \<open>A device with one command\<close>

text \<open>
  The device holds one command \<open>c\<close>; a request for the command \<open>k\<close> from the offset \<open>off\<close> is
  at address 768 of the process, its buffer at 512.
\<close>

definition request :: "u32 \<Rightarrow> u32 \<Rightarrow> aesd_seekto" where
  "request k off = \<lparr>write_cmd = k, write_cmd_offset = off, length_copied = 0, special_buffer = 512\<rparr>"

definition loaded_ring :: "byte list \<Rightarrow> aesd_circular_buffer" where
  "loaded_ring c = cb_push aesd_circular_buffer_init \<lparr>buffptr = 12288, esize = of_nat (length c)\<rparr>"

definition loaded_device :: "byte list \<Rightarrow> aesd_seekto \<Rightarrow> kstate" where
  "loaded_device c r = fresh_device\<lparr>heap := [4096 \<mapsto> RingObj (loaded_ring c),
       8192 \<mapsto> EntryObj zero_entry, 12288 \<mapsto> Bytes c],
     user := user_write (user fresh_device) 768 (encode_seekto r)\<rparr>"

lemma loaded_device_rep:
  assumes "c \<noteq> []" and "length c < 2 ^ 32"
  shows "device (loaded_device c r) [c] []"
proof -
  have "unat (of_nat (length c) :: size_t) = length c"
    using assms(2) by (intro unat_of_nat_small) simp
  moreover have "cb_inv (loaded_ring c)"
    "cb_list (loaded_ring c) = [\<lparr>buffptr = 12288, esize = of_nat (length c)\<rparr>]"
    by (simp_all add: loaded_ring_def cb_inv_push cb_list_push)
  ultimately show ?thesis
    using assms(1)
    by (simp add: device_def idle_def loaded_device_def ring_rep_def holds_def zero_entry_def)
qed

lemma loaded_device_call: "seek_call first_fit_kernel (loaded_device c r) 768 r"
proof -
  have "card (dom (heap (loaded_device c r))) + 1 = 4" by (simp add: loaded_device_def)
  moreover have "kernel_room first_fit_kernel 4" by (rule first_fit_kernel_room) simp
  moreover have "user_at (user (loaded_device c r)) 768 24 = map Some (encode_seekto r)"
    using user_at_write [of "encode_seekto r" "user fresh_device" 768] by (simp add: loaded_device_def)
  ultimately show ?thesis using first_fit_kernel_ok by (simp add: seek_call_def)
qed

lemma loaded_device_mapped:
  "length out \<le> 16 \<Longrightarrow> user_mapped (user (loaded_device c r)) 512 (length out)"
  using fresh_device_mapped [of 0 "length out"] by (simp add: loaded_device_def user_mapped_write)

lemma loaded_device_fields [simp]:
  "lock (dev (loaded_device c r)) = False" "write_cmd (request k off) = k"
  "write_cmd_offset (request k off) = off" "special_buffer (request k off) = 512"
  by (simp_all add: loaded_device_def fresh_device_def request_def)

abbreviation hi_device :: "aesd_seekto \<Rightarrow> kstate" where
  "hi_device \<equiv> loaded_device [104, 105, newline]"

lemma hi_device_rep: "device (hi_device r) [[104, 105, newline]] []"
  by (rule loaded_device_rep) simp_all

section \<open>Properties\<close>

text \<open>
  C7: A seek to an offset inside one of the commands held returns 0 and sends the bytes from
  there to the end of the log, when these are at most 500; the request then carries their
  number. Of the state of the module nothing changes: the scratch buffer is freed again and
  the mutex is free.
\<close>

theorem ioctl_seek_returns_rest:
  assumes "device s cmds pend" and "seek_call K s arg r"
    and "private_data filp = device_addr K" and "\<not> lock (dev s)"
    and "unat (write_cmd r) < length cmds"
    and "unat (write_cmd_offset r) < length (cmds ! unat (write_cmd r))"
    and "length (concat cmds) < 2 ^ 32"
    and out: "out = drop (unat (write_cmd_offset r)) (concat (drop (unat (write_cmd r)) cmds))"
    and "length out \<le> 500" and "user_mapped (user s) (special_buffer r) (length out)"
  shows "aesd_ioctl K False s filp AESDCHAR_IOCSEEKTO arg =
      Inr (0, s\<lparr>user := seek_reply r arg out (user s)\<rparr>) \<and>
    user_at (seek_reply r arg out (user s)) arg 24 =
      map Some (encode_seekto (r\<lparr>length_copied := of_nat (length out)\<rparr>))"
proof -
  have "unat (write_cmd r) < 10"
    using assms(1,5) length_cmds cb_count_le by (fastforce elim!: deviceE simp: ring_rep_def)
  then have "write_cmd r \<le> 10" "unat (write_cmd r) mod 10 = unat (write_cmd r)"
    by (simp_all add: word_le_nat_alt)
  then show ?thesis
    using aesd_ioctl_eq [OF assms(1-4) _ assms(7) _ assms(10)] assms(5,6,9)
    by (simp add: out seek_spec_in_range user_at_reply)
qed

theorem ioctl_seek_returns_rest_witness:
  "aesd_ioctl first_fit_kernel False (hi_device (request 0 1)) opened_file AESDCHAR_IOCSEEKTO 768 =
    Inr (0, (hi_device (request 0 1))\<lparr>user :=
      seek_reply (request 0 1) 768 [105, newline] (user (hi_device (request 0 1)))\<rparr>)"
  using ioctl_seek_returns_rest [OF hi_device_rep loaded_device_call, of opened_file "request 0 1" "[105, newline]"]
    loaded_device_mapped [of "[105, newline]" _ "request 0 1"] by simp

text \<open>
  C37: When the bytes to send are more than the 500 of the scratch buffer, the copy loop writes
  past its end: the command has no defined result.
\<close>

theorem ioctl_seek_overflows:
  assumes "device s cmds pend" and "seek_call K s arg r"
    and "private_data filp = device_addr K" and "\<not> lock (dev s)"
    and "unat (write_cmd r) < length cmds"
    and "unat (write_cmd_offset r) < length (cmds ! unat (write_cmd r))"
    and "length (concat cmds) < 2 ^ 32"
    and out: "500 < length (drop (unat (write_cmd_offset r)) (concat (drop (unat (write_cmd r)) cmds)))"
  shows "aesd_ioctl K False s filp AESDCHAR_IOCSEEKTO arg = Inl OutOfBounds"
proof -
  have "unat (write_cmd r) < 10"
    using assms(1,5) length_cmds cb_count_le by (fastforce elim!: deviceE simp: ring_rep_def)
  then have "write_cmd r \<le> 10" "unat (write_cmd r) mod 10 = unat (write_cmd r)"
    by (simp_all add: word_le_nat_alt)
  then show ?thesis
    using aesd_ioctl_eq [OF assms(1-4) _ assms(7) refl] assms(5,6,8)
    by (simp add: seek_spec_in_range)
qed

theorem ioctl_seek_overflows_witness:
  "aesd_ioctl first_fit_kernel False (loaded_device (replicate 501 97) (request 0 0)) opened_file
    AESDCHAR_IOCSEEKTO 768 = Inl OutOfBounds"
proof -
  have "device (loaded_device (replicate 501 97) (request 0 0)) [replicate 501 97] []"
    by (rule loaded_device_rep) simp_all
  then show ?thesis
    using ioctl_seek_overflows [OF _ loaded_device_call, of "replicate 501 97" "request 0 0"
        "[replicate 501 97]" "[]" opened_file] by simp
qed

text \<open>
  The range check lets the command number 10 through, which then stands for the oldest
  command, as 0 does; the bytes sent are those for command 0.
\<close>

theorem ioctl_command_ten_is_zero:
  assumes "device s cmds pend" and "seek_call K s arg r"
    and "private_data filp = device_addr K" and "\<not> lock (dev s)" and "write_cmd r = 10"
    and "length (concat cmds) < 2 ^ 32" and "length (concat cmds) \<le> 500"
    and "out = drop (unat (write_cmd_offset r)) (concat cmds)" and "cmds \<noteq> []"
    and "unat (write_cmd_offset r) < length (hd cmds)"
    and "user_mapped (user s) (special_buffer r) (length out)"
  shows "aesd_ioctl K False s filp AESDCHAR_IOCSEEKTO arg =
    Inr (0, s\<lparr>user := seek_reply r arg out (user s)\<rparr>)"
proof -
  have "seek_spec cmds 0 (unat (write_cmd_offset r)) = out"
    using assms(8-10) by (subst seek_spec_in_range) (simp_all add: hd_conv_nth)
  then show ?thesis
    using aesd_ioctl_eq [OF assms(1-4) _ assms(6) _ assms(11)] assms(5,7,8)
    by simp
qed

theorem ioctl_command_ten_is_zero_witness:
  "aesd_ioctl first_fit_kernel False (hi_device (request 10 1)) opened_file AESDCHAR_IOCSEEKTO 768 =
    Inr (0, (hi_device (request 10 1))\<lparr>user :=
      seek_reply (request 10 1) 768 [105, newline] (user (hi_device (request 10 1)))\<rparr>)"
  using ioctl_command_ten_is_zero [OF hi_device_rep loaded_device_call, of opened_file "request 10 1" "[105, newline]"]
    loaded_device_mapped [of "[105, newline]" _ "request 10 1"] by simp

text \<open>
  A command number above 10 is refused with \<open>-EINVAL\<close>, but on this path the mutex stays
  locked and the scratch buffer allocated: every later write waits for ever.
\<close>

theorem ioctl_einval_keeps_lock:
  assumes dev: "device s cmds pend" and call: "seek_call K s arg r"
    and filp: "private_data filp = device_addr K" and free: "\<not> lock (dev s)"
    and cmd: "write_cmd r > 10" and small: "length (concat cmds) < 2 ^ 64"
  shows "\<exists>t p. aesd_ioctl K False s filp AESDCHAR_IOCSEEKTO arg = Inr (- EINVAL, t) \<and> lock (dev t) \<and>
    heap s p = None \<and> heap t p \<noteq> None \<and>
    (\<forall>buf count. aesd_write K False t filp buf count = Inl Blocked)"
proof -
  let ?s = "s\<lparr>dev := (dev s)\<lparr>lock := True\<rparr>\<rparr>"
  have K: "kernel_ok K" "kernel_room K (card (dom (heap s)) + 1)"
    and arg: "user_at (user s) arg 24 = map Some (encode_seekto r)"
    using call by (simp_all add: seek_call_def)
  obtain mb rest where mb: "seek_fetch K ?s arg = (mb, r, ?s\<lparr>heap := (heap s)(mb \<mapsto> Bytes rest)\<rparr>)"
    "mb \<noteq> NULL" "heap s mb = None"
    by (rule seek_fetch_cases [OF K, of ?s arg r]) (use arg in auto)
  let ?t = "s\<lparr>heap := (heap s)(mb \<mapsto> Bytes rest), dev := (dev s)\<lparr>lock := True\<rparr>\<rparr>"
  have "seek_gather (?s\<lparr>heap := (heap ?s)(mb \<mapsto> Bytes rest)\<rparr>) mb r = Inr None"
    using seek_gather_refused [OF device_lock [OF dev, of True] mb(2) _ small cmd] mb(3) by simp
  then have "aesd_ioctl K False s filp AESDCHAR_IOCSEEKTO arg = Inr (- EINVAL, ?t)"
    using filp free mb(1) by (simp add: aesd_ioctl_def dev_of_def mutex_lock_interruptible_def seek_command_def)
  moreover have "aesd_write K False ?t filp buf count = Inl Blocked" for buf count
    using filp by (simp add: aesd_write_def dev_of_def mutex_lock_interruptible_def)
  ultimately show ?thesis
    using mb(3) by (intro exI [of _ ?t] exI [of _ mb]) simp
qed

theorem ioctl_einval_keeps_lock_witness:
  "\<exists>t. aesd_ioctl first_fit_kernel False (hi_device (request 11 0)) opened_file AESDCHAR_IOCSEEKTO 768 =
    Inr (- EINVAL, t) \<and> lock (dev t)"
  using ioctl_einval_keeps_lock [OF hi_device_rep loaded_device_call, of opened_file "request 11 0"]
  by auto

text \<open>
  A command that the driver does not know returns 0 and has no effect, also when the mutex
  is held; the seek command that a signal interrupts returns \<open>-ERESTARTSYS\<close> and has none.
\<close>

theorem ioctl_without_effect:
  "(cmd \<noteq> AESDCHAR_IOCSEEKTO \<longrightarrow> aesd_ioctl K signalled s filp cmd arg = Inr (0, s)) \<and>
    (private_data filp = device_addr K \<longrightarrow>
      aesd_ioctl K True s filp AESDCHAR_IOCSEEKTO arg = Inr (- ERESTARTSYS, s))"
  by (simp add: aesd_ioctl_def dev_of_def mutex_lock_interruptible_def)

theorem ioctl_without_effect_witness:
  "aesd_ioctl first_fit_kernel False fresh_device opened_file 0 768 = Inr (0, fresh_device)"
proof -
  have "(0 :: u32) \<noteq> AESDCHAR_IOCSEEKTO" by (simp add: AESDCHAR_IOCSEEKTO_def push_bit_eq_mult)
  then show ?thesis
    using ioctl_without_effect [of 0 first_fit_kernel False fresh_device opened_file 768] by blast
qed

text \<open>
  The structure of the seek command crosses the border between process and driver
  unchanged: reading back the 24 bytes of a request gives the request.
\<close>

theorem seekto_roundtrip:
  "length (encode_seekto r) = 24 \<and> decode_seekto (encode_seekto r) = r"
  by (simp add: decode_encode_seekto)

end
