(* ===== verification/Socket_Command.thy ===== *)
theory Socket_Command
  imports Seek_Ioctl
begin

text \<open>
  How the server of \<open>server/aesdsocket.c\<close> looks at what it received: the search for the end
  of a command (\<open>find_delimter_position\<close>) and the recognition of a seek command in the
  received text (\<open>handle_ioctl_commainds\<close>). A buffer is the list of the bytes of its block.
\<close>

section \<open>Text\<close>

definition bytes_of :: "string \<Rightarrow> byte list" where
  "bytes_of s = map of_char s"

definition colon :: byte where "colon = 58"
definition comma :: byte where "comma = 44"

definition is_digit :: "byte \<Rightarrow> bool" where
  "is_digit c \<longleftrightarrow> 48 \<le> c \<and> c \<le> 57"

definition is_space :: "byte \<Rightarrow> bool" where
  "is_space c \<longleftrightarrow> c = 32 \<or> (9 \<le> c \<and> c \<le> 13)"

text \<open>Element access as the code does it: outside the block a fault.\<close>

definition at :: "'a list \<Rightarrow> nat \<Rightarrow> 'a res" where
  "at xs i = (if i < length xs then Inr (xs ! i) else Inl OutOfBounds)"

definition put_at :: "'a list \<Rightarrow> nat \<Rightarrow> 'a \<Rightarrow> 'a list res" where
  "put_at xs i x = (if i < length xs then Inr (xs[i := x]) else Inl OutOfBounds)"

text \<open>A string in a block, up to its terminating zero; and \<open>strstr\<close> on strings.\<close>

definition c_string :: "byte list \<Rightarrow> byte list res" where
  "c_string buffer = (if 0 \<in> set buffer then Inr (takeWhile (\<lambda>c. c \<noteq> 0) buffer) else Inl OutOfBounds)"

fun strstr :: "byte list \<Rightarrow> byte list \<Rightarrow> nat option" where
  "strstr haystack needle =
     (if take (length needle) haystack = needle then Some 0
      else case haystack of [] \<Rightarrow> None | c # cs \<Rightarrow> map_option Suc (strstr cs needle))"

declare strstr.simps [simp del]

text \<open>
  \<open>atoi\<close> on a character array, of which an element that was never written is \<open>None\<close>: white
  space, a sign, digits up to the first other character.
\<close>

fun atoi_digits :: "int \<Rightarrow> byte option list \<Rightarrow> int res" where
  "atoi_digits acc [] = Inl OutOfBounds"
| "atoi_digits acc (None # cs) = Inl Uninitialised"
| "atoi_digits acc (Some c # cs) =
     (if is_digit c then atoi_digits (10 * acc + uint (c - 48)) cs else Inr acc)"

fun atoi :: "byte option list \<Rightarrow> int res" where
  "atoi [] = Inl OutOfBounds"
| "atoi (None # cs) = Inl Uninitialised"
| "atoi (Some c # cs) =
     (if is_space c then atoi cs
      else if c = 45 then bindE (atoi_digits 0 cs) (\<lambda>n. Inr (- n))
      else if c = 43 then atoi_digits 0 cs
      else atoi_digits 0 (Some c # cs))"

section \<open>The end of a command\<close>

text \<open>\<open>find_delimter_position\<close>: the loop over \<open>n\<close> bytes from the position \<open>i\<close>.\<close>

fun find_delim_loop :: "byte list \<Rightarrow> nat \<Rightarrow> nat \<Rightarrow> int res" where
  "find_delim_loop buffer i 0 = Inr (- 1)"
| "find_delim_loop buffer i (Suc n) =
     bindE (at buffer i) (\<lambda>c.
     if c = newline then Inr (int i) else find_delim_loop buffer (Suc i) n)"

definition find_delimter_position :: "byte list \<Rightarrow> int \<Rightarrow> int \<Rightarrow> int res" where
  "find_delimter_position buffer buffer_pos bytes_received_this_iteration =
     find_delim_loop buffer (nat buffer_pos) (nat bytes_received_this_iteration)"

section \<open>Recognising a seek command\<close>

text \<open>The three loops over the text, each from the index \<open>i\<close> with \<open>n\<close> characters to go.\<close>

fun skip_to_colon :: "byte list \<Rightarrow> nat \<Rightarrow> nat \<Rightarrow> nat res" where
  "skip_to_colon buffer i 0 = Inr i"
| "skip_to_colon buffer i (Suc n) =
     bindE (at buffer i) (\<lambda>c. if c = colon then Inr i else skip_to_colon buffer (Suc i) n)"

fun copy_to_comma ::
  "byte list \<Rightarrow> byte option list \<Rightarrow> nat \<Rightarrow> nat \<Rightarrow> nat \<Rightarrow> (nat \<times> nat \<times> byte option list) res" where
  "copy_to_comma buffer start j i 0 = Inr (i, j, start)"
| "copy_to_comma buffer start j i (Suc n) =
     bindE (at buffer i) (\<lambda>c.
     if c = comma then Inr (i, j, start)
     else bindE (put_at start j (Some c)) (\<lambda>start.
       copy_to_comma buffer start (Suc j) (Suc i) n))"

fun copy_offset ::
  "byte list \<Rightarrow> byte option list \<Rightarrow> nat \<Rightarrow> nat \<Rightarrow> nat \<Rightarrow> byte option list res" where
  "copy_offset buffer offset k i 0 = Inr offset"
| "copy_offset buffer offset k i (Suc n) =
     bindE (at buffer i) (\<lambda>c.
     bindE (put_at offset k (Some c)) (\<lambda>offset.
     bindE (if c = newline then put_at offset i (Some 0) else Inr offset) (\<lambda>offset.
     copy_offset buffer offset (Suc k) (Suc i) n)))"

text \<open>The two numbers of a seek command; the arrays have four characters.\<close>

definition parse_numbers :: "byte list \<Rightarrow> nat \<Rightarrow> (int \<times> int) res" where
  "parse_numbers buffer len =
     bindE (skip_to_colon buffer 0 len) (\<lambda>i.
     let i = i + 1
     in bindE (copy_to_comma buffer (replicate 4 None) 0 i (len - i)) (\<lambda>(i, j, start_buffer_string).
     bindE (put_at start_buffer_string j (Some 0)) (\<lambda>start_buffer_string.
     let i = i + 1
     in bindE (copy_offset buffer (replicate 4 None) 0 i (len - i)) (\<lambda>start_offset_string.
     bindE (atoi start_buffer_string) (\<lambda>start_buffer_position.
     bindE (atoi start_offset_string) (\<lambda>start_buffer_offset.
     Inr (start_buffer_position, start_buffer_offset)))))))"

text \<open>
  \<open>handle_ioctl_commainds\<close>: the value returned, the buffer and the world. The open, the
  \<open>ioctl\<close> and the close of the device are the argument \<open>ioctl\<close>, which gets the request and
  the buffer that the request points to and gives both back.
\<close>

type_synonym 'w seek_call = "aesd_seekto \<Rightarrow> byte list \<Rightarrow> 'w \<Rightarrow> (aesd_seekto \<times> byte list \<times> 'w) res"

definition handle_ioctl_commainds ::
  "'w seek_call \<Rightarrow> ptr \<Rightarrow> byte list \<Rightarrow> int \<Rightarrow> 'w \<Rightarrow> (int \<times> byte list \<times> 'w) res" where
  "handle_ioctl_commainds ioctl bufp buffer len w =
     (if len < 23 \<or> len > 27 then Inr (- 1, buffer, w)
      else
        bindE (at buffer (nat len)) (\<lambda>orig_char.
        bindE (put_at buffer (nat len) 0) (\<lambda>buffer.
        bindE (c_string buffer) (\<lambda>text.
        case strstr text (bytes_of ''AESDCHAR_IOCSEEKTO:'') of
          None \<Rightarrow> bindE (put_at buffer (nat len) orig_char) (\<lambda>buffer. Inr (- 1, buffer, w))
        | Some p \<Rightarrow>
            bindE (parse_numbers buffer (nat len)) (\<lambda>(pos, off).
            bindE (ioctl \<lparr>write_cmd = of_int pos, write_cmd_offset = of_int off, length_copied = 0,
                special_buffer = bufp\<rparr> buffer w) (\<lambda>(test, buffer, w).
            Inr (sint (length_copied test), buffer, w)))))))"

section \<open>Lemmas\<close>

lemma at_ok [simp]: "i < length xs \<Longrightarrow> at xs i = Inr (xs ! i)"
  by (simp add: at_def)

lemma put_at_ok [simp]: "i < length xs \<Longrightarrow> put_at xs i x = Inr (xs[i := x])"
  by (simp add: put_at_def)

lemma at_append [simp]: "at (xs @ y # ys) (length xs) = Inr y"
  by (simp add: at_def)

text \<open>The search returns the first newline of the range.\<close>

lemma find_delim_loop_eq:
  assumes "i + n \<le> length buffer"
  shows "find_delim_loop buffer i n = Inr
    (if newline \<in> set (take n (drop i buffer))
     then int (i + length (takeWhile (\<lambda>c. c \<noteq> newline) (drop i buffer))) else - 1)"
  using assms
proof (induction n arbitrary: i)
  case (Suc n)
  then have "drop i buffer = buffer ! i # drop (Suc i) buffer" by (simp add: Cons_nth_drop_Suc)
  with Suc show ?case by simp
qed simp

text \<open>Text of the expected form, loop by loop.\<close>

lemma skip_to_colon_eq:
  "colon \<notin> set P \<Longrightarrow> length P < n \<Longrightarrow>
    skip_to_colon (A @ P @ colon # R) (length A) n = Inr (length A + length P)"
proof (induction P arbitrary: A n)
  case Nil
  then show ?case by (cases n) simp_all
next
  case (Cons p P)
  then show ?case using Cons.IH [of "n - 1" "A @ [p]"] by (cases n) (auto simp: at_def)
qed

lemma copy_to_comma_eq:
  "comma \<notin> set P \<Longrightarrow> length P < n \<Longrightarrow> j + length P \<le> length start \<Longrightarrow>
    copy_to_comma (A @ P @ comma # R) start j (length A) n =
      Inr (length A + length P, j + length P, take j start @ map Some P @ drop (j + length P) start)"
proof (induction P arbitrary: A n j start)
  case Nil
  then show ?case by (cases n) simp_all
next
  case (Cons p P)
  then show ?case
    using Cons.IH [of "n - 1" "Suc j" "start[j := Some p]" "A @ [p]"]
    by (cases n) (auto simp: at_def take_Suc_conv_app_nth)
qed

lemma copy_offset_eq:
  "newline \<notin> set P \<Longrightarrow> k + length P \<le> length off \<Longrightarrow>
    copy_offset (A @ P @ R) off k (length A) (length P) =
      Inr (take k off @ map Some P @ drop (k + length P) off)"
proof (induction P arbitrary: A k off)
  case (Cons p P)
  then show ?case
    using Cons.IH [of "Suc k" "off[k := Some p]" "A @ [p]"]
    by (auto simp: at_def take_Suc_conv_app_nth)
qed simp

text \<open>The value of a sequence of decimal digits.\<close>

definition decimal :: "byte list \<Rightarrow> int" where
  "decimal ds = foldl (\<lambda>n c. 10 * n + uint (c - 48)) 0 ds"

lemma atoi_digits_eq:
  "list_all is_digit ds \<Longrightarrow> \<not> is_digit x \<Longrightarrow>
    atoi_digits acc (map Some ds @ Some x # cs) = Inr (foldl (\<lambda>n c. 10 * n + uint (c - 48)) acc ds)"
  by (induction ds arbitrary: acc) simp_all

lemma digit_no_sign: "is_digit c \<Longrightarrow> \<not> is_space c \<and> c \<noteq> 45 \<and> c \<noteq> 43 \<and> c \<noteq> comma \<and> c \<noteq> newline"
  by (auto simp: is_digit_def is_space_def word_le_nat_alt comma_def newline_def)

lemma atoi_eq:
  assumes "list_all is_digit ds" and "ds \<noteq> []" and "\<not> is_digit x"
  shows "atoi (map Some ds @ Some x # cs) = Inr (decimal ds)"
proof -
  obtain d ds' where ds: "ds = d # ds'" using assms(2) by (cases ds) auto
  with assms(1) digit_no_sign [of d] have "atoi (map Some ds @ Some x # cs) =
      atoi_digits 0 (map Some ds @ Some x # cs)"
    by auto
  then show ?thesis using assms by (simp add: atoi_digits_eq decimal_def)
qed

lemma parse_numbers_eq:
  assumes P: "colon \<notin> set P" and ks: "list_all is_digit ks" "ks \<noteq> []" "length ks \<le> 3"
    and ds: "list_all is_digit ds" "ds \<noteq> []" "length ds \<le> 3" and x: "\<not> is_digit x" "x \<noteq> newline"
    and len: "len = length P + length ks + length ds + 3"
  shows "parse_numbers (P @ colon # ks @ comma # ds @ x # R) len = Inr (decimal ks, decimal ds)"
proof -
  have no: "comma \<notin> set ks" "newline \<notin> set (ds @ [x])"
    using ks(1) ds(1) x(2) digit_no_sign by (auto simp: list_all_iff)
  let ?buf = "P @ colon # ks @ comma # ds @ x # R"
  have "skip_to_colon ?buf 0 len = Inr (length P)"
    using skip_to_colon_eq [OF P, of len "[]"] len by simp
  moreover have "copy_to_comma ?buf (replicate 4 None) 0 (Suc (length P)) (len - Suc (length P)) =
      Inr (Suc (length P) + length ks, length ks, map Some ks @ replicate (4 - length ks) None)"
    using copy_to_comma_eq [OF no(1), of "len - Suc (length P)" 0 "replicate 4 None" "P @ [colon]"]
      len ks(3) by simp
  moreover have "put_at (map Some ks @ replicate (4 - length ks) None) (length ks) (Some 0) =
      Inr (map Some ks @ Some 0 # replicate (3 - length ks) None)"
  proof -
    have "replicate (4 - length ks) (None :: byte option) = None # replicate (3 - length ks) None"
      using ks(3) by (simp add: Suc_diff_le flip: replicate_Suc)
    then show ?thesis using ks(3) by (simp add: put_at_def list_update_append)
  qed
  moreover have "copy_offset ?buf (replicate 4 None) 0 (Suc (Suc (length P) + length ks))
      (len - Suc (Suc (length P) + length ks)) = Inr (map Some ds @ Some x # replicate (3 - length ds) None)"
    using copy_offset_eq [OF no(2), of 0 "replicate 4 None" "P @ colon # ks @ [comma]"] len ds(3)
    by simp
  moreover have "\<not> is_digit 0" by (simp add: is_digit_def word_le_nat_alt)
  ultimately show ?thesis
    using atoi_eq [OF ks(1,2)] atoi_eq [OF ds(1,2) x(1)]
    by (simp add: parse_numbers_def)
qed

text \<open>A newline in the second number is copied and then marked at an index beyond the array.\<close>

lemma copy_offset_newline:
  assumes "length off = 4" and "4 \<le> m" and "i \<le> m" and "m < i + n" and "m < length buffer"
    and "buffer ! m = newline"
  shows "\<exists>f. copy_offset buffer off k i n = Inl f"
  using assms
proof (induction n arbitrary: off k i)
  case (Suc n)
  show ?case
  proof (cases "k < 4")
    case True
    show ?thesis
    proof (cases "i = m")
      case True
      with Suc.prems \<open>k < 4\<close> show ?thesis by (simp add: put_at_def)
    next
      case False
      then have "\<exists>f. copy_offset buffer off' (Suc k) (Suc i) n = Inl f" if "length off' = 4" for off'
        using that Suc.prems by (intro Suc.IH) simp_all
      with Suc.prems \<open>k < 4\<close> show ?thesis by (auto simp: put_at_def)
    qed
  qed (use Suc.prems in \<open>simp add: put_at_def\<close>)
qed simp

lemma skip_to_colon_range:
  "skip_to_colon buffer i n = Inr i' \<Longrightarrow> i' \<le> i + n"
proof (induction n arbitrary: i)
  case (Suc n)
  then show ?case by (fastforce simp: res_simps at_def split: if_splits)
qed simp

lemma copy_to_comma_range:
  "copy_to_comma buffer start j i n = Inr (i', j', start') \<Longrightarrow>
    i \<le> i' \<and> (i' = i + n \<or> i' < i + n \<and> buffer ! i' = comma)"
proof (induction n arbitrary: start j i)
  case (Suc n)
  then show ?case by (fastforce simp: res_simps at_def split: if_splits)
qed simp

lemma parse_newline_fault:
  assumes "5 \<le> len" and "len \<le> length buffer" and "buffer ! (len - 1) = newline"
  shows "\<exists>f. parse_numbers buffer len = Inl f"
proof (rule ccontr)
  assume "\<nexists>f. parse_numbers buffer len = Inl f"
  then obtain r where "parse_numbers buffer len = Inr r" by (cases "parse_numbers buffer len") auto
  then obtain i i' j st st' off n where
    skip: "skip_to_colon buffer 0 len = Inr i"
    and copy: "copy_to_comma buffer (replicate 4 None) 0 (i + 1) (len - (i + 1)) = Inr (i', j, st)"
    and off: "copy_offset buffer (replicate 4 None) 0 (i' + 1) (len - (i' + 1)) = Inr off"
    and atoi: "atoi off = Inr n"
    by (auto simp: parse_numbers_def Let_def res_simps)
  show False
  proof (cases "i' < len")
    case True
    with copy_to_comma_range [OF copy] have "buffer ! i' = comma" by auto
    then have "i' \<noteq> len - 1" using assms(3) by (auto simp: comma_def newline_def)
    then have "\<exists>f. copy_offset buffer (replicate 4 None) 0 (i' + 1) (len - (i' + 1)) = Inl f"
      using True assms by (intro copy_offset_newline [of _ "len - 1"]) auto
    with off show False by auto
  next
    case False
    then have "off = replicate 4 None" using off by simp
    with atoi show False by (simp add: eval_nat_numeral)
  qed
qed

section \<open>Recognition\<close>

lemma strstr_None_iff: "strstr h n = None \<longleftrightarrow> (\<nexists>a b. h = a @ n @ b)"
proof (induction h)
  case Nil
  then show ?case by (subst strstr.simps) auto
next
  case (Cons c h)
  show ?case
  proof (cases "take (length n) (c # h) = n")
    case True
    then have "\<exists>a b. c # h = a @ n @ b"
      by (metis append_Nil append_take_drop_id)
    with True show ?thesis by (subst strstr.simps) simp
  next
    case False
    then have "(\<exists>a b. c # h = a @ n @ b) \<longleftrightarrow> (\<exists>a b. h = a @ n @ b)"
      by (metis append_Cons append_Nil append_eq_conv_conj list.sel(3) neq_Nil_conv)
    with False Cons show ?thesis by (subst strstr.simps) simp
  qed
qed

lemma c_string_cut:
  assumes "n < length buffer"
  shows "c_string (buffer[n := 0]) = Inr (takeWhile (\<lambda>c. c \<noteq> 0) (take n buffer))"
proof -
  have buf: "buffer[n := 0] = take n buffer @ 0 # drop (Suc n) buffer"
    using assms by (rule upd_conv_take_nth_drop)
  then have "takeWhile (\<lambda>c. c \<noteq> 0) (buffer[n := 0]) = takeWhile (\<lambda>c. c \<noteq> 0) (take n buffer)"
    by (auto simp: takeWhile_append takeWhile_eq_all_conv [THEN iffD2])
  with buf show ?thesis by (simp add: c_string_def)
qed

text \<open>The received text is a seek command: it is short enough and contains the keyword.\<close>

definition seek_text :: "byte list \<Rightarrow> int \<Rightarrow> bool" where
  "seek_text buffer len \<longleftrightarrow> 23 \<le> len \<and> len \<le> 27 \<and>
     strstr (takeWhile (\<lambda>c. c \<noteq> 0) (take (nat len) buffer)) (bytes_of ''AESDCHAR_IOCSEEKTO:'') \<noteq> None"

lemma handle_ioctl_seek_text:
  assumes "seek_text buffer len" and "nat len < length buffer"
  shows "handle_ioctl_commainds ioctl bufp buffer len w =
    (let buffer = buffer[nat len := 0]
     in bindE (parse_numbers buffer (nat len)) (\<lambda>(pos, off).
        bindE (ioctl \<lparr>write_cmd = of_int pos, write_cmd_offset = of_int off, length_copied = 0,
          special_buffer = bufp\<rparr> buffer w) (\<lambda>(test, buffer, w).
        Inr (sint (length_copied test), buffer, w))))"
  using assms by (auto simp: handle_ioctl_commainds_def seek_text_def c_string_cut Let_def)

lemma not_a_seek:
  assumes "\<not> seek_text buffer len" and "nat len < length buffer"
  shows "handle_ioctl_commainds ioctl bufp buffer len w = Inr (- 1, buffer, w)"
  using assms by (auto simp: handle_ioctl_commainds_def seek_text_def c_string_cut)

text \<open>
  What is not a seek command is left alone: the function returns -1, does not call the
  device and leaves the buffer as it was, including the character it replaced for the search.
\<close>

theorem not_a_seek_command:
  assumes "\<not> seek_text buffer len" and "nat len < length buffer"
  shows "handle_ioctl_commainds ioctl bufp buffer len w = Inr (- 1, buffer, w)"
  using assms by (rule not_a_seek)

theorem not_a_seek_command_witness:
  "handle_ioctl_commainds (\<lambda>r b w. Inr (r, b, w)) 512 (replicate 2000 97) 25 () =
    Inr (- 1, replicate 2000 97, ())"
proof (rule not_a_seek_command)
  have plain: "takeWhile (\<lambda>c. c \<noteq> 0) (take (nat 25) (replicate 2000 (97 :: byte))) = replicate 25 97"
    by simp
  have "strstr (replicate 25 (97 :: byte)) (bytes_of ''AESDCHAR_IOCSEEKTO:'') = None" by code_simp
  then show "\<not> seek_text (replicate 2000 97) 25"
    unfolding seek_text_def plain by simp
qed simp

lemma keyword: "bytes_of ''AESDCHAR_IOCSEEKTO:'' = bytes_of ''AESDCHAR_IOCSEEKTO'' @ [colon]"
  by code_simp

lemma keyword_chars: "colon \<notin> set (bytes_of ''AESDCHAR_IOCSEEKTO'')" "0 \<notin> set (bytes_of ''AESDCHAR_IOCSEEKTO'')"
  "length (bytes_of ''AESDCHAR_IOCSEEKTO'') = 18" "0 \<noteq> colon"
  by code_simp+

text \<open>The text of a seek command, up to and including one character after the second number.\<close>

definition seek_message :: "byte list \<Rightarrow> byte list \<Rightarrow> byte \<Rightarrow> byte list" where
  "seek_message ks ds x = bytes_of ''AESDCHAR_IOCSEEKTO:'' @ ks @ comma # ds @ [x]"

lemma length_seek_message: "length (seek_message ks ds x) = length ks + length ds + 21"
  by (simp add: seek_message_def keyword keyword_chars)

lemma seek_text_message:
  assumes "ks \<noteq> []" "ds \<noteq> []" "length ks \<le> 3" "length ds \<le> 3"
  shows "seek_text (seek_message ks ds x @ R) (int (length (seek_message ks ds x)))"
proof -
  have "0 < length ks" "0 < length ds" using assms(1,2) by simp_all
  then have len: "23 \<le> length (seek_message ks ds x)" "length (seek_message ks ds x) \<le> 27"
    unfolding length_seek_message using assms(3,4) by linarith+
  have "\<forall>c \<in> set (bytes_of ''AESDCHAR_IOCSEEKTO:''). c \<noteq> 0"
    using keyword_chars(2,4) by (auto simp: keyword)
  then have "takeWhile (\<lambda>c. c \<noteq> 0) (seek_message ks ds x) = [] @ bytes_of ''AESDCHAR_IOCSEEKTO:'' @
      takeWhile (\<lambda>c. c \<noteq> 0) (ks @ comma # ds @ [x])"
    unfolding seek_message_def by (subst takeWhile_append2) auto
  then have "strstr (takeWhile (\<lambda>c. c \<noteq> 0) (seek_message ks ds x)) (bytes_of ''AESDCHAR_IOCSEEKTO:'') \<noteq> None"
    unfolding strstr_None_iff by blast
  with len show ?thesis by (simp add: seek_text_def)
qed

lemma seek_parsed:
  assumes "list_all is_digit ks" and "ks \<noteq> []" and "length ks \<le> 3"
    and "list_all is_digit ds" and "ds \<noteq> []" and "length ds \<le> 3"
    and "\<not> is_digit x" and "x \<noteq> newline"
  shows "handle_ioctl_commainds ioctl bufp (seek_message ks ds x @ y # R)
      (int (length (seek_message ks ds x))) w =
    bindE (ioctl \<lparr>write_cmd = of_int (decimal ks), write_cmd_offset = of_int (decimal ds),
        length_copied = 0, special_buffer = bufp\<rparr> (seek_message ks ds x @ 0 # R) w)
      (\<lambda>(test, buffer, w). Inr (sint (length_copied test), buffer, w))"
proof -
  have "parse_numbers (seek_message ks ds x @ 0 # R) (length (seek_message ks ds x)) =
      Inr (decimal ks, decimal ds)"
    using parse_numbers_eq [OF keyword_chars(1) assms] keyword_chars(3)
    by (simp add: length_seek_message add.commute) (simp add: seek_message_def keyword)
  then show ?thesis
    using seek_text_message [OF assms(2,5,3,6)]
    by (subst handle_ioctl_seek_text) (simp_all add: list_update_append)
qed

text \<open>
  A seek command whose numbers have one to three digits, followed by a character that is
  neither a digit nor a newline, makes one call of the device, with these numbers and the
  receive buffer; the function returns the number of bytes that the device reports.
\<close>

theorem seek_command_parsed:
  assumes "list_all is_digit ks" and "ks \<noteq> []" and "length ks \<le> 3"
    and "list_all is_digit ds" and "ds \<noteq> []" and "length ds \<le> 3"
    and "\<not> is_digit x" and "x \<noteq> newline"
  shows "handle_ioctl_commainds ioctl bufp (seek_message ks ds x @ y # R)
      (int (length (seek_message ks ds x))) w =
    bindE (ioctl \<lparr>write_cmd = of_int (decimal ks), write_cmd_offset = of_int (decimal ds),
        length_copied = 0, special_buffer = bufp\<rparr> (seek_message ks ds x @ 0 # R) w)
      (\<lambda>(test, buffer, w). Inr (sint (length_copied test), buffer, w))"
  using assms by (rule seek_parsed)

theorem seek_command_parsed_witness:
  "handle_ioctl_commainds (\<lambda>r b w. Inr (r\<lparr>length_copied := 4\<rparr>, b, Some r)) 512
      (seek_message [49] [50, 51] 0 @ [99]) 24 None =
    Inr (4, seek_message [49] [50, 51] 0 @ [0], Some \<lparr>write_cmd = 1, write_cmd_offset = 23,
      length_copied = 0, special_buffer = 512\<rparr>)"
proof -
  have "list_all is_digit [49]" "list_all is_digit [50, 51]" "\<not> is_digit 0"
    "(0 :: byte) \<noteq> newline" "decimal [49] = 1" "decimal [50, 51] = 23"
    by code_simp+
  then show ?thesis
    using seek_command_parsed [of "[49]" "[50, 51]" 0
        "\<lambda>r b w. Inr (r\<lparr>length_copied := 4\<rparr>, b, Some r)" 512 99 "[]" None]
    by (simp add: length_seek_message)
qed

text \<open>
  A seek command that ends with a newline, as commands to the server do, never returns:
  the loop over the second number writes a zero at the position of the newline in the message,
  at least 22, of an array of four characters.
\<close>

theorem newline_command_overruns:
  assumes "seek_text buffer len" and "nat len < length buffer" and "buffer ! (nat len - 1) = newline"
  shows "\<exists>f. handle_ioctl_commainds ioctl bufp buffer len w = Inl f"
proof -
  have "23 \<le> nat len" using assms(1) by (auto simp: seek_text_def)
  then obtain f where "parse_numbers (buffer[nat len := 0]) (nat len) = Inl f"
    using parse_newline_fault [of "nat len" "buffer[nat len := 0]"] assms(2,3) by auto
  then show ?thesis
    by (simp add: handle_ioctl_seek_text [OF assms(1,2)])
qed

theorem newline_command_overruns_witness:
  "\<exists>f. handle_ioctl_commainds (\<lambda>r b w. Inr (r, b, w)) 512
    (seek_message [49] [50] newline @ replicate 1977 0) 23 () = Inl f"
proof (rule newline_command_overruns)
  show "seek_text (seek_message [49] [50] newline @ replicate 1977 0) 23"
    using seek_text_message [of "[49]" "[50]" newline] by (simp add: length_seek_message)
qed (simp_all add: length_seek_message nth_append, simp add: seek_message_def keyword nth_append keyword_chars)

text \<open>
  The search for the end of a command reads only the bytes just received and returns the
  position of the first newline among them, or -1 when there is none.
\<close>

theorem find_delimter_position_first:
  assumes "pos + n \<le> length buffer"
  shows "find_delimter_position buffer (int pos) (int n) = Inr
    (if newline \<in> set (take n (drop pos buffer))
     then int (pos + length (takeWhile (\<lambda>c. c \<noteq> newline) (drop pos buffer))) else - 1)"
  using find_delim_loop_eq [OF assms] by (simp add: find_delimter_position_def)

theorem find_delimter_position_first_witness:
  "find_delimter_position [newline, 104, newline, 0] 1 2 = Inr 2"
  using find_delimter_position_first [of 1 2 "[newline, 104, newline, 0]"]
  by (simp add: newline_def)

end
