(* ===== verification/Server_Files.thy ===== *)
theory Server_Files
  imports Socket_Command
begin

text \<open>
  How the server of \<open>server/aesdsocket.c\<close> stores what it receives and sends it back:
  \<open>dump_buffer_to_file\<close>, \<open>print_time_to_file\<close> and \<open>dump_file_to_socket\<close>, over the system calls
  they make. The store is a regular file or the character device; the contract that both keep is the
  locale \<open>outfile\<close>, interpreted on a file and on the model of the driver.
\<close>

section \<open>System calls and globals\<close>

datatype open_mode = AppendCreate | WriteOnly | ReadOnly

text \<open>
  The system calls on the store and on a socket, over a world \<open>'w\<close>. A read or a receive
  gives the returned count and the bytes stored; \<open>px_malloc\<close> gives the contents of a new
  block, or \<open>None\<close> for NULL.
\<close>

record 'w posix =
  px_open :: "open_mode \<Rightarrow> 'w \<Rightarrow> (int \<times> 'w) res"
  px_lseek :: "int \<Rightarrow> int \<Rightarrow> 'w \<Rightarrow> 'w res"
  px_read :: "int \<Rightarrow> nat \<Rightarrow> 'w \<Rightarrow> (int \<times> byte list \<times> 'w) res"
  px_write :: "int \<Rightarrow> byte list \<Rightarrow> 'w \<Rightarrow> 'w res"
  px_close :: "int \<Rightarrow> 'w \<Rightarrow> 'w res"
  px_send :: "int \<Rightarrow> byte list \<Rightarrow> 'w \<Rightarrow> 'w res"
  px_recv :: "int \<Rightarrow> nat \<Rightarrow> 'w \<Rightarrow> (int \<times> byte list \<times> 'w) res"
  px_malloc :: "nat \<Rightarrow> 'w \<Rightarrow> byte list option \<times> 'w"
  px_ioctl :: "'w seek_call"

record globals =
  use_dev :: bool
  close_socket_when_receive_delim :: bool
  should_quit :: bool
  is_working :: bool
  file_mutex :: bool \<comment> \<open>the mutex is held\<close>
  linked_list_mutex :: bool

text \<open>
  A thread that locks a held mutex waits; unlocking a mutex that is not held is undefined.
  The file mutex is used only when the store is a regular file.
\<close>

definition lock_file :: "globals \<Rightarrow> globals res" where
  "lock_file g = (if use_dev g then Inr g else if file_mutex g then Inl Blocked
     else Inr (g\<lparr>file_mutex := True\<rparr>))"

definition unlock_file :: "globals \<Rightarrow> globals res" where
  "unlock_file g = (if use_dev g then Inr g else if file_mutex g then Inr (g\<lparr>file_mutex := False\<rparr>)
     else Inl BadUnlock)"

section \<open>Storing and sending\<close>

definition dump_buffer_to_file ::
  "'w posix \<Rightarrow> int \<Rightarrow> byte list \<Rightarrow> globals \<times> 'w \<Rightarrow> (globals \<times> 'w) res" where
  "dump_buffer_to_file P length_to_dump buffer s = (case s of (g, w) \<Rightarrow>
     bindE (lock_file g) (\<lambda>g.
     bindE (px_open P (if use_dev g then WriteOnly else AppendCreate) w) (\<lambda>(fd, w).
     bindE (if fd < 1 then unlock_file g else Inr g) (\<lambda>g.
     bindE (guardE OutOfBounds (length_to_dump \<le> int (length buffer))) (\<lambda>_.
     bindE (px_write P fd (take (nat length_to_dump) buffer) w) (\<lambda>w.
     bindE (px_close P fd w) (\<lambda>w.
     bindE (unlock_file g) (\<lambda>g. Inr (g, w)))))))))"

text \<open>The loop of \<open>dump_file_to_socket\<close>; the buffer of the code has room for 100 bytes.\<close>

partial_function (option) dump_loop ::
  "'w posix \<Rightarrow> int \<Rightarrow> int \<Rightarrow> int \<Rightarrow> 'w \<Rightarrow> 'w res option" where
  "dump_loop P fd socket_fd curr_file_offset w =
     (case px_lseek P fd curr_file_offset w of
        Inl f \<Rightarrow> Some (Inl f)
      | Inr w \<Rightarrow>
          (case px_read P fd 100 w of
             Inl f \<Rightarrow> Some (Inl f)
           | Inr (curr_bytes_read, out_buffer, w) \<Rightarrow>
               (if curr_bytes_read > 0 then
                  (case px_send P socket_fd (take (nat curr_bytes_read) out_buffer) w of
                     Inl f \<Rightarrow> Some (Inl f)
                   | Inr w \<Rightarrow> dump_loop P fd socket_fd (curr_file_offset + curr_bytes_read) w)
                else Some (Inr w))))"

definition dump_file_to_socket ::
  "'w posix \<Rightarrow> int \<Rightarrow> globals \<times> 'w \<Rightarrow> (globals \<times> 'w) res" where
  "dump_file_to_socket P socket_fd s = (case s of (g, w) \<Rightarrow>
     bindE (lock_file g) (\<lambda>g.
     bindE (px_open P ReadOnly w) (\<lambda>(fd, w).
     bindE (if fd < 1 then unlock_file g else Inr g) (\<lambda>g.
     bindE (returned (dump_loop P fd socket_fd 0 w)) (\<lambda>w.
     bindE (px_close P fd w) (\<lambda>w.
     let g = g\<lparr>is_working := False\<rparr>
     in bindE (unlock_file g) (\<lambda>g. Inr (g, w))))))))"

text \<open>
  \<open>print_time_to_file\<close>, the handler of the timer: the line is in a block of
  \<open>TIME_SIZE + 10\<close> bytes, the ten bytes of the prefix first. \<open>time\<close> is what \<open>strftime\<close> writes;
  a text that does not fit in \<open>TIME_SIZE\<close> bytes leaves them indeterminate. The mutex is taken
  whatever the store is; after a failed open the handler goes on and releases it once.
\<close>

definition TIME_SIZE :: nat where
  "TIME_SIZE = 70"

definition get_current_time :: "byte list \<Rightarrow> byte list \<Rightarrow> byte list res" where
  "get_current_time time curr_time =
     (if length time < TIME_SIZE then Inr (time @ 0 # drop (Suc (length time)) curr_time)
      else Inl Uninitialised)"

definition print_time_to_file ::
  "'w posix \<Rightarrow> byte list \<Rightarrow> globals \<times> 'w \<Rightarrow> (globals \<times> 'w) res" where
  "print_time_to_file P time s = (case s of (g, w) \<Rightarrow>
     (case px_malloc P (TIME_SIZE + 10) w of
        (None, w) \<Rightarrow> Inl BadPointer
      | (Some writestr, w) \<Rightarrow>
          bindE (if file_mutex g then Inl Blocked else Inr (g\<lparr>file_mutex := True\<rparr>)) (\<lambda>g.
          bindE (get_current_time time (drop 10 writestr)) (\<lambda>rest.
          bindE (px_open P AppendCreate w) (\<lambda>(fd, w).
          bindE (c_string (bytes_of ''timestamp:'' @ rest)) (\<lambda>line.
          bindE (px_write P fd line w) (\<lambda>w.
          bindE (px_write P fd [newline] w) (\<lambda>w.
          bindE (px_close P fd w) (\<lambda>w.
          Inr (g\<lparr>file_mutex := False\<rparr>, w))))))))))"

section \<open>The contract of a store\<close>

text \<open>
  A world holds the contents of the store as an abstract value, what was sent on the socket
  and the chunks that the network will deliver. \<open>budget\<close> bounds the number of writes that
  the store still guarantees to take, each of at most 2000 bytes.
\<close>

locale outfile =
  fixes P :: "'w posix" and inv :: "'w \<Rightarrow> bool" and budget :: "'w \<Rightarrow> nat"
    and store :: "'w \<Rightarrow> 'a" and app :: "byte list \<Rightarrow> 'a \<Rightarrow> 'a" and contents :: "'a \<Rightarrow> byte list"
    and sent :: "'w \<Rightarrow> byte list" and incoming :: "'w \<Rightarrow> byte list list"
  assumes open_law: "inv w \<Longrightarrow> \<exists>fd w'. px_open P mode w = Inr (fd, w') \<and> 1 \<le> fd \<and> inv w' \<and>
      (store w', sent w', incoming w', budget w') = (store w, sent w, incoming w, budget w)"
    and write_law: "inv w \<Longrightarrow> 0 < budget w \<Longrightarrow> bs \<noteq> [] \<Longrightarrow> length bs \<le> 2000 \<Longrightarrow>
      \<exists>w'. px_write P fd bs w = Inr w' \<and> inv w' \<and> budget w \<le> Suc (budget w') \<and>
        (store w', sent w', incoming w') = (app bs (store w), sent w, incoming w)"
    and read_law: "inv w \<Longrightarrow> 0 \<le> off \<Longrightarrow> off \<le> int (length (contents (store w))) \<Longrightarrow>
      \<exists>w1 bs w'. px_lseek P fd off w = Inr w1 \<and> px_read P fd 100 w1 = Inr (int (length bs), bs, w') \<and>
        inv w' \<and> (store w', sent w', incoming w', budget w') = (store w, sent w, incoming w, budget w) \<and>
        bs = take (length bs) (drop (nat off) (contents (store w))) \<and>
        (bs = [] \<longleftrightarrow> length (contents (store w)) \<le> nat off)"
    and close_law: "inv w \<Longrightarrow> \<exists>w'. px_close P fd w = Inr w' \<and> inv w' \<and>
      (store w', sent w', incoming w', budget w') = (store w, sent w, incoming w, budget w)"
    and send_law: "inv w \<Longrightarrow> \<exists>w'. px_send P fd bs w = Inr w' \<and> inv w' \<and>
      (store w', sent w', incoming w', budget w') = (store w, sent w @ bs, incoming w, budget w)"
    and recv_law: "inv w \<Longrightarrow> incoming w = [] \<Longrightarrow> \<exists>w'. px_recv P fd n w = Inr (0, [], w') \<and> inv w' \<and>
      (store w', sent w', incoming w', budget w') = (store w, sent w, incoming w, budget w)"
    "inv w \<Longrightarrow> incoming w = c # cs \<Longrightarrow> length c \<le> n \<Longrightarrow>
      \<exists>w'. px_recv P fd n w = Inr (int (length c), c, w') \<and> inv w' \<and>
        (store w', sent w', incoming w', budget w') = (store w, sent w, cs, budget w)"
    and malloc_law: "inv w \<Longrightarrow> \<exists>blk w'. px_malloc P n w = (Some blk, w') \<and> length blk = n \<and> inv w' \<and>
      (store w', sent w', incoming w', budget w') = (store w, sent w, incoming w, budget w)"
begin

lemma dump_loop_sends:
  assumes "inv w" and "0 \<le> off" and "off \<le> int (length (contents (store w)))"
  shows "\<exists>w'. dump_loop P fd sock off w = Some (Inr w') \<and> inv w' \<and>
    (store w', sent w', incoming w', budget w') =
      (store w, sent w @ drop (nat off) (contents (store w)), incoming w, budget w)"
  using assms
proof (induction "length (contents (store w)) - nat off" arbitrary: w off rule: less_induct)
  case less
  obtain w1 bs w2 where rd: "px_lseek P fd off w = Inr w1" "px_read P fd 100 w1 = Inr (int (length bs), bs, w2)"
    "inv w2" "(store w2, sent w2, incoming w2, budget w2) = (store w, sent w, incoming w, budget w)"
    "bs = take (length bs) (drop (nat off) (contents (store w)))"
    "bs = [] \<longleftrightarrow> length (contents (store w)) \<le> nat off"
    using read_law [OF less.prems, of fd] by blast
  show ?case
  proof (cases "bs = []")
    case True
    then show ?thesis using rd by (subst dump_loop.simps) simp
  next
    case False
    obtain w3 where w3: "px_send P sock bs w2 = Inr w3" "inv w3"
      "(store w3, sent w3, incoming w3, budget w3) = (store w, sent w @ bs, incoming w, budget w)"
      using send_law [OF rd(3)] rd(4) by auto
    let ?off = "off + int (length bs)"
    have nat_off: "nat ?off = nat off + length bs" using less.prems(2) by simp
    have len: "length bs \<le> length (contents (store w)) - nat off"
      using rd(5) by (metis length_drop length_take min.cobounded1 min_def nle_le)
    have "length (contents (store w3)) - nat ?off < length (contents (store w)) - nat off"
      using False len w3(3) less.prems(2) by (cases bs) (auto simp: nat_off)
    moreover have "?off \<le> int (length (contents (store w)))"
      using len less.prems(2,3) by linarith
    ultimately obtain w4 where w4: "dump_loop P fd sock ?off w3 = Some (Inr w4)" "inv w4"
      "(store w4, sent w4, incoming w4, budget w4) =
        (store w3, sent w3 @ drop (nat ?off) (contents (store w3)), incoming w3, budget w3)"
      using less.hyps [of w3 ?off] less.prems(2) w3(2,3) by auto
    have "dump_loop P fd sock off w = dump_loop P fd sock ?off w3"
      using rd(1,2) w3(1) False by (subst dump_loop.simps) simp
    moreover have "bs @ drop (nat ?off) (contents (store w)) = drop (nat off) (contents (store w))"
      using rd(5) by (metis append_take_drop_id drop_drop nat_off add.commute)
    ultimately show ?thesis using w4 w3(3) by auto
  qed
qed

text \<open>A store that is free of other threads: the file mutex is not held.\<close>

lemma dump_file_sends:
  assumes "inv w" and "use_dev g \<or> \<not> file_mutex g"
  shows "\<exists>w'. dump_file_to_socket P sock (g, w) = Inr (g\<lparr>is_working := False\<rparr>, w') \<and> inv w' \<and>
    (store w', sent w', incoming w', budget w') =
      (store w, sent w @ contents (store w), incoming w, budget w)"
proof -
  obtain fd w1 where w1: "px_open P ReadOnly w = Inr (fd, w1)" "1 \<le> fd" "inv w1"
    "(store w1, sent w1, incoming w1, budget w1) = (store w, sent w, incoming w, budget w)"
    using open_law [OF assms(1)] by blast
  obtain w2 where w2: "dump_loop P fd sock 0 w1 = Some (Inr w2)" "inv w2"
    "(store w2, sent w2, incoming w2, budget w2) =
      (store w1, sent w1 @ contents (store w1), incoming w1, budget w1)"
    using dump_loop_sends [OF w1(3), of 0] by auto
  obtain w3 where w3: "px_close P fd w2 = Inr w3" "inv w3"
    "(store w3, sent w3, incoming w3, budget w3) = (store w2, sent w2, incoming w2, budget w2)"
    using close_law [OF w2(2)] by blast
  show ?thesis
    using w1 w2 w3 assms(2)
    by (cases g) (auto simp: dump_file_to_socket_def lock_file_def unlock_file_def)
qed

lemma print_time_stores:
  assumes "inv w" and "\<not> file_mutex g" and "2 \<le> budget w" and "0 \<notin> set time" and "length time < 70"
  shows "\<exists>w'. print_time_to_file P time (g, w) = Inr (g, w') \<and> inv w' \<and>
    (store w', sent w', incoming w') =
      (app [newline] (app (bytes_of ''timestamp:'' @ time) (store w)), sent w, incoming w)"
proof -
  let ?line = "bytes_of ''timestamp:'' @ time"
  obtain blk w1 where w1: "px_malloc P 80 w = (Some blk, w1)" "inv w1"
    "(store w1, sent w1, incoming w1, budget w1) = (store w, sent w, incoming w, budget w)"
    using malloc_law [OF assms(1)] by blast
  obtain fd w2 where w2: "px_open P AppendCreate w1 = Inr (fd, w2)" "inv w2"
    "(store w2, sent w2, incoming w2, budget w2) = (store w1, sent w1, incoming w1, budget w1)"
    using open_law [OF w1(2)] by blast
  have line: "?line \<noteq> []" "length ?line \<le> 2000" "0 \<notin> set ?line"
    using assms(4,5) by (simp_all add: bytes_of_def)
  obtain w3 where w3: "px_write P fd ?line w2 = Inr w3" "inv w3" "budget w2 \<le> Suc (budget w3)"
    "(store w3, sent w3, incoming w3) = (app ?line (store w2), sent w2, incoming w2)"
    using write_law [OF w2(2) _ line(1,2), of fd] w1(3) w2(3) assms(3) by auto
  obtain w4 where w4: "px_write P fd [newline] w3 = Inr w4" "inv w4"
    "(store w4, sent w4, incoming w4) = (app [newline] (store w3), sent w3, incoming w3)"
    using write_law [OF w3(2), of "[newline]" fd] w1(3) w2(3) w3(3) assms(3) by auto
  obtain w5 where w5: "px_close P fd w4 = Inr w5" "inv w5"
    "(store w5, sent w5, incoming w5, budget w5) = (store w4, sent w4, incoming w4, budget w4)"
    using close_law [OF w4(2)] by blast
  have "get_current_time time (drop 10 blk) = Inr (time @ 0 # drop (Suc (length time)) (drop 10 blk))"
    using assms(5) by (simp only: get_current_time_def TIME_SIZE_def if_True)
  moreover have "c_string (bytes_of ''timestamp:'' @ time @ 0 # xs) = Inr ?line" for xs
  proof -
    have "\<forall>c \<in> set ?line. c \<noteq> 0" using line(3) by metis
    then have "takeWhile (\<lambda>c. c \<noteq> 0) (?line @ 0 # xs) = ?line"
      by (subst takeWhile_append2) simp_all
    then show ?thesis by (simp add: c_string_def)
  qed
  ultimately show ?thesis
    using w1 w2 w3 w4 w5 assms(2) by (cases g) (auto simp: print_time_to_file_def TIME_SIZE_def)
qed

lemma dump_buffer_stores:
  assumes "inv w" and "use_dev g \<or> \<not> file_mutex g" and "0 < budget w"
    and "0 < n" and "n \<le> length buffer" and "n \<le> 2000"
  shows "\<exists>w'. dump_buffer_to_file P (int n) buffer (g, w) = Inr (g, w') \<and> inv w' \<and>
    budget w \<le> Suc (budget w') \<and>
    (store w', sent w', incoming w') = (app (take n buffer) (store w), sent w, incoming w)"
proof -
  obtain fd w1 where w1: "px_open P (if use_dev g then WriteOnly else AppendCreate) w = Inr (fd, w1)"
    "1 \<le> fd" "inv w1"
    "(store w1, sent w1, incoming w1, budget w1) = (store w, sent w, incoming w, budget w)"
    using open_law [OF assms(1)] by blast
  obtain w2 where w2: "px_write P fd (take n buffer) w1 = Inr w2" "inv w2" "budget w1 \<le> Suc (budget w2)"
    "(store w2, sent w2, incoming w2) = (app (take n buffer) (store w1), sent w1, incoming w1)"
    using write_law [OF w1(3), of "take n buffer" fd] w1(4) assms(3-6) by fastforce
  obtain w3 where w3: "px_close P fd w2 = Inr w3" "inv w3"
    "(store w3, sent w3, incoming w3, budget w3) = (store w2, sent w2, incoming w2, budget w2)"
    using close_law [OF w2(2)] by blast
  show ?thesis
    using w1 w2 w3 assms(2,5)
    by (cases g) (auto simp: dump_buffer_to_file_def lock_file_def unlock_file_def)
qed

end

section \<open>A regular file\<close>

text \<open>
  The store as a regular file that is only appended to, with a socket on which everything
  that is sent is accepted.
\<close>

record file_world =
  fdata :: "byte list"
  fposn :: nat
  fsent :: "byte list"
  finbox :: "byte list list"

definition take_chunk :: "nat \<Rightarrow> byte list list \<Rightarrow> byte list \<times> byte list list" where
  "take_chunk n cs = (case cs of [] \<Rightarrow> ([], [])
     | c # cs \<Rightarrow> (take n c, if n < length c then drop n c # cs else cs))"

definition file_posix :: "file_world posix" where
  "file_posix = \<lparr>
     px_open = (\<lambda>mode w. Inr (3, w\<lparr>fposn := 0\<rparr>)),
     px_lseek = (\<lambda>fd off w. Inr (w\<lparr>fposn := nat off\<rparr>)),
     px_read = (\<lambda>fd n w. let bs = take n (drop (fposn w) (fdata w))
       in Inr (int (length bs), bs, w\<lparr>fposn := fposn w + length bs\<rparr>)),
     px_write = (\<lambda>fd bs w. Inr (w\<lparr>fdata := fdata w @ bs\<rparr>)),
     px_close = (\<lambda>fd w. Inr w),
     px_send = (\<lambda>fd bs w. Inr (w\<lparr>fsent := fsent w @ bs\<rparr>)),
     px_recv = (\<lambda>fd n w. let (bs, cs) = take_chunk n (finbox w)
       in Inr (int (length bs), bs, w\<lparr>finbox := cs\<rparr>)),
     px_malloc = (\<lambda>n w. (Some (replicate n 0), w)),
     px_ioctl = (\<lambda>r buffer w. Inr (r, buffer, w))\<rparr>"

interpretation regular: outfile file_posix "\<lambda>w. True" "\<lambda>w. B" fdata "\<lambda>bs f. f @ bs" "\<lambda>f. f"
    fsent finbox
proof unfold_locales
  fix w :: file_world and off :: int and fd
  assume "off \<le> int (length (fdata w))"
  then show "\<exists>w1 bs w'. px_lseek file_posix fd off w = Inr w1 \<and>
      px_read file_posix fd 100 w1 = Inr (int (length bs), bs, w') \<and> True \<and>
      (fdata w', fsent w', finbox w', B) = (fdata w, fsent w, finbox w, B) \<and>
      bs = take (length bs) (drop (nat off) (fdata w)) \<and>
      (bs = [] \<longleftrightarrow> length (fdata w) \<le> nat off)"
    by (intro exI [of _ "w\<lparr>fposn := nat off\<rparr>"] exI [of _ "take 100 (drop (nat off) (fdata w))"]
        exI [of _ "w\<lparr>fposn := nat off + length (take 100 (drop (nat off) (fdata w)))\<rparr>"])
      (auto simp: file_posix_def Let_def min_def)
qed (auto simp: file_posix_def take_chunk_def)

section \<open>The character device\<close>

text \<open>
  The store as the character device of the driver's model. The process passes the bytes of a
  write at the address \<open>ibuf\<close> and reads 100 bytes at a time to \<open>obuf\<close>; a request of the seek
  command is put at \<open>rbuf\<close>.
\<close>

record dev_world =
  kst :: kstate
  dfile :: struct_file
  dsent :: "byte list"
  dinbox :: "byte list list"

text \<open>What the process finds at an address of its memory.\<close>

definition user_bytes :: "kstate \<Rightarrow> ptr \<Rightarrow> nat \<Rightarrow> byte list" where
  "user_bytes s p n = map (\<lambda>x. case x of None \<Rightarrow> 0 | Some c \<Rightarrow> c) (user_at (user s) p n)"

definition put_user :: "kstate \<Rightarrow> ptr \<Rightarrow> byte list \<Rightarrow> kstate" where
  "put_user s p bs = s\<lparr>user := user_write (user s) p bs\<rparr>"

text \<open>
  The server has its own copy of the header with the structure of a seek command and its number:
  the layout of the fields and the value of \<open>_IOWR\<close>, from its magic number, number and size.
\<close>

definition request_bytes :: "aesd_seekto \<Rightarrow> byte list" where
  "request_bytes r = le_bytes 4 (write_cmd r) @ le_bytes 4 (write_cmd_offset r) @
     le_bytes 8 (length_copied r) @ le_bytes 8 (special_buffer r)"

definition IOWR :: "nat \<Rightarrow> nat \<Rightarrow> nat \<Rightarrow> u32" where
  "IOWR magic nr bytes = push_bit 30 3 + push_bit 16 (of_nat bytes) + push_bit 8 (of_nat magic) + of_nat nr"

definition request_number :: u32 where
  "request_number = IOWR 22 1 (4 + 4 + 8 + 8)"

lemma request_agrees: "request_bytes = encode_seekto" "request_number = AESDCHAR_IOCSEEKTO"
  by (simp_all add: fun_eq_iff request_bytes_def encode_seekto_def request_number_def IOWR_def
      AESDCHAR_IOCSEEKTO_def)

definition device_posix :: "kernel \<Rightarrow> ptr \<Rightarrow> ptr \<Rightarrow> ptr \<Rightarrow> dev_world posix" where
  "device_posix K ibuf obuf rbuf = \<lparr>
     px_open = (\<lambda>mode w. Inr (3, w\<lparr>dfile := snd (aesd_open K (device_addr K + cdev_offset K)
       \<lparr>f_pos = 0, private_data = NULL\<rparr>)\<rparr>)),
     px_lseek = (\<lambda>fd off w. bindE (aesd_llseek K (kst w) (dfile w) (of_int off) 0) (\<lambda>(r, f).
       Inr (w\<lparr>dfile := f\<rparr>))),
     px_read = (\<lambda>fd n w. bindE (aesd_read K (kst w) (dfile w) obuf (of_nat n) (f_pos (dfile w)))
       (\<lambda>(r, pos, s). Inr (sint r, user_bytes s obuf (nat (sint r)),
         w\<lparr>kst := s, dfile := (dfile w)\<lparr>f_pos := pos\<rparr>\<rparr>))),
     px_write = (\<lambda>fd bs w. bindE (aesd_write K False (put_user (kst w) ibuf bs) (dfile w) ibuf
         (of_nat (length bs))) (\<lambda>(r, s). Inr (w\<lparr>kst := s\<rparr>))),
     px_close = (\<lambda>fd w. Inr w),
     px_send = (\<lambda>fd bs w. Inr (w\<lparr>dsent := dsent w @ bs\<rparr>)),
     px_recv = (\<lambda>fd n w. let (bs, cs) = take_chunk n (dinbox w)
       in Inr (int (length bs), bs, w\<lparr>dinbox := cs\<rparr>)),
     px_malloc = (\<lambda>n w. (Some (replicate n 0), w)),
     px_ioctl = (\<lambda>r buffer w.
       bindE (aesd_ioctl K False (put_user (put_user (kst w) (special_buffer r) buffer) rbuf (request_bytes r))
           \<lparr>f_pos = 0, private_data = device_addr K\<rparr> request_number rbuf) (\<lambda>(ret, s).
       Inr (decode_seekto (user_bytes s rbuf 24), user_bytes s (special_buffer r) (length buffer),
         w\<lparr>kst := s\<rparr>)))\<rparr>"

text \<open>The abstract value of a device, computed from its state.\<close>

definition dev_store :: "kstate \<Rightarrow> dev_spec" where
  "dev_store s =
     (let block = (\<lambda>p. case get_bytes (heap s) p of Inl f \<Rightarrow> [] | Inr bs \<Rightarrow> bs)
      in (case get_ring (heap s) (circ_buf (dev s)) of Inl f \<Rightarrow> []
            | Inr b \<Rightarrow> map (\<lambda>e. block (buffptr e)) (cb_list b),
          case get_entry (heap s) (read_buf (dev s)) of Inl f \<Rightarrow> [] | Inr e \<Rightarrow> block (buffptr e)))"

lemma dev_store_device:
  assumes "device s cmds pend"
  shows "dev_store s = (cmds, pend)"
proof -
  obtain b where b: "heap s (circ_buf (dev s)) = Some (RingObj b)" "ring_rep (heap s) b cmds"
    using assms by (rule deviceE)
  have "list_all2 (\<lambda>e c. (case get_bytes (heap s) (buffptr e) of Inl f \<Rightarrow> [] | Inr bs \<Rightarrow> bs) = c)
      (cb_list b) cmds"
    using b(2) unfolding ring_rep_def
    by (auto elim!: list.rel_mono_strong simp: holds_def get_bytes_def)
  then have "map (\<lambda>e. case get_bytes (heap s) (buffptr e) of Inl f \<Rightarrow> [] | Inr bs \<Rightarrow> bs) (cb_list b) = cmds"
    by (auto intro!: nth_equalityI simp: list_all2_conv_all_nth)
  with b(1) show ?thesis
    using assms
    by (auto simp: dev_store_def device_def idle_def collecting_def get_ring_def get_entry_def get_bytes_def Let_def)
qed

text \<open>
  A device that the server can use, in a kernel with room for \<open>N\<close> blocks: a write takes up to
  two of them, one of which stays allocated for ever.
\<close>

definition dev_inv :: "kernel \<Rightarrow> nat \<Rightarrow> ptr \<Rightarrow> dev_world \<Rightarrow> bool" where
  "dev_inv K N obuf w \<longleftrightarrow> kernel_ok K \<and> kernel_room K N \<and> private_data (dfile w) = device_addr K \<and>
     \<not> lock (dev (kst w)) \<and> user_mapped (user (kst w)) obuf 100 \<and>
     (case dev_store (kst w) of (cmds, pend) \<Rightarrow> device (kst w) cmds pend \<and>
        (\<forall>c \<in> set cmds. length c \<le> 2147483647))"

definition dev_budget :: "nat \<Rightarrow> dev_world \<Rightarrow> nat" where
  "dev_budget N w = min ((N - card (dom (heap (kst w)))) div 2)
     ((2147483647 - length (snd (dev_store (kst w)))) div 2000)"

lemma dev_invE:
  assumes "dev_inv K N obuf w"
  obtains cmds pend where "dev_store (kst w) = (cmds, pend)" "device (kst w) cmds pend"
    "\<forall>c \<in> set cmds. length c \<le> 2147483647" "length (concat cmds) < 2 ^ 40" "kernel_ok K" "kernel_room K N"
    "private_data (dfile w) = device_addr K" "\<not> lock (dev (kst w))"
    "user_mapped (user (kst w)) obuf 100"
proof -
  obtain cmds pend where s: "dev_store (kst w) = (cmds, pend)" by force
  with assms have d: "device (kst w) cmds pend" "\<forall>c \<in> set cmds. length c \<le> 2147483647"
    by (simp_all add: dev_inv_def)
  have "length (concat cmds) < 2 ^ 40" using d by (rule device_total)
  with s d assms show thesis by (intro that [of cmds pend]) (simp_all add: dev_inv_def)
qed

lemma device_put_user [simp]: "device (put_user s p bs) = device s"
  by (simp add: fun_eq_iff put_user_def device_def idle_def collecting_def)

lemma put_user_simps [simp]:
  "heap (put_user s p bs) = heap s" "dev (put_user s p bs) = dev s"
  "user (put_user s p bs) = user_write (user s) p bs"
  by (simp_all add: put_user_def)

lemma dev_store_cong: "heap s = heap t \<Longrightarrow> dev s = dev t \<Longrightarrow> dev_store s = dev_store t"
  by (simp add: dev_store_def)

lemma user_bytes_write:
  assumes "length bs < 2 ^ 64"
  shows "user_bytes (s\<lparr>user := user_write um p bs\<rparr>) p (length bs) = bs"
  using user_at_write [OF assms] by (simp add: user_bytes_def comp_def)

text \<open>A seek to an offset and a read of 100 bytes on the device.\<close>

lemma dev_read_at:
  assumes inv: "dev_inv K N obuf w" and off: "0 \<le> off" "nat off < 2 ^ 64"
    and bs: "bs = read_spec (fst (dev_store (kst w))) (nat off) 100"
  shows "\<exists>w1 w'. px_lseek (device_posix K ibuf obuf rbuf) fd off w = Inr w1 \<and>
    px_read (device_posix K ibuf obuf rbuf) fd 100 w1 = Inr (int (length bs), bs, w') \<and>
    dev_inv K N obuf w' \<and> dev_store (kst w') = dev_store (kst w) \<and> dsent w' = dsent w \<and>
    dinbox w' = dinbox w \<and> dev_budget N w' = dev_budget N w"
proof -
  obtain cmds pend where d: "dev_store (kst w) = (cmds, pend)" "device (kst w) cmds pend"
    "\<forall>c \<in> set cmds. length c \<le> 2147483647" "length (concat cmds) < 2 ^ 40" "kernel_ok K" "kernel_room K N"
    "private_data (dfile w) = device_addr K" "\<not> lock (dev (kst w))"
    "user_mapped (user (kst w)) obuf 100"
    using inv by (rule dev_invE)
  let ?f = "(dfile w)\<lparr>f_pos := of_int off\<rparr>"
  have uoff: "unat (of_int off :: loff_t) = nat off"
    using off unat_of_nat_small [of "nat off", where 'a = 64] by simp
  have bs: "bs = read_spec cmds (nat off) 100" using bs d(1) by simp
  have len: "length bs \<le> 100" unfolding bs by (rule length_read_spec)
  have seek: "aesd_llseek K (kst w) (dfile w) (of_int off) 0 = Inr (of_int off, ?f)"
    by (simp add: aesd_llseek_def)
  have "user_mapped (user (kst w)) obuf (length bs)"
    using d(9) len by (auto simp: user_mapped_def)
  then have rd: "aesd_read K (kst w) ?f obuf 100 (of_int off) =
    Inr (of_nat (length bs), of_int off + of_nat (length bs),
      (kst w)\<lparr>user := user_write (user (kst w)) obuf bs\<rparr>)"
    using aesd_read_ok [OF d(2,5), of ?f bs "of_int off" 100 obuf] d(4,7) uoff bs by simp
  have n: "sint (of_nat (length bs) :: size_t) = int (length bs)"
    using sint_diff [of "of_nat (length bs)" 0] len
    by (simp add: unat_of_nat_small [of "length bs", where 'a = 64])
  let ?s = "(kst w)\<lparr>user := user_write (user (kst w)) obuf bs\<rparr>"
  let ?w' = "w\<lparr>kst := ?s, dfile := ?f\<lparr>f_pos := of_int off + of_nat (length bs)\<rparr>\<rparr>"
  have "user_bytes ?s obuf (length bs) = bs"
    using len by (intro user_bytes_write) simp
  moreover have "dev_store ?s = dev_store (kst w)" by (rule dev_store_cong) simp_all
  moreover have "device ?s cmds pend" using d(2) by (simp add: device_def idle_def collecting_def)
  moreover have "user_mapped (user ?s) obuf 100" using d(9) by (simp add: user_mapped_write)
  ultimately have "px_lseek (device_posix K ibuf obuf rbuf) fd off w = Inr (w\<lparr>dfile := ?f\<rparr>) \<and>
    px_read (device_posix K ibuf obuf rbuf) fd 100 (w\<lparr>dfile := ?f\<rparr>) = Inr (int (length bs), bs, ?w') \<and>
    dev_inv K N obuf ?w' \<and> dev_store (kst ?w') = dev_store (kst w) \<and> dsent ?w' = dsent w \<and>
    dinbox ?w' = dinbox w \<and> dev_budget N ?w' = dev_budget N w"
    using d seek rd n by (simp add: device_posix_def dev_inv_def dev_budget_def)
  then show ?thesis by blast
qed

lemma dev_read_law:
  assumes inv: "dev_inv K N obuf w" and off: "0 \<le> off"
    "off \<le> int (length (concat (fst (dev_store (kst w)))))"
  shows "\<exists>w1 bs w'. px_lseek (device_posix K ibuf obuf rbuf) fd off w = Inr w1 \<and>
    px_read (device_posix K ibuf obuf rbuf) fd 100 w1 = Inr (int (length bs), bs, w') \<and>
    dev_inv K N obuf w' \<and> dev_store (kst w') = dev_store (kst w) \<and> dsent w' = dsent w \<and>
    dinbox w' = dinbox w \<and> dev_budget N w' = dev_budget N w \<and>
    bs = take (length bs) (drop (nat off) (concat (fst (dev_store (kst w))))) \<and>
    (bs = [] \<longleftrightarrow> length (concat (fst (dev_store (kst w)))) \<le> nat off)"
proof -
  let ?cmds = "fst (dev_store (kst w))"
  have "length (concat ?cmds) < 2 ^ 40" using inv by (auto elim: dev_invE)
  then have "nat off < 2 ^ 64" using off(2) by (simp add: nat_less_iff)
  moreover have "read_spec ?cmds (nat off) 100 = [] \<longleftrightarrow> length (concat ?cmds) \<le> nat off"
    by (simp add: read_spec_Nil_iff)
  ultimately show ?thesis
    using dev_read_at [OF inv off(1) _ refl] read_spec_prefix [of ?cmds "nat off" 100] by blast
qed

text \<open>A write to the device.\<close>

lemma dev_write_law:
  assumes inv: "dev_inv K N obuf w" and budget: "0 < dev_budget N w"
    and bs: "bs \<noteq> []" "length bs \<le> 2000"
  shows "\<exists>w'. px_write (device_posix K ibuf obuf rbuf) fd bs w = Inr w' \<and> dev_inv K N obuf w' \<and>
    dev_budget N w \<le> Suc (dev_budget N w') \<and> dev_store (kst w') = write_spec bs (dev_store (kst w)) \<and>
    dsent w' = dsent w \<and> dinbox w' = dinbox w"
proof -
  obtain cmds pend where d: "dev_store (kst w) = (cmds, pend)" "device (kst w) cmds pend"
    "\<forall>c \<in> set cmds. length c \<le> 2147483647" "length (concat cmds) < 2 ^ 40" "kernel_ok K" "kernel_room K N"
    "private_data (dfile w) = device_addr K" "\<not> lock (dev (kst w))"
    "user_mapped (user (kst w)) obuf 100"
    using inv by (rule dev_invE)
  let ?s = "put_user (kst w) ibuf bs" and ?n = "of_nat (length bs) :: size_t"
  have n: "unat ?n = length bs" using bs(2) by (intro unat_of_nat_small) simp
  have room: "card (dom (heap (kst w))) + 2 \<le> N" "length pend + 2000 \<le> 2147483647"
    using budget d(1) by (simp_all add: dev_budget_def) linarith+
  have "user_at (user ?s) ibuf (unat ?n) = map Some bs"
    using bs(2) by (simp add: n user_at_write)
  then have call: "write_call K ?s (dfile w) ibuf ?n bs"
    using d bs room(1) by (simp add: write_call_def kernel_room_mono)
  have small: "length pend + length bs \<le> 2147483647" using room(2) bs(2) by simp
  obtain t where t: "aesd_write K False ?s (dfile w) ibuf ?n = Inr (?n, t)"
    "device t (fst (write_spec bs (cmds, pend))) (snd (write_spec bs (cmds, pend)))"
    "\<not> lock (dev t)" "user t = user ?s" "card (dom (heap t)) \<le> card (dom (heap (kst w))) + 2"
    using aesd_write_ok [OF _ call small] d(2) by auto
  have st: "dev_store t = write_spec bs (cmds, pend)"
    using dev_store_device [OF t(2)] by simp
  have "\<forall>c \<in> set (fst (write_spec bs (cmds, pend))). length c \<le> 2147483647"
    using d(3) small set_lastn_subset [of 10 "cmds @ [pend @ bs]"] by auto
  then have "dev_inv K N obuf (w\<lparr>kst := t\<rparr>)"
    using d t st by (auto simp: dev_inv_def user_mapped_write split: prod.splits)
  moreover have "length (snd (write_spec bs (cmds, pend))) \<le> length pend + 2000"
    using bs(2) by simp
  then have "dev_budget N w \<le> Suc (dev_budget N (w\<lparr>kst := t\<rparr>))"
    using t(5) by (simp add: dev_budget_def d(1) st del: write_spec.simps) linarith
  ultimately show ?thesis
    using t(1) st d(1) by (simp add: device_posix_def)
qed

interpretation char_device: outfile "device_posix K ibuf obuf rbuf" "dev_inv K N obuf" "dev_budget N"
  "\<lambda>w. dev_store (kst w)" write_spec "\<lambda>s. concat (fst s)" dsent dinbox
proof unfold_locales
  fix w mode
  assume inv: "dev_inv K N obuf w"
  then show "\<exists>fd w'. px_open (device_posix K ibuf obuf rbuf) mode w = Inr (fd, w') \<and> 1 \<le> fd \<and>
      dev_inv K N obuf w' \<and> (dev_store (kst w'), dsent w', dinbox w', dev_budget N w') =
        (dev_store (kst w), dsent w, dinbox w, dev_budget N w)"
    by (simp add: device_posix_def dev_inv_def dev_budget_def aesd_open_def)
next
  fix w and bs :: "byte list" and fd
  assume "dev_inv K N obuf w" "0 < dev_budget N w" "bs \<noteq> []" "length bs \<le> 2000"
  then show "\<exists>w'. px_write (device_posix K ibuf obuf rbuf) fd bs w = Inr w' \<and> dev_inv K N obuf w' \<and>
      dev_budget N w \<le> Suc (dev_budget N w') \<and>
      (dev_store (kst w'), dsent w', dinbox w') = (write_spec bs (dev_store (kst w)), dsent w, dinbox w)"
    using dev_write_law by simp
next
  fix w off fd
  assume "dev_inv K N obuf w" "0 \<le> off" "off \<le> int (length (concat (fst (dev_store (kst w)))))"
  then show "\<exists>w1 bs w'. px_lseek (device_posix K ibuf obuf rbuf) fd off w = Inr w1 \<and>
      px_read (device_posix K ibuf obuf rbuf) fd 100 w1 = Inr (int (length bs), bs, w') \<and>
      dev_inv K N obuf w' \<and> (dev_store (kst w'), dsent w', dinbox w', dev_budget N w') =
        (dev_store (kst w), dsent w, dinbox w, dev_budget N w) \<and>
      bs = take (length bs) (drop (nat off) (concat (fst (dev_store (kst w))))) \<and>
      (bs = [] \<longleftrightarrow> length (concat (fst (dev_store (kst w)))) \<le> nat off)"
    using dev_read_law by simp
qed (auto simp: device_posix_def dev_inv_def dev_budget_def take_chunk_def)

section \<open>Properties\<close>

text \<open>
  When the file cannot be opened, the code releases the mutex and goes on: after the write
  and the close with the invalid descriptor it releases the mutex a second time, which it no
  longer holds. That is undefined for this kind of mutex.
\<close>

theorem open_failure_unlocks_twice:
  assumes "\<not> use_dev g" and "\<not> file_mutex g" and "px_open P AppendCreate w = Inr (fd, w1)" and "fd < 1"
    and "len \<le> int (length buffer)" and "px_write P fd (take (nat len) buffer) w1 = Inr w2"
    and "px_close P fd w2 = Inr w3"
  shows "dump_buffer_to_file P len buffer (g, w) = Inl BadUnlock"
  using assms by (simp add: dump_buffer_to_file_def lock_file_def unlock_file_def)

theorem open_failure_unlocks_twice_witness:
  "dump_buffer_to_file (file_posix\<lparr>px_open := (\<lambda>mode w. Inr (- 1, w))\<rparr>) 1 [newline]
    (\<lparr>use_dev = False, close_socket_when_receive_delim = False, should_quit = False,
       is_working = True, file_mutex = False, linked_list_mutex = False\<rparr>,
     \<lparr>fdata = [], fposn = 0, fsent = [], finbox = []\<rparr>) = Inl BadUnlock"
  by (rule open_failure_unlocks_twice [where fd = "- 1"]) (simp_all add: file_posix_def)

text \<open>
  The timer's handler appends one line, the prefix, the time and a newline, to the file when
  the mutex is free, and changes nothing else; when the mutex is held it waits, also when the
  thread that it interrupts is the one that holds it.
\<close>

theorem timestamp_line:
  assumes "0 \<notin> set time" and "length time < 70"
  shows "if file_mutex g then print_time_to_file file_posix time (g, w) = Inl Blocked
    else \<exists>w'. print_time_to_file file_posix time (g, w) = Inr (g, w') \<and>
      fdata w' = fdata w @ bytes_of ''timestamp:'' @ time @ [newline] \<and>
      fsent w' = fsent w \<and> finbox w' = finbox w"
proof (cases "file_mutex g")
  case True
  then show ?thesis by (simp add: print_time_to_file_def file_posix_def)
next
  case False
  then show ?thesis using regular.print_time_stores [of g 2 time w] assms by simp
qed

theorem timestamp_line_witness:
  "\<exists>w'. print_time_to_file file_posix [49, 50] (\<lparr>use_dev = False, close_socket_when_receive_delim = False,
      should_quit = False, is_working = True, file_mutex = False, linked_list_mutex = False\<rparr>,
      \<lparr>fdata = [97, newline], fposn = 0, fsent = [], finbox = []\<rparr>) = Inr (\<lparr>use_dev = False,
      close_socket_when_receive_delim = False, should_quit = False, is_working = True,
      file_mutex = False, linked_list_mutex = False\<rparr>, w') \<and>
    fdata w' = [97, newline] @ bytes_of ''timestamp:'' @ [49, 50, newline]"
  using timestamp_line [of "[49, 50]" "\<lparr>use_dev = False, close_socket_when_receive_delim = False,
      should_quit = False, is_working = True, file_mutex = False, linked_list_mutex = False\<rparr>"
      "\<lparr>fdata = [97, newline], fposn = 0, fsent = [], finbox = []\<rparr>"] by auto

text \<open>The memory of the process after a seek command: the reply is where the request asked for it.\<close>

lemma user_bytes_reply:
  fixes buffer out e :: "byte list" and r :: aesd_seekto and rbuf :: ptr
  defines "um' \<equiv> \<lambda>um. seek_reply r rbuf out (user_write (user_write um (special_buffer r) buffer) rbuf e)"
  assumes "length out \<le> length buffer" and "length buffer < 2 ^ 64" and "length e = 24"
    and apart: "\<forall>i < length buffer. 24 \<le> unat (special_buffer r + of_nat i - rbuf)"
  shows "map (\<lambda>x. case x of None \<Rightarrow> 0 | Some c \<Rightarrow> c) (user_at (um' um) (special_buffer r) (length buffer)) =
    out @ drop (length out) buffer"
proof (rule nth_equalityI)
  fix i assume "i < length (map (\<lambda>x. case x of None \<Rightarrow> 0 | Some c \<Rightarrow> c)
    (user_at (um' um) (special_buffer r) (length buffer)))"
  then have i: "i < length buffer" by (simp add: user_at_def)
  then have "unat (of_nat i :: size_t) = i"
    using assms(3) by (intro unat_of_nat_small) simp
  moreover have "\<not> unat (special_buffer r + of_nat i - rbuf) < 24" using apart i by (simp add: not_less)
  ultimately have "um' um (special_buffer r + of_nat i) = Some ((out @ drop (length out) buffer) ! i)"
    using i assms(2,4) by (simp add: um'_def seek_reply_def user_write_def nth_append)
  with i show "map (\<lambda>x. case x of None \<Rightarrow> 0 | Some c \<Rightarrow> c)
      (user_at (um' um) (special_buffer r) (length buffer)) ! i = (out @ drop (length out) buffer) ! i"
    by (simp add: user_at_def)
qed (use assms(2) in \<open>simp add: user_at_def\<close>)

text \<open>
  A seek command in the receive buffer: the driver is called with its two numbers, the answer
  comes to the start of the buffer, and the device stays as it is; an answer of more than 500
  bytes does not fit the driver's scratch buffer.
\<close>

lemma dev_seek_law:
  fixes bufp rbuf :: ptr
  assumes inv: "dev_inv K N obuf w" and room: "card (dom (heap (kst w))) + 1 \<le> N"
    and num: "list_all is_digit ks" "ks \<noteq> []" "length ks \<le> 3"
      "list_all is_digit ds" "ds \<noteq> []" "length ds \<le> 3" "\<not> is_digit x" "x \<noteq> newline"
    and store: "dev_store (kst w) = (cmds, pend)" "length (concat cmds) < 2 ^ 32"
    and pos: "decimal ks = int k" "k \<le> 10" "decimal ds = int off" "off < 2 ^ 32"
    and out: "out = seek_spec cmds (k mod 10) off"
    and buffer: "msg = seek_message ks ds x" "500 \<le> length (msg @ y # R)" "length (msg @ y # R) < 2 ^ 64"
    and apart: "\<forall>i < length (msg @ y # R). 24 \<le> unat (bufp + of_nat i - rbuf)"
  shows "if length out \<le> 500
    then \<exists>w'. handle_ioctl_commainds (px_ioctl (device_posix K ibuf obuf rbuf)) bufp (msg @ y # R)
        (int (length msg)) w = Inr (int (length out), out @ drop (length out) (msg @ 0 # R), w') \<and>
      dev_inv K N obuf w' \<and> (dev_store (kst w'), dsent w', dinbox w', dev_budget N w') =
        (dev_store (kst w), dsent w, dinbox w, dev_budget N w)
    else handle_ioctl_commainds (px_ioctl (device_posix K ibuf obuf rbuf)) bufp (msg @ y # R)
        (int (length msg)) w = Inl OutOfBounds"
proof -
  have d: "device (kst w) cmds pend" and K: "kernel_ok K" "kernel_room K N" and free: "\<not> lock (dev (kst w))"
    and mapped: "user_mapped (user (kst w)) obuf 100"
    using inv store(1) by (auto elim!: dev_invE)
  let ?buf = "msg @ 0 # R"
  define r where "r = \<lparr>write_cmd = of_int (decimal ks), write_cmd_offset = of_int (decimal ds),
    length_copied = 0, special_buffer = bufp\<rparr>"
  have num_r: "unat (write_cmd r) = k" "unat (write_cmd_offset r) = off"
    using unat_of_nat_small [of k, where 'a = 32] unat_of_nat_small [of off, where 'a = 32] pos(2,4)
    by (simp_all add: r_def pos(1,3))
  define um where "um = user_write (user_write (user (kst w)) bufp ?buf) rbuf (encode_seekto r)"
  let ?s = "put_user (put_user (kst w) bufp ?buf) rbuf (encode_seekto r)"
  have user: "user ?s = um" by (simp add: um_def)
  have "user_at um rbuf 24 = map Some (encode_seekto r)"
    using user_at_write [of "encode_seekto r"] by (simp add: um_def)
  then have call: "seek_call K ?s rbuf r"
    using K room by (simp add: seek_call_def um_def kernel_room_mono)
  have "user_at (user_write (user (kst w)) bufp ?buf) bufp (length ?buf) = map Some ?buf"
    using buffer(3) by (intro user_at_write) simp
  then have "user_mapped um bufp (length ?buf)"
    unfolding um_def by (intro user_mapped_write user_at_mapped)
  then have "length out \<le> 500 \<Longrightarrow> user_mapped um (special_buffer r) (length out)"
    using buffer(2) by (auto simp: user_mapped_def r_def)
  then have ioctl: "aesd_ioctl K False ?s \<lparr>f_pos = 0, private_data = device_addr K\<rparr> AESDCHAR_IOCSEEKTO rbuf =
      (if length out \<le> 500 then Inr (0, ?s\<lparr>user := seek_reply r rbuf out um\<rparr>) else Inl OutOfBounds)"
    using aesd_ioctl_eq [OF _ call, of cmds pend _ out] d free num_r store(2) pos(2) out
    by (simp add: um_def word_le_nat_alt)
  have call_eq: "handle_ioctl_commainds (px_ioctl (device_posix K ibuf obuf rbuf)) bufp (msg @ y # R)
      (int (length msg)) w = bindE (px_ioctl (device_posix K ibuf obuf rbuf) r ?buf w)
        (\<lambda>(test, buffer, w). Inr (sint (length_copied test), buffer, w))"
    using seek_parsed [OF num, of "px_ioctl (device_posix K ibuf obuf rbuf)" bufp y R w] by (simp add: r_def buffer(1))
  show ?thesis
  proof (cases "length out \<le> 500")
    case False
    then have "px_ioctl (device_posix K ibuf obuf rbuf) r ?buf w = Inl OutOfBounds"
      using ioctl by (simp add: device_posix_def request_agrees) (simp add: r_def)
    then show ?thesis using False call_eq by simp
  next
    case True
    have "user_bytes (?s\<lparr>user := seek_reply r rbuf out um\<rparr>) rbuf 24 =
        encode_seekto (r\<lparr>length_copied := of_nat (length out)\<rparr>)"
      by (simp add: user_bytes_def user_at_reply comp_def)
    moreover have "user_bytes (?s\<lparr>user := seek_reply r rbuf out um\<rparr>) bufp (length ?buf) =
        out @ drop (length out) ?buf"
      using user_bytes_reply [of out ?buf "encode_seekto r" r rbuf "user (kst w)"] buffer(2,3) True apart
      by (simp add: user_bytes_def um_def r_def)
    ultimately have px: "px_ioctl (device_posix K ibuf obuf rbuf) r ?buf w =
      Inr (r\<lparr>length_copied := of_nat (length out)\<rparr>, out @ drop (length out) ?buf,
        w\<lparr>kst := ?s\<lparr>user := seek_reply r rbuf out um\<rparr>\<rparr>)"
      using ioctl True
      by (simp add: device_posix_def request_agrees decode_encode_seekto) (simp add: r_def decode_encode_seekto)
    have n: "sint (of_nat (length out) :: size_t) = int (length out)"
      using sint_diff [of "of_nat (length out)" 0] True
      by (simp add: unat_of_nat_small [of "length out", where 'a = 64])
    let ?w = "w\<lparr>kst := ?s\<lparr>user := seek_reply r rbuf out um\<rparr>\<rparr>"
    have st: "dev_store (kst ?w) = (cmds, pend)"
      using store(1) by (subst dev_store_cong [of _ "kst w"]) simp_all
    have "user_mapped (seek_reply r rbuf out um) obuf 100"
      using mapped unfolding seek_reply_def um_def by (intro user_mapped_write)
    then have "dev_inv K N obuf ?w"
      using inv st store(1) d by (simp add: dev_inv_def device_def idle_def collecting_def)
    moreover have "dev_budget N ?w = dev_budget N w" using st store(1) by (simp add: dev_budget_def)
    ultimately show ?thesis using True call_eq px n st store(1) by auto
  qed
qed

text \<open>
  A seek command in the received text, for a position inside a command that the device
  holds, is answered with the bytes from there to the end of the log: they are at the start of
  the receive buffer, their number is returned, and the device is unchanged.
\<close>

theorem seek_command_answered:
  fixes bufp rbuf :: ptr
  assumes inv: "dev_inv K N obuf w" and room: "card (dom (heap (kst w))) + 1 \<le> N"
    and num: "list_all is_digit ks" "ks \<noteq> []" "length ks \<le> 3"
      "list_all is_digit ds" "ds \<noteq> []" "length ds \<le> 3" "\<not> is_digit x" "x \<noteq> newline"
    and store: "dev_store (kst w) = (cmds, pend)" "length (concat cmds) < 2 ^ 32"
    and pos: "decimal ks = int k" "k < length cmds" "decimal ds = int off" "off < length (cmds ! k)"
    and out: "out = drop off (concat (drop k cmds))" "length out \<le> 500"
    and buffer: "msg = seek_message ks ds x" "500 \<le> length (msg @ y # R)" "length (msg @ y # R) < 2 ^ 64"
    and apart: "\<forall>i < length (msg @ y # R). 24 \<le> unat (bufp + of_nat i - rbuf)"
  shows "\<exists>w'. handle_ioctl_commainds (px_ioctl (device_posix K ibuf obuf rbuf)) bufp (msg @ y # R)
      (int (length msg)) w = Inr (int (length out), out @ drop (length out) (msg @ 0 # R), w') \<and>
    dev_store (kst w') = (cmds, pend) \<and> \<not> lock (dev (kst w'))"
proof -
  have d: "device (kst w) cmds pend" using inv store(1) by (auto elim!: dev_invE)
  have k: "k < 10" using d pos(2) length_cmds cb_count_le by (fastforce elim!: deviceE simp: ring_rep_def)
  have "off < 2 ^ 32" using pos(2,4) store(2) length_in_concat [of "cmds ! k" cmds] by simp
  moreover have "out = seek_spec cmds (k mod 10) off" using out(1) k pos(2,4) by (simp add: seek_spec_in_range)
  ultimately obtain w' where "handle_ioctl_commainds (px_ioctl (device_posix K ibuf obuf rbuf)) bufp (msg @ y # R)
      (int (length msg)) w = Inr (int (length out), out @ drop (length out) (msg @ 0 # R), w')"
    "dev_inv K N obuf w'" "dev_store (kst w') = (cmds, pend)"
    using dev_seek_law [OF inv room num store pos(1) _ pos(3) _ _ buffer apart, of out ibuf] k out(2) store(1) by auto
  then show ?thesis by (auto simp: dev_inv_def)
qed

text \<open>A server world whose device holds the commands of \<open>s\<close>, with a buffer for reads at 1024.\<close>

definition world_of :: "kstate \<Rightarrow> byte list list \<Rightarrow> dev_world" where
  "world_of s cs = \<lparr>kst = s\<lparr>user := user_write (\<lambda>_. None) 1024 (replicate 100 0)\<rparr>,
     dfile = opened_file, dsent = [], dinbox = cs\<rparr>"

lemma world_of_inv:
  assumes "device s cmds pend" and "\<not> lock (dev s)" and "\<forall>c \<in> set cmds. length c \<le> 2147483647"
  shows "dev_inv first_fit_kernel 32 1024 (world_of s cs)" and "dev_store (kst (world_of s cs)) = (cmds, pend)"
proof -
  have d: "device (kst (world_of s cs)) cmds pend"
    using assms(1) by (simp add: world_of_def device_def idle_def collecting_def)
  then show st: "dev_store (kst (world_of s cs)) = (cmds, pend)" by (rule dev_store_device)
  have "user_at (user_write (\<lambda>_. None) 1024 (replicate 100 0)) 1024 100 = map Some (replicate 100 0)"
    using user_at_write [of "replicate 100 0"] by simp
  then have "user_mapped (user_write (\<lambda>_. None) 1024 (replicate 100 0)) 1024 100"
    by (rule user_at_mapped)
  then show "dev_inv first_fit_kernel 32 1024 (world_of s cs)"
    using d st assms(2,3) first_fit_kernel_ok first_fit_kernel_room [of 32]
    by (simp add: dev_inv_def world_of_def)
qed

theorem seek_command_answered_witness:
  "\<exists>w'. handle_ioctl_commainds (px_ioctl (device_posix first_fit_kernel 2048 1024 4096)) 16384
      (seek_message [48] [49] 0 @ 0 # replicate 500 0) 23 (world_of (hi_device (request 0 0)) []) =
    Inr (2, [105, newline] @ drop (length [105, newline]) (seek_message [48] [49] 0 @ 0 # replicate 500 0), w')"
proof -
  have num: "list_all is_digit [48]" "list_all is_digit [49]" "\<not> is_digit 0" "(0 :: byte) \<noteq> newline"
    "decimal [48] = int 0" "decimal [49] = int 1"
    by code_simp+
  have "24 \<le> unat (16384 + of_nat i - 4096 :: size_t)" if "i < 524" for i
  proof -
    have "unat (of_nat i :: size_t) = i" using that by (intro unat_of_nat_small) simp
    then have "unat (12288 + of_nat i :: size_t) = 12288 + i" using that by (subst unat_add_small) simp_all
    then show ?thesis by simp
  qed
  then have apart: "\<forall>i < length (seek_message [48] [49] 0 @ 0 # replicate 500 0).
      24 \<le> unat (16384 + of_nat i - 4096 :: size_t)"
    by (simp add: length_seek_message)
  have blocks: "card (dom (heap (kst (world_of (hi_device (request 0 0)) [])))) + 1 \<le> 32"
    by (simp add: world_of_def loaded_device_def)
  have inv: "dev_inv first_fit_kernel 32 1024 (world_of (hi_device (request 0 0)) [])"
    "dev_store (kst (world_of (hi_device (request 0 0)) [])) = ([[104, 105, newline]], [])"
    using world_of_inv [OF hi_device_rep, of "request 0 0" "[]"] by simp_all
  show ?thesis
    using seek_command_answered [OF inv(1) blocks num(1) _ _ num(2) _ _ num(3,4) inv(2) _ num(5) _ num(6)
        _ _ _ refl _ _ apart, of "[105, newline]" 2048]
    by (auto simp: length_seek_message)
qed

end
