(* ===== verification/Driver_Runs.thy ===== *)
theory Driver_Runs
  imports Server_Files
begin

text \<open>
  Whole runs of the character device: any sequence of system calls on any number of open files
  of \<open>aesd-char-driver/main.c\<close>, against an abstract log with one position per file.
\<close>

section \<open>System calls on the device\<close>

record driver_system =
  kern :: kstate
  files :: "nat \<Rightarrow> struct_file option"

datatype syscall =
    Open nat
  | Close nat
  | Write nat "byte list"
  | Read nat nat
  | Lseek nat loff_t c_int
  | Seekto nat u32 u32

record answer =
  ret :: c_long
  bytes :: "byte list"

text \<open>
  A call through the operations of the driver, as the process makes it: the bytes of a write are
  put at \<open>ibuf\<close>, a read and a seek command deliver to \<open>obuf\<close>, the request of a seek command is
  at \<open>rbuf\<close>. The answer is the value returned and the bytes delivered.
\<close>

fun exec :: "kernel \<Rightarrow> ptr \<Rightarrow> ptr \<Rightarrow> ptr \<Rightarrow> syscall \<Rightarrow> driver_system \<Rightarrow> (answer \<times> driver_system) res" where
  "exec K ibuf obuf rbuf (Open f) y =
     (let (r, filp) = aesd_open K (device_addr K + cdev_offset K) \<lparr>f_pos = 0, private_data = NULL\<rparr>
      in Inr (\<lparr>ret = scast r, bytes = []\<rparr>, y\<lparr>files := (files y)(f \<mapsto> filp)\<rparr>))"
| "exec K ibuf obuf rbuf (Close f) y =
     Inr (\<lparr>ret = scast aesd_release, bytes = []\<rparr>, y\<lparr>files := (files y)(f := None)\<rparr>)"
| "exec K ibuf obuf rbuf (Write f bs) y = (case files y f of None \<Rightarrow> Inl BadPointer
     | Some filp \<Rightarrow>
         bindE (aesd_write K False (put_user (kern y) ibuf bs) filp ibuf (of_nat (length bs))) (\<lambda>(r, s).
         Inr (\<lparr>ret = r, bytes = []\<rparr>, y\<lparr>kern := s\<rparr>)))"
| "exec K ibuf obuf rbuf (Read f n) y = (case files y f of None \<Rightarrow> Inl BadPointer
     | Some filp \<Rightarrow>
         bindE (aesd_read K (kern y) filp obuf (of_nat n) (f_pos filp)) (\<lambda>(r, pos, s).
         Inr (\<lparr>ret = r, bytes = user_bytes s obuf (unat r)\<rparr>,
              y\<lparr>kern := s, files := (files y)(f \<mapsto> filp\<lparr>f_pos := pos\<rparr>)\<rparr>)))"
| "exec K ibuf obuf rbuf (Lseek f off whence) y = (case files y f of None \<Rightarrow> Inl BadPointer
     | Some filp \<Rightarrow>
         bindE (aesd_llseek K (kern y) filp off whence) (\<lambda>(r, filp).
         Inr (\<lparr>ret = r, bytes = []\<rparr>, y\<lparr>files := (files y)(f \<mapsto> filp)\<rparr>)))"
| "exec K ibuf obuf rbuf (Seekto f cmd off) y = (case files y f of None \<Rightarrow> Inl BadPointer
     | Some filp \<Rightarrow>
         let r = \<lparr>write_cmd = cmd, write_cmd_offset = off, length_copied = 0, special_buffer = obuf\<rparr>
         in bindE (aesd_ioctl K False (put_user (kern y) rbuf (encode_seekto r)) filp AESDCHAR_IOCSEEKTO rbuf)
              (\<lambda>(v, s). Inr (\<lparr>ret = v, bytes = user_bytes s obuf
                  (unat (length_copied (decode_seekto (user_bytes s rbuf 24))))\<rparr>, y\<lparr>kern := s\<rparr>)))"

primrec exec_all ::
  "kernel \<Rightarrow> ptr \<Rightarrow> ptr \<Rightarrow> ptr \<Rightarrow> syscall list \<Rightarrow> driver_system \<Rightarrow> (answer list \<times> driver_system) res" where
  "exec_all K ibuf obuf rbuf [] y = Inr ([], y)"
| "exec_all K ibuf obuf rbuf (c # cs) y =
     bindE (exec K ibuf obuf rbuf c y) (\<lambda>(r, y).
     bindE (exec_all K ibuf obuf rbuf cs y) (\<lambda>(rs, y). Inr (r # rs, y)))"

section \<open>The abstract log\<close>

record log_system =
  held :: "byte list list"
  partial :: "byte list"
  positions :: "nat \<Rightarrow> loff_t option"

definition empty_log :: log_system where
  "empty_log = \<lparr>held = [], partial = [], positions = (\<lambda>f. None)\<rparr>"

definition position :: "log_system \<Rightarrow> nat \<Rightarrow> loff_t" where
  "position a f = (case positions a f of None \<Rightarrow> 0 | Some pos \<Rightarrow> pos)"

fun log_exec :: "syscall \<Rightarrow> log_system \<Rightarrow> answer \<times> log_system" where
  "log_exec (Open f) a = (\<lparr>ret = 0, bytes = []\<rparr>, a\<lparr>positions := (positions a)(f \<mapsto> 0)\<rparr>)"
| "log_exec (Close f) a = (\<lparr>ret = 0, bytes = []\<rparr>, a\<lparr>positions := (positions a)(f := None)\<rparr>)"
| "log_exec (Write f bs) a =
     (let (cmds, pend) = write_spec bs (held a, partial a)
      in (\<lparr>ret = of_nat (length bs), bytes = []\<rparr>, a\<lparr>held := cmds, partial := pend\<rparr>))"
| "log_exec (Read f n) a =
     (let pos = position a f; out = read_spec (held a) (unat pos) n
      in (\<lparr>ret = of_nat (length out), bytes = out\<rparr>,
          a\<lparr>positions := (positions a)(f \<mapsto> pos + of_nat (length out))\<rparr>))"
| "log_exec (Lseek f off whence) a =
     (let origin = (if whence = 0 then Some 0 else if whence = 1 then Some (position a f)
                    else if whence = 2 then Some (of_nat (length (concat (held a)))) else None)
      in case origin of None \<Rightarrow> (\<lparr>ret = - EINVAL, bytes = []\<rparr>, a)
         | Some n \<Rightarrow> (\<lparr>ret = n + off, bytes = []\<rparr>, a\<lparr>positions := (positions a)(f \<mapsto> n + off)\<rparr>))"
| "log_exec (Seekto f cmd off) a =
     (\<lparr>ret = 0, bytes = drop (unat off) (concat (drop (unat cmd) (held a)))\<rparr>, a)"

primrec log_exec_all :: "syscall list \<Rightarrow> log_system \<Rightarrow> answer list \<times> log_system" where
  "log_exec_all [] a = ([], a)"
| "log_exec_all (c # cs) a =
     (let (r, a) = log_exec c a; (rs, a) = log_exec_all cs a in (r # rs, a))"

text \<open>
  The calls for which the driver keeps the log: on an open file, with no empty write, with a
  command that an \<open>int\<close> can count, with reads that the process has room for, and with seek
  commands to a place in the log from which at most 500 bytes remain.
\<close>

fun allowed :: "syscall \<Rightarrow> log_system \<Rightarrow> bool" where
  "allowed (Open f) a = True"
| "allowed (Close f) a = True"
| "allowed (Write f bs) a \<longleftrightarrow> positions a f \<noteq> None \<and> bs \<noteq> [] \<and> length (partial a) + length bs \<le> 2147483647"
| "allowed (Read f n) a \<longleftrightarrow> positions a f \<noteq> None \<and> n \<le> 500"
| "allowed (Lseek f off whence) a \<longleftrightarrow> positions a f \<noteq> None"
| "allowed (Seekto f cmd off) a \<longleftrightarrow> positions a f \<noteq> None \<and> unat cmd < length (held a) \<and>
     unat off < length (held a ! unat cmd) \<and> length (concat (held a)) < 2 ^ 32 \<and>
     length (drop (unat off) (concat (drop (unat cmd) (held a)))) \<le> 500"

primrec allowed_all :: "syscall list \<Rightarrow> log_system \<Rightarrow> bool" where
  "allowed_all [] a = True"
| "allowed_all (c # cs) a \<longleftrightarrow> allowed c a \<and> allowed_all cs (snd (log_exec c a))"

section \<open>Simulation\<close>

definition shows_log :: "kernel \<Rightarrow> ptr \<Rightarrow> driver_system \<Rightarrow> log_system \<Rightarrow> bool" where
  "shows_log K obuf y a \<longleftrightarrow> device (kern y) (held a) (partial a) \<and> \<not> lock (dev (kern y)) \<and>
     user_mapped (user (kern y)) obuf 500 \<and> (\<forall>c \<in> set (held a). length c \<le> 2147483647) \<and>
     positions a = (\<lambda>f. map_option f_pos (files y f)) \<and>
     (\<forall>filp \<in> ran (files y). private_data filp = device_addr K)"

lemma shows_log_file:
  assumes "shows_log K obuf y a" and "positions a f \<noteq> None"
  obtains filp where "files y f = Some filp" "private_data filp = device_addr K" "position a f = f_pos filp"
proof -
  obtain filp where filp: "files y f = Some filp" using assms by (auto simp: shows_log_def)
  then have "filp \<in> ran (files y)" by (rule ranI)
  with assms(1) filp show ?thesis
    by (intro that [of filp]) (simp_all add: shows_log_def position_def)
qed

lemma shows_log_total: "shows_log K obuf y a \<Longrightarrow> length (concat (held a)) < 2 ^ 40"
  unfolding shows_log_def using device_total by blast

text \<open>What the process finds at its buffer after a seek command, the request being elsewhere.\<close>

lemma user_bytes_seek_reply:
  assumes "length out \<le> 500" and apart: "\<forall>i < 500. 24 \<le> unat (special_buffer r + of_nat i - rbuf)"
    and u: "user s = seek_reply r rbuf out um"
  shows "user_bytes s (special_buffer r) (length out) = out"
proof (rule nth_equalityI)
  fix i assume "i < length (user_bytes s (special_buffer r) (length out))"
  then have i: "i < length out" by (simp add: user_bytes_def user_at_def)
  then have "unat (of_nat i :: size_t) = i" using assms(1) by (intro unat_of_nat_small) simp
  moreover have "\<not> unat (special_buffer r + of_nat i - rbuf) < 24"
    using i assms(1) apart by (simp add: not_less)
  ultimately have "user s (special_buffer r + of_nat i) = Some (out ! i)"
    using i by (simp add: u seek_reply_def user_write_def)
  with i show "user_bytes s (special_buffer r) (length out) ! i = out ! i"
    by (simp add: user_bytes_def user_at_def)
qed (simp add: user_bytes_def user_at_def)

lemma shows_log_kern:
  assumes "shows_log K obuf y a" and "device s cmds pend" and "\<not> lock (dev s)"
    and "user_mapped (user s) obuf 500" and "\<forall>c \<in> set cmds. length c \<le> 2147483647"
  shows "shows_log K obuf (y\<lparr>kern := s\<rparr>) (a\<lparr>held := cmds, partial := pend\<rparr>)"
  using assms by (simp add: shows_log_def)

lemma shows_log_move:
  assumes "shows_log K obuf y a" and "files y f = Some filp"
  shows "shows_log K obuf (y\<lparr>files := (files y)(f \<mapsto> filp\<lparr>f_pos := pos\<rparr>)\<rparr>)
    (a\<lparr>positions := (positions a)(f \<mapsto> pos)\<rparr>)"
proof -
  have "filp \<in> ran (files y)" using assms(2) by (rule ranI)
  then have "private_data filp = device_addr K" using assms(1) by (simp add: shows_log_def)
  then have "private_data g = device_addr K" if "g \<in> ran ((files y)(f \<mapsto> filp\<lparr>f_pos := pos\<rparr>))" for g
    using that assms(1) by (auto simp: shows_log_def ran_def split: if_splits)
  moreover have "(\<lambda>g. map_option f_pos (((files y)(f \<mapsto> filp\<lparr>f_pos := pos\<rparr>)) g)) = (positions a)(f \<mapsto> pos)"
    using assms(1) by (auto simp: shows_log_def)
  ultimately show ?thesis using assms(1) by (simp add: shows_log_def)
qed

lemma exec_write:
  assumes y: "shows_log K obuf y a" and K: "kernel_ok K" "kernel_room K N"
    and room: "card (dom (heap (kern y))) + 2 \<le> N" and al: "allowed (Write f bs) a"
  shows "\<exists>y'. exec K ibuf obuf rbuf (Write f bs) y = Inr (fst (log_exec (Write f bs) a), y') \<and>
    shows_log K obuf y' (snd (log_exec (Write f bs) a)) \<and>
    card (dom (heap (kern y'))) \<le> card (dom (heap (kern y))) + 2"
proof -
  obtain filp where filp: "files y f = Some filp" "private_data filp = device_addr K"
    using shows_log_file [OF y, of f] al by auto
  let ?s = "put_user (kern y) ibuf bs" and ?n = "of_nat (length bs) :: size_t"
  have d: "device (kern y) (held a) (partial a)" "\<not> lock (dev (kern y))"
    "user_mapped (user (kern y)) obuf 500" "\<forall>c \<in> set (held a). length c \<le> 2147483647"
    using y by (simp_all add: shows_log_def)
  have small: "length bs < 2 ^ 64" using al by simp
  then have n: "unat ?n = length bs" by (intro unat_of_nat_small) simp
  have "user_at (user ?s) ibuf (unat ?n) = map Some bs"
    using small by (simp add: n user_at_write)
  then have "write_call K ?s filp ibuf ?n bs"
    using d(2) filp(2) al K room kernel_room_mono by (simp add: write_call_def)
  then obtain t where t: "aesd_write K False ?s filp ibuf ?n = Inr (?n, t)"
    "device t (fst (write_spec bs (held a, partial a))) (snd (write_spec bs (held a, partial a)))"
    "\<not> lock (dev t)" "user t = user ?s" "card (dom (heap t)) \<le> card (dom (heap ?s)) + 2"
    using aesd_write_ok [of ?s "held a" "partial a" K filp ibuf ?n bs] d(1) al by auto
  have "\<forall>c \<in> set (fst (write_spec bs (held a, partial a))). length c \<le> 2147483647"
    using d(4) al set_lastn_subset [of 10 "held a @ [partial a @ bs]"] by auto
  then have "shows_log K obuf (y\<lparr>kern := t\<rparr>)
      (a\<lparr>held := fst (write_spec bs (held a, partial a)), partial := snd (write_spec bs (held a, partial a))\<rparr>)"
    using t(2-4) d(3) by (intro shows_log_kern [OF y]) (simp_all add: user_mapped_write)
  then show ?thesis
    using t(1,5) filp(1) by (simp add: Let_def split_beta del: write_spec.simps)
qed

lemma exec_read:
  assumes y: "shows_log K obuf y a" and K: "kernel_ok K" and al: "allowed (Read f n) a"
  shows "\<exists>y'. exec K ibuf obuf rbuf (Read f n) y = Inr (fst (log_exec (Read f n) a), y') \<and>
    shows_log K obuf y' (snd (log_exec (Read f n) a)) \<and> heap (kern y') = heap (kern y)"
proof -
  obtain filp where filp: "files y f = Some filp" "private_data filp = device_addr K" "position a f = f_pos filp"
    using shows_log_file [OF y, of f] al by auto
  have d: "device (kern y) (held a) (partial a)" "\<not> lock (dev (kern y))"
    "user_mapped (user (kern y)) obuf 500" "\<forall>c \<in> set (held a). length c \<le> 2147483647"
    using y by (simp_all add: shows_log_def)
  define out where "out = read_spec (held a) (unat (f_pos filp)) n"
  define s where "s = (kern y)\<lparr>user := user_write (user (kern y)) obuf out\<rparr>"
  have n: "unat (of_nat n :: size_t) = n" using al by (intro unat_of_nat_small) simp
  have len: "length out \<le> 500" using le_trans [OF length_read_spec] al by (simp add: out_def)
  then have unat_len: "unat (of_nat (length out) :: size_t) = length out" by (intro unat_of_nat_small) simp
  have "user_mapped (user (kern y)) obuf (length out)" using d(3) len by (auto simp: user_mapped_def)
  then have rd: "aesd_read K (kern y) filp obuf (of_nat n) (f_pos filp) =
      Inr (of_nat (length out), f_pos filp + of_nat (length out), s)"
    using aesd_read_ok [OF d(1) K filp(2), of out "f_pos filp" "of_nat n" obuf] shows_log_total [OF y]
    by (simp add: n out_def s_def)
  have "user_bytes s obuf (length out) = out" using len unfolding s_def by (intro user_bytes_write) simp
  moreover have "shows_log K obuf (y\<lparr>kern := s\<rparr>) a"
    using shows_log_kern [OF y, of s "held a" "partial a"] d by (simp add: s_def user_mapped_write)
  ultimately show ?thesis
    using rd filp unat_len shows_log_move [of K obuf "y\<lparr>kern := s\<rparr>" a f filp]
    by (simp add: Let_def out_def [symmetric] s_def)
qed

lemma exec_seek:
  assumes y: "shows_log K obuf y a" and al: "allowed (Lseek f off whence) a"
  shows "\<exists>y'. exec K ibuf obuf rbuf (Lseek f off whence) y = Inr (fst (log_exec (Lseek f off whence) a), y') \<and>
    shows_log K obuf y' (snd (log_exec (Lseek f off whence) a)) \<and> heap (kern y') = heap (kern y)"
proof -
  obtain filp where filp: "files y f = Some filp" "private_data filp = device_addr K" "position a f = f_pos filp"
    using shows_log_file [OF y, of f] al by auto
  have d: "device (kern y) (held a) (partial a)" using y by (simp add: shows_log_def)
  obtain b where b: "heap (kern y) (circ_buf (dev (kern y))) = Some (RingObj b)" "ring_rep (heap (kern y)) b (held a)"
    using d by (rule deviceE)
  have "ring_of K filp (kern y) = Inr b"
    using b(1) filp(2) by (simp add: ring_of_def dev_of_def get_ring_def)
  moreover have "get_length_of_all_entries_in_buffer b = Inr (of_nat (length (concat (held a))))"
    using shows_log_total [OF y] by (intro ring_lookup(1) [OF b(2)]) simp
  moreover have "(files y)(f \<mapsto> filp) = files y" using filp(1) by (simp add: fun_upd_idem)
  ultimately show ?thesis
    using y filp shows_log_move [OF y filp(1)]
    by (cases "whence = 0"; cases "whence = 1"; cases "whence = 2") (simp_all add: aesd_llseek_def)
qed

lemma exec_seekto:
  assumes y: "shows_log K obuf y a" and K: "kernel_ok K" "kernel_room K N"
    and room: "card (dom (heap (kern y))) + 1 \<le> N" and al: "allowed (Seekto f cmd off) a"
    and apart: "\<forall>i < 500. 24 \<le> unat (obuf + of_nat i - rbuf)"
  shows "\<exists>y'. exec K ibuf obuf rbuf (Seekto f cmd off) y = Inr (fst (log_exec (Seekto f cmd off) a), y') \<and>
    shows_log K obuf y' (snd (log_exec (Seekto f cmd off) a)) \<and> heap (kern y') = heap (kern y)"
proof -
  obtain filp where filp: "files y f = Some filp" "private_data filp = device_addr K"
    using shows_log_file [OF y, of f] al by auto
  have d: "device (kern y) (held a) (partial a)" "\<not> lock (dev (kern y))"
    "user_mapped (user (kern y)) obuf 500" "\<forall>c \<in> set (held a). length c \<le> 2147483647"
    using y by (simp_all add: shows_log_def)
  define r where "r = \<lparr>write_cmd = cmd, write_cmd_offset = off, length_copied = 0, special_buffer = obuf\<rparr>"
  define out where "out = drop (unat off) (concat (drop (unat cmd) (held a)))"
  have len: "length out \<le> 500" using al by (simp add: out_def)
  let ?s = "put_user (kern y) rbuf (encode_seekto r)"
  define t where "t = ?s\<lparr>user := seek_reply r rbuf out (user ?s)\<rparr>"
  have "unat cmd < 10"
    using al d(1) length_cmds cb_count_le by (fastforce elim!: deviceE simp: ring_rep_def)
  moreover have "user_at (user ?s) rbuf 24 = map Some (encode_seekto r)"
    using user_at_write [of "encode_seekto r"] by simp
  then have "seek_call K ?s rbuf r"
    using K room by (simp add: seek_call_def kernel_room_mono)
  moreover have "user_mapped (user ?s) (special_buffer r) (length out)"
    using user_mapped_write [OF d(3)] len by (auto simp: r_def user_mapped_def)
  ultimately have io: "aesd_ioctl K False ?s filp AESDCHAR_IOCSEEKTO rbuf = Inr (0, t)"
    using aesd_ioctl_eq [of ?s "held a" "partial a" K rbuf r filp out] d(1,2) filp(2) al len
    by (simp add: r_def out_def t_def seek_spec_in_range word_le_nat_alt)
  have "user_bytes t rbuf 24 = encode_seekto (r\<lparr>length_copied := of_nat (length out)\<rparr>)"
    by (simp add: t_def user_bytes_def user_at_reply comp_def)
  moreover have "unat (of_nat (length out) :: size_t) = length out"
    using len by (intro unat_of_nat_small) simp
  moreover have "user_bytes t obuf (length out) = out"
    using user_bytes_seek_reply [OF len, of r rbuf t] apart by (simp add: t_def r_def)
  moreover have "shows_log K obuf (y\<lparr>kern := t\<rparr>) a"
    using shows_log_kern [OF y, of t "held a" "partial a"] d
    by (simp add: t_def seek_reply_def user_mapped_write)
  ultimately show ?thesis
    using io filp(1) by (simp add: r_def [symmetric] out_def [symmetric] decode_encode_seekto Let_def) (simp add: t_def)
qed

lemma exec_open:
  assumes "shows_log K obuf y a"
  shows "\<exists>y'. exec K ibuf obuf rbuf (Open f) y = Inr (fst (log_exec (Open f) a), y') \<and>
    shows_log K obuf y' (snd (log_exec (Open f) a)) \<and> heap (kern y') = heap (kern y)"
proof -
  have "g = \<lparr>f_pos = 0, private_data = device_addr K\<rparr> \<or> g \<in> ran (files y)"
    if "g \<in> ran ((files y)(f \<mapsto> \<lparr>f_pos = 0, private_data = device_addr K\<rparr>))" for g
    using that by (auto simp: ran_def split: if_splits)
  then show ?thesis using assms by (fastforce simp: shows_log_def aesd_open_def fun_eq_iff)
qed

lemma exec_close:
  assumes "shows_log K obuf y a"
  shows "\<exists>y'. exec K ibuf obuf rbuf (Close f) y = Inr (fst (log_exec (Close f) a), y') \<and>
    shows_log K obuf y' (snd (log_exec (Close f) a)) \<and> heap (kern y') = heap (kern y)"
proof -
  have "ran ((files y)(f := None)) \<subseteq> ran (files y)" by (auto simp: ran_def)
  then show ?thesis using assms by (auto simp: shows_log_def aesd_release_def fun_eq_iff)
qed

lemma exec_step:
  assumes "shows_log K obuf y a" and "kernel_ok K" "kernel_room K N"
    and "card (dom (heap (kern y))) + 2 \<le> N" and "allowed c a"
    and "\<forall>i < 500. 24 \<le> unat (obuf + of_nat i - rbuf)"
  shows "\<exists>y'. exec K ibuf obuf rbuf c y = Inr (fst (log_exec c a), y') \<and>
    shows_log K obuf y' (snd (log_exec c a)) \<and>
    card (dom (heap (kern y'))) \<le> card (dom (heap (kern y))) + 2"
proof (cases c)
  case (Open f)
  then show ?thesis using exec_open [OF assms(1), of ibuf rbuf f] by (metis le_add1)
next
  case (Close f)
  then show ?thesis using exec_close [OF assms(1), of ibuf rbuf f] by (metis le_add1)
next
  case (Write f bs)
  then show ?thesis using exec_write [OF assms(1-4)] assms(5) by simp
next
  case (Read f n)
  then show ?thesis using exec_read [OF assms(1,2), of f n ibuf rbuf] assms(5) by (metis le_add1)
next
  case (Lseek f off whence)
  then show ?thesis using exec_seek [OF assms(1), of f off whence ibuf rbuf] assms(5) by (metis le_add1)
next
  case (Seekto f cmd off)
  have "card (dom (heap (kern y))) + 1 \<le> N" using assms(4) by simp
  then show ?thesis
    using exec_seekto [OF assms(1-3) _ _ assms(6), of f cmd off ibuf] assms(5) Seekto by (metis le_add1)
qed

lemma exec_all_log:
  assumes "kernel_ok K" and "kernel_room K N" and apart: "\<forall>i < 500. 24 \<le> unat (obuf + of_nat i - rbuf)"
    and "shows_log K obuf y a" and "allowed_all cs a" and "card (dom (heap (kern y))) + 2 * length cs \<le> N"
  shows "\<exists>y'. exec_all K ibuf obuf rbuf cs y = Inr (fst (log_exec_all cs a), y') \<and>
    shows_log K obuf y' (snd (log_exec_all cs a))"
  using assms(4-)
proof (induction cs arbitrary: y a)
  case (Cons c cs)
  have "card (dom (heap (kern y))) + 2 \<le> N" "allowed c a" using Cons.prems(2,3) by simp_all
  then obtain y1 where y1: "exec K ibuf obuf rbuf c y = Inr (fst (log_exec c a), y1)"
    "shows_log K obuf y1 (snd (log_exec c a))"
    "card (dom (heap (kern y1))) \<le> card (dom (heap (kern y))) + 2"
    using exec_step [OF Cons.prems(1) assms(1,2) _ _ apart] by blast
  obtain y2 where "exec_all K ibuf obuf rbuf cs y1 = Inr (fst (log_exec_all cs (snd (log_exec c a))), y2)"
    "shows_log K obuf y2 (snd (log_exec_all cs (snd (log_exec c a))))"
    using Cons.IH [OF y1(2)] Cons.prems(2,3) y1(3) by auto
  then show ?case using y1(1) by (auto simp: split_beta Let_def)
qed simp

section \<open>Properties\<close>

text \<open>
  C3: After a module start, every sequence of opens, closes, writes, reads, seeks and seek
  commands that stays within the limits of \<open>allowed\<close> answers, call for call, what the abstract
  log answers: the last ten commands, the command being collected and one position for each
  open file. At the end the driver holds that log, with its mutex free.
\<close>

theorem driver_run_refines_log:
  assumes "kernel_ok K" and "kernel_room K N" and "heap s NULL = None" and "0 \<le>s result"
    and "user_mapped (user s) obuf 500" and "\<forall>i < 500. 24 \<le> unat (obuf + of_nat i - rbuf)"
    and "allowed_all calls empty_log" and "card (dom (heap s)) + 2 + 2 * length calls \<le> N"
  shows "\<exists>t y. aesd_init_module K result devno 0 s = Inr (0, t) \<and>
    exec_all K ibuf obuf rbuf calls \<lparr>kern = t, files = (\<lambda>f. None)\<rparr> =
      Inr (fst (log_exec_all calls empty_log), y) \<and>
    device (kern y) (held (snd (log_exec_all calls empty_log))) (partial (snd (log_exec_all calls empty_log))) \<and>
    \<not> lock (dev (kern y))"
proof -
  have "kernel_room K (card (dom (heap s)) + 2)" using assms(2,8) by (simp add: kernel_room_mono)
  then obtain t where t: "aesd_init_module K result devno 0 s = Inr (0, t)" "device t [] []"
    "\<not> lock (dev t)" "user t = user s" "card (dom (heap t)) \<le> card (dom (heap s)) + 2"
    using aesd_init_module_ok [OF assms(1) _ assms(3,4)] by blast
  have "shows_log K obuf \<lparr>kern = t, files = (\<lambda>f. None)\<rparr> empty_log"
    using t assms(5) by (simp add: shows_log_def empty_log_def)
  moreover have "card (dom (heap t)) + 2 * length calls \<le> N" using t(5) assms(8) by linarith
  ultimately show ?thesis
    using exec_all_log [OF assms(1,2,6) _ assms(7), of "\<lparr>kern = t, files = (\<lambda>f. None)\<rparr>" ibuf] t(1)
    by (auto simp: shows_log_def)
qed

text \<open>
  Two files: the first writes a command in two parts, the second reads it, seeks to the end less
  two bytes and reads again, and asks for the command from its second byte.
\<close>

definition two_files :: "syscall list" where
  "two_files = [Open 1, Open 2, Write 1 [104], Read 2 100, Write 1 [105, newline], Read 2 100,
     Lseek 2 (- 2) 2, Read 2 100, Seekto 1 0 1]"

lemma two_files_log:
  "allowed_all two_files empty_log"
  "map bytes (fst (log_exec_all two_files empty_log)) =
    [[], [], [], [], [], [104, 105, newline], [], [105, newline], [105, newline]]"
  by (simp_all add: two_files_def empty_log_def position_def read_spec_def newline_def Let_def)

theorem driver_run_refines_log_witness:
  "\<exists>t y rs. aesd_init_module first_fit_kernel 0 251658240 0
      (bare_machine\<lparr>user := user_write (\<lambda>_. None) 1024 (replicate 500 0)\<rparr>) = Inr (0, t) \<and>
    exec_all first_fit_kernel 2048 1024 512 two_files \<lparr>kern = t, files = (\<lambda>f. None)\<rparr> = Inr (rs, y) \<and>
    map bytes rs = [[], [], [], [], [], [104, 105, newline], [], [105, newline], [105, newline]]"
proof -
  let ?s = "bare_machine\<lparr>user := user_write (\<lambda>_. None) 1024 (replicate 500 0)\<rparr>"
  have "24 \<le> unat (1024 + of_nat i - 512 :: size_t)" if "i < 500" for i
  proof -
    have "unat (of_nat i :: size_t) = i" using that by (intro unat_of_nat_small) simp
    then have "unat (512 + of_nat i :: size_t) = 512 + i" using that by (subst unat_add_small) simp_all
    then show ?thesis by simp
  qed
  then have apart: "\<forall>i < 500. 24 \<le> unat (1024 + of_nat i - 512 :: size_t)" by blast
  have "user_at (user ?s) 1024 500 = map Some (replicate 500 0)"
    using user_at_write [of "replicate 500 0"] by simp
  then have mapped: "user_mapped (user ?s) 1024 500" by (rule user_at_mapped)
  have heap: "heap ?s NULL = None" "card (dom (heap ?s)) + 2 + 2 * length two_files \<le> 32"
    by (simp_all add: bare_machine_def two_files_def)
  show ?thesis
    using driver_run_refines_log [OF first_fit_kernel_ok first_fit_kernel_room [of 32] heap(1) _ mapped apart
        two_files_log(1) heap(2), of 0 251658240 2048] two_files_log(2)
    by auto
qed

end
