(* ===== verification/Driver_Races.thy ===== *)
theory Driver_Races
  imports Driver_Properties
begin

text \<open>
  A reader against a writer of the device of \<open>aesd-char-driver/main.c\<close>: \<open>aesd_read\<close> takes no
  lock, so it can meet the ring between two stores of \<open>aesd_circular_buffer_add_entry\<close>, and a
  command can be dropped between its look-up and its copy.
\<close>

text \<open>The look-up of a position in the oldest command.\<close>

lemma read_locate_oldest:
  assumes b: "heap s (circ_buf (dev s)) = Some (RingObj b)" "ring_rep (heap s) b cmds"
    and filp: "private_data filp = device_addr K" and small: "length (concat cmds) < 2 ^ 64"
    and pos: "cmds \<noteq> []" "unat pos < length (hd cmds)" and count: "count \<noteq> 0"
  shows "\<exists>n. n \<noteq> 0 \<and>
    read_locate K s filp count pos = Inr (Some (buffptr (hd (cb_list b)), unat pos, n))"
proof -
  obtain c cs where cmds: "cmds = c # cs" using pos(1) by (cases cmds) auto
  have loc: "locate (map length cmds) (unat pos) = Some (0, unat pos)"
    using pos(2) cmds by simp
  define out where "out = read_spec cmds (unat pos) (unat count)"
  have "unat count \<noteq> 0" using count by (simp add: unat_eq_zero)
  then have out: "out \<noteq> []" using pos(2) cmds by (simp add: out_def read_spec_Nil_iff)
  have "length out < 2 ^ 64" using small length_read_spec_total le_less_trans unfolding out_def by blast
  then have "unat (of_nat (length out) :: size_t) \<noteq> 0"
    using out unat_of_nat_small [of "length out", where 'a = 64] by simp
  then have "(of_nat (length out) :: size_t) \<noteq> 0" by (metis unat_0)
  moreover have "cb_list b ! 0 = hd (cb_list b)"
    using length_cmds [OF b(2)] cmds by (intro hd_conv_nth [symmetric]) (auto simp flip: length_0_conv)
  ultimately show ?thesis
    using read_locate_ok [OF b filp small out_def] loc out by auto
qed

lemma replicate_ten: "replicate 10 x = [x, x, x, x, x, x, x, x, x, x]"
  by (simp add: numeral_eq_Suc)

text \<open>
  A read between two stores of an addition: the ring has its value of that moment. With the new
  pointer but still the old size in the oldest entry, the read goes beyond the new block; with
  the cursor after the array, beyond the array.
\<close>

definition while_adding :: "kstate \<Rightarrow> aesd_circular_buffer \<Rightarrow> kstate" where
  "while_adding s b = s\<lparr>heap := (heap s)(circ_buf (dev s) \<mapsto> RingObj b)\<rparr>"

lemma ring_while_adding [simp]:
  "private_data filp = device_addr K \<Longrightarrow> ring_of K filp (while_adding s b) = Inr b"
  by (simp add: ring_of_def dev_of_def while_adding_def get_ring_def)

lemma find_torn:
  assumes "length (entry b) = 10" "unat (out_offs b) < 10" and "pos < esize ent"
  shows "aesd_circular_buffer_find_entry_offset_for_fpos (b\<lparr>entry := (entry b)[unat (out_offs b) := ent]\<rparr>) pos =
    Inr (Some (ucast (out_offs b), pos))"
  using assms unfolding aesd_circular_buffer_find_entry_offset_for_fpos_def
  by (subst find_loop.simps) (simp add: entry_at_def returned_def)

lemma find_outside:
  assumes "length (entry b) = 10" and "out_offs b = 10"
  shows "aesd_circular_buffer_find_entry_offset_for_fpos b pos = Inl OutOfBounds"
  using assms unfolding aesd_circular_buffer_find_entry_offset_for_fpos_def
  by (subst find_loop.simps) (simp add: entry_at_def returned_def)

lemma read_torn:
  assumes b: "heap s (circ_buf (dev s)) = Some (RingObj b)" "ring_rep (heap s) b cmds"
    and small: "length (concat cmds) < 2 ^ 64" and filp: "private_data filp = device_addr K"
    and cmds: "cmds \<noteq> []" "length blk \<le> unat pos" "unat pos < length (hd cmds)"
    and new: "heap s (buffptr e) = Some (Bytes blk)"
  shows "aesd_read K (while_adding s (b\<lparr>entry := (entry b)[unat (out_offs b) :=
    (hd (cb_list b))\<lparr>buffptr := buffptr e\<rparr>]\<rparr>)) filp buf 1 pos = Inl OutOfBounds"
    (is "aesd_read K (while_adding s ?b) filp buf 1 pos = _")
proof -
  let ?ent = "(hd (cb_list b))\<lparr>buffptr := buffptr e\<rparr>" and ?i = "unat (out_offs b)"
  have io: "length (entry b) = 10" "?i < 10" using b(2) by (simp_all add: ring_rep_def cb_inv_def)
  have ne: "cb_list b \<noteq> []" using length_cmds [OF b(2)] cmds(1) by (metis length_0_conv length_cb_list)
  then have hd: "hd (cb_list b) = entry b ! ?i"
    using io(2) by (simp add: cb_list_def ring_slice_def hd_map upt_conv_Cons)
  have "unat (esize (hd (cb_list b))) = length (hd cmds)"
    using b(2) ne cmds(1) by (auto simp: ring_rep_def holds_def neq_Nil_conv)
  then have pos: "pos < esize ?ent" using cmds(3) by (simp add: word_less_nat_alt)
  have "map esize (entry ?b) = map esize (entry b)" unfolding hd by (simp add: map_update) (metis list_update_id map_update)
  then have "get_length_of_all_entries_in_buffer ?b = get_length_of_all_entries_in_buffer b"
    using foreach_size_eq [of ?b 0 0] foreach_size_eq [of b 0 0] io
    by (simp add: get_length_of_all_entries_in_buffer_def)
  then have total: "get_length_of_all_entries_in_buffer ?b = Inr (of_nat (length (concat cmds)))"
    using ring_lookup(1) [OF b(2) small] by simp
  have "0 < length (concat cmds)" using cmds by (cases cmds) auto
  then have "unat (of_nat (length (concat cmds)) :: size_t) > 0"
    using small by (simp add: unat_of_nat_small)
  then have "\<not> (of_nat (length (concat cmds)) :: size_t) < 1" by (simp add: word_less_nat_alt)
  moreover have "esize ?ent - pos \<noteq> 0" using pos by auto
  then have "\<not> esize ?ent - pos < 1" by (simp add: word_less_nat_alt unat_eq_zero)
  moreover have "entry_at ?b (ucast (out_offs b)) = Inr ?ent"
    using io by (simp add: entry_at_def)
  moreover have "rd_range (heap (while_adding s ?b)) (buffptr e) (unat pos) 1 = Inl OutOfBounds"
    using new b(1) cmds(2) by (auto simp: rd_range_def get_bytes_def while_adding_def)
  ultimately show ?thesis
    using find_torn [OF io pos] total filp by (simp add: aesd_read_def Let_def)
qed

lemma read_outside:
  assumes "length (entry b) = 10" and "out_offs b = 10" and "private_data filp = device_addr K" and "pos \<noteq> 0"
  shows "aesd_read K (while_adding s b) filp buf 1 pos = Inl OutOfBounds"
proof -
  obtain n where "get_length_of_all_entries_in_buffer b = Inr n"
    using foreach_size_eq [of b 0 0] assms(1) by (simp add: get_length_of_all_entries_in_buffer_def)
  moreover have "(if n < 1 then n - pos else 1) \<noteq> 0" for n :: size_t
    using assms(4) by (auto simp: word_less_nat_alt unat_eq_zero)
  ultimately show ?thesis using assms find_outside [OF assms(1,2)] by (simp add: aesd_read_def Let_def)
qed

section \<open>Properties\<close>

text \<open>
  C21: A read can meet the ring of a full device in the middle of a commit, and faults there. Between
  the two stores into the oldest entry this has the new command's pointer with the dropped
  command's size, so that a read in it goes beyond the block of a shorter new command; and when
  the tenth entry is replaced, \<open>out_offs\<close> is 10 between two stores, so that the search of any read
  begins after the array.
\<close>

theorem unlocked_reader_meets_add_entry:
  assumes "collecting s cmds blk (length blk)" and "length cmds = 10" and "length (concat cmds) < 2 ^ 64"
    and "private_data filp = device_addr K" and "heap s (circ_buf (dev s)) = Some (RingObj b)"
    and "heap s (read_buf (dev s)) = Some (EntryObj e)"
  shows "\<exists>bs p. add_entry_states b e = Inr bs \<and> aesd_circular_buffer_add_entry b e = Inr (p, last bs) \<and>
    (length blk \<le> unat pos \<and> unat pos < length (hd cmds) \<longrightarrow>
      (\<exists>b' \<in> set bs. aesd_read K (while_adding s b') filp buf 1 pos = Inl OutOfBounds)) \<and>
    (in_offs b = 9 \<and> pos \<noteq> 0 \<longrightarrow>
      (\<exists>b' \<in> set bs. out_offs b' = 10 \<and> aesd_read K (while_adding s b') filp buf 1 pos = Inl OutOfBounds))"
proof -
  have b: "ring_rep (heap s) b cmds" and new: "heap s (buffptr e) = Some (Bytes blk)"
    using assms(1,5,6) by (auto simp: collecting_def)
  then have inv: "cb_inv b" "length (entry b) = 10" "unat (in_offs b) < length (entry b)"
    by (simp_all add: ring_rep_def cb_inv_def)
  have ne: "cmds \<noteq> []" using assms(2) by auto
  have "full b" using inv(1) assms(2) length_cmds [OF b] cb_full_iff [of b] by simp
  obtain bs p where bs: "add_entry_states b e = Inr bs" "aesd_circular_buffer_add_entry b e = Inr (p, last bs)"
    using add_entry_states_last [OF inv(3)] by blast
  note states = add_entry_states_full [OF inv(1) \<open>full b\<close> bs(1)]
  have "\<exists>b' \<in> set bs. aesd_read K (while_adding s b') filp buf 1 pos = Inl OutOfBounds"
    if "length blk \<le> unat pos" "unat pos < length (hd cmds)"
    using states(1) read_torn [OF assms(5) b assms(3,4) ne that new] by blast
  moreover have "\<exists>b' \<in> set bs. out_offs b' = 10 \<and> aesd_read K (while_adding s b') filp buf 1 pos = Inl OutOfBounds"
    if "in_offs b = 9" "pos \<noteq> 0"
    using states(2) [OF that(1)] read_outside [OF _ _ assms(4) that(2)] inv(2)
    by (intro bexI [OF _ states(2) [OF that(1)]]) simp
  ultimately show ?thesis using bs by blast
qed

text \<open>A device with ten commands of two bytes, the oldest at the last index, and a new one of one byte.\<close>

definition turning_device :: kstate where
  "turning_device = fresh_device\<lparr>heap := (\<lambda>p. if p = 4096 then Some (RingObj (full_buffer\<lparr>in_offs := 9, out_offs := 9\<rparr>))
     else if p = 8192 then Some (EntryObj \<lparr>buffptr = 200, esize = 1\<rparr>)
     else if p = 200 then Some (Bytes [newline])
     else if p \<in> {100, 101, 102, 103, 104, 105, 106, 107, 108, 109} then Some (Bytes [97, newline])
     else None)\<rparr>"

theorem unlocked_reader_meets_add_entry_witness:
  "\<exists>bs. add_entry_states (full_buffer\<lparr>in_offs := 9, out_offs := 9\<rparr>) \<lparr>buffptr = 200, esize = 1\<rparr> = Inr bs \<and>
    (\<exists>b' \<in> set bs. out_offs b' = 10 \<and>
      aesd_read first_fit_kernel (while_adding turning_device b') opened_file 512 1 1 = Inl OutOfBounds)"
proof -
  have "collecting turning_device (replicate 10 [97, newline]) [newline] 1"
  proof -
    let ?b = "full_buffer\<lparr>in_offs := 9, out_offs := 9\<rparr>"
    have list: "cb_list ?b = map (\<lambda>p. \<lparr>buffptr = p, esize = 2\<rparr>)
        [109, 100, 101, 102, 103, 104, 105, 106, 107, 108]"
      by (simp add: full_buffer_def cb_list_def cb_count_def ring_slice_def upt_rec)
    moreover have "cb_inv ?b" by (simp add: full_buffer_def cb_inv_def)
    ultimately have "ring_rep (heap turning_device) ?b (replicate 10 [97, newline])"
      by (simp add: ring_rep_def turning_device_def holds_def replicate_ten)
    then show ?thesis by (simp add: collecting_def turning_device_def taken_def list)
  qed
  then show ?thesis
    using unlocked_reader_meets_add_entry [of turning_device "replicate 10 [97, newline]" "[newline]" opened_file
        first_fit_kernel "full_buffer\<lparr>in_offs := 9, out_offs := 9\<rparr>" "\<lparr>buffptr = 200, esize = 1\<rparr>" 1 512]
    by (auto simp: turning_device_def replicate_ten)
qed

text \<open>
  A read that has looked up its bytes in the oldest of ten commands delivers from freed memory
  when a writer completes a command before the copy: the writer's commit frees exactly that
  block, and the reader holds no lock that would keep it. Alone, the two parts of the read are
  \<open>aesd_read\<close>.
\<close>

theorem read_races_with_commit:
  assumes "collecting s cmds blk (length blk)" and "kernel_ok K" and "blk \<noteq> []"
    and "length blk \<le> 2147483647" and "length cmds = 10" and "length (concat cmds) < 2 ^ 64"
    and "private_data filp = device_addr K" and "unat pos < length (hd cmds)" and "count \<noteq> 0"
  shows "\<exists>p n t. n \<noteq> 0 \<and> read_locate K s filp count pos = Inr (Some (p, unat pos, n)) \<and>
    write_commit K s = Inr t \<and> heap t p = None \<and>
    read_deliver K t buf pos (p, unat pos, n) = Inl BadPointer \<and>
    aesd_read K s filp buf count pos = read_deliver K s buf pos (p, unat pos, n)"
proof -
  have "device s cmds blk" using assms(1) by (simp add: device_def)
  then obtain b where b: "heap s (circ_buf (dev s)) = Some (RingObj b)" "ring_rep (heap s) b cmds"
    by (rule deviceE)
  have ne: "cmds \<noteq> []" using assms(5) by auto
  have "full b"
    using b(2) assms(5) length_cmds [OF b(2)] cb_full_iff [of b] by (simp add: ring_rep_def)
  then obtain t where t: "write_commit K s = Inr t" "heap t (buffptr (hd (cb_list b))) = None"
    using write_commit_ok [OF assms(1-4)] b(1) by blast
  obtain n where n: "n \<noteq> 0"
    "read_locate K s filp count pos = Inr (Some (buffptr (hd (cb_list b)), unat pos, n))"
    using read_locate_oldest [OF b assms(7,6) ne assms(8,9)] by blast
  have "read_deliver K t buf pos (buffptr (hd (cb_list b)), unat pos, n) = Inl BadPointer"
    using t(2) by (simp add: read_deliver_def rd_range_def get_bytes_def)
  then show ?thesis using n t aesd_read_parts [of K s filp buf count pos] by auto
qed

text \<open>A device with ten commands of two bytes and a further one that is complete.\<close>

definition full_device :: kstate where
  "full_device = fresh_device\<lparr>heap := (\<lambda>p. if p = 4096 then Some (RingObj full_buffer)
     else if p = 8192 then Some (EntryObj \<lparr>buffptr = 200, esize = 2\<rparr>)
     else if p \<in> {100, 101, 102, 103, 104, 105, 106, 107, 108, 109, 200} then Some (Bytes [97, newline])
     else None)\<rparr>"

lemma full_device_collecting: "collecting full_device (replicate 10 [97, newline]) [97, newline] 2"
proof -
  have "ring_rep (heap full_device) full_buffer (replicate 10 [97, newline])"
    by (simp add: ring_rep_def cb_inv_full_buffer cb_list_full_buffer full_device_def holds_def
        replicate_ten)
  then show ?thesis
    by (simp add: collecting_def full_device_def taken_def cb_list_full_buffer)
qed

theorem read_races_with_commit_witness:
  "\<exists>p n t. read_locate first_fit_kernel full_device opened_file 2 1 = Inr (Some (p, 1, n)) \<and>
    write_commit first_fit_kernel full_device = Inr t \<and>
    read_deliver first_fit_kernel t 512 1 (p, 1, n) = Inl BadPointer"
proof -
  have "length (concat (replicate 10 [97, newline])) < 2 ^ 64" "hd (replicate 10 [97, newline]) = [97, newline]"
    by (simp_all add: replicate_ten)
  then show ?thesis
    using read_races_with_commit [of full_device "replicate 10 [97, newline]" "[97, newline]" first_fit_kernel
        opened_file 1 2 512] full_device_collecting first_fit_kernel_ok
    by (auto simp: numeral_2_eq_2)
qed

end
