(* ===== verification/Driver_Interleaving.thy ===== *)
theory Driver_Interleaving
  imports Driver_Races Seek_Ioctl
begin

text \<open>
  Several processes in the operations of \<open>aesd-char-driver/main.c\<close> at once, as a step relation: a
  write is the sequence of the parts that \<open>Char_Driver\<close> has for it, between the lock and the unlock
  of the mutex of the device; a read is its two parts, without the mutex; a seek command is the
  three parts of \<open>Seek_Ioctl\<close> with the mutex held; a seek reads its end without the mutex.

  \<open>aesd_read\<close> and \<open>aesd_llseek\<close> read the ring while a write may be storing into it. The ring of the
  model has its values before and after an update, not those in between (\<open>Driver_Races\<close> has them);
  so an update and a look-up are each an interval with a begin and an end, and a look-up whose
  interval meets that of an update has no step: what it finds is not determined, and may be a
  fault. Then the invariant and the steps of writes; \<open>Driver_Invariant\<close> has the others.
\<close>

section \<open>Processes in the driver\<close>

datatype call =
    WriteCall ptr size_t
  | ReadCall ptr size_t
  | SeekCall loff_t c_int
  | IoctlCall u32 ptr

text \<open>
  Where a process is: outside the driver; in a write of \<open>count\<close> bytes from \<open>buf\<close>, with the mutex
  taken, with an entry in \<open>read_buf\<close>, with its block grown, with the bytes copied, with the bytes
  scanned for a newline, between the first store into the ring and the return of the call that
  frees the command dropped, and before the unlock; in a read, looking up its bytes since \<open>v\<close> begins
  and ends of updates had been, or before the end of the copy; in a seek, reading the ring since
  then; or in a seek command with its request at \<open>arg\<close>, with the mutex taken, with the request
  fetched and the scratch buffer allocated, and with \<open>n\<close> bytes in the scratch buffer.
\<close>

datatype stage =
    Outside
  | Locked ptr size_t
  | HasEntry ptr size_t
  | Grown ptr size_t
  | CopiedIn ptr size_t
  | Scanned ptr size_t bool
  | Committing ptr size_t
  | Finished size_t
  | Looking ptr size_t nat
  | Located ptr "ptr \<times> nat \<times> size_t" nat "byte list"
  | Seeking loff_t c_int nat
  | Asked ptr
  | Fetched ptr ptr aesd_seekto
  | Gathered ptr ptr aesd_seekto nat

text \<open>
  The module, and for each process its memory, its file position, its stage, the calls it will
  make and the values returned. For the proofs: the bytes of the writes in the order in which
  they took effect, and the number of calls that have taken the mutex. The last two arguments of
  \<open>Located\<close> are for the proofs too: the number of the command found, counted from the first one
  ever completed, and the bytes found. \<open>updates\<close> counts the begins and the ends of updates of
  the ring: it is odd while one is in progress.
\<close>

record machine =
  module :: kstate
  umem_of :: "nat \<Rightarrow> umem"
  fpos_of :: "nat \<Rightarrow> loff_t"
  stage_of :: "nat \<Rightarrow> stage"
  calls_of :: "nat \<Rightarrow> call list"
  rets_of :: "nat \<Rightarrow> c_long list"
  order :: "(nat \<times> byte list) list"
  begun :: nat
  updates :: nat

text \<open>The module as a process sees it, with its own memory and its own file.\<close>

definition view :: "machine \<Rightarrow> nat \<Rightarrow> kstate" where
  "view s t = (module s)\<lparr>user := umem_of s t\<rparr>"

definition file_of :: "kernel \<Rightarrow> machine \<Rightarrow> nat \<Rightarrow> struct_file" where
  "file_of K s t = \<lparr>f_pos = fpos_of s t, private_data = device_addr K\<rparr>"

definition goto :: "machine \<Rightarrow> nat \<Rightarrow> stage \<Rightarrow> kstate \<Rightarrow> machine" where
  "goto s t p k = s\<lparr>module := k, stage_of := (stage_of s)(t := p)\<rparr>"

definition return :: "machine \<Rightarrow> nat \<Rightarrow> c_long \<Rightarrow> machine" where
  "return s t r = s\<lparr>stage_of := (stage_of s)(t := Outside), rets_of := (rets_of s)(t := rets_of s t @ [r])\<rparr>"

text \<open>The history that a sequence of writes gives: all commands completed, and the collected bytes.\<close>

fun history_step :: "byte list \<Rightarrow> dev_spec \<Rightarrow> dev_spec" where
  "history_step bs (cmds, pend) =
     (if newline \<in> set bs then (cmds @ [pend @ bs], []) else (cmds, pend @ bs))"

definition history :: "(nat \<times> byte list) list \<Rightarrow> dev_spec" where
  "history ws = fold (\<lambda>w. history_step (snd w)) ws ([], [])"

definition completed :: "machine \<Rightarrow> byte list list" where
  "completed s = fst (history (order s))"

definition collected :: "machine \<Rightarrow> byte list" where
  "collected s = snd (history (order s))"

abbreviation ten_last :: "machine \<Rightarrow> byte list list" where
  "ten_last s \<equiv> lastn 10 (completed s)"

text \<open>The number of commands dropped, which is the number of the oldest command held.\<close>

definition dropped :: "machine \<Rightarrow> nat" where
  "dropped s = length (completed s) - 10"

text \<open>What a read at the position of the process finds: the number of the command, and the bytes.\<close>

definition found_number :: "machine \<Rightarrow> nat \<Rightarrow> nat" where
  "found_number s t = dropped s +
     (case locate (map length (ten_last s)) (unat (fpos_of s t)) of None \<Rightarrow> 0 | Some (k, r) \<Rightarrow> k)"

definition found_bytes :: "machine \<Rightarrow> nat \<Rightarrow> size_t \<Rightarrow> byte list" where
  "found_bytes s t count = read_spec (ten_last s) (unat (fpos_of s t)) (unat count)"

text \<open>No update of the ring was in progress at any time since \<open>v\<close> begins and ends of updates had been.\<close>

definition undisturbed :: "machine \<Rightarrow> nat \<Rightarrow> bool" where
  "undisturbed s v \<longleftrightarrow> updates s = v \<and> even v"

section \<open>Steps\<close>

text \<open>
  The first rule is the test of \<open>mutex_lock_interruptible\<close>, with or without a signal; a process
  that would wait has no step. The bytes of a write take effect where it commits. A write whose
  copy fails and a seek command that is refused return and leave the mutex locked. The look-up of
  a read lasts from its first read of the ring to the read of \<open>temp_entry->buffptr\<close> for the copy;
  \<open>deliver\<close> is the end of the copy. A process whose look-up was disturbed has no step.
\<close>

inductive driver_step :: "kernel \<Rightarrow> machine \<Rightarrow> machine \<Rightarrow> bool" for K where
  interrupted: "stage_of s t = Outside \<Longrightarrow> calls_of s t = WriteCall buf count # cs \<Longrightarrow>
    mutex_lock_interruptible True (view s t) = Inr (True, k) \<Longrightarrow>
    driver_step K s (return (s\<lparr>module := k, calls_of := (calls_of s)(t := cs)\<rparr>) t (- ERESTARTSYS))"
| lock: "stage_of s t = Outside \<Longrightarrow> calls_of s t = WriteCall buf count # cs \<Longrightarrow>
    mutex_lock_interruptible False (view s t) = Inr (False, k) \<Longrightarrow>
    driver_step K s (goto (s\<lparr>calls_of := (calls_of s)(t := cs), begun := Suc (begun s)\<rparr>) t (Locked buf count) k)"
| new_entry: "stage_of s t = Locked buf count \<Longrightarrow> write_new_entry K (view s t) = Inr k \<Longrightarrow>
    driver_step K s (goto s t (HasEntry buf count) k)"
| grow: "stage_of s t = HasEntry buf count \<Longrightarrow> write_grow K (view s t) count = Inr k \<Longrightarrow>
    driver_step K s (goto s t (Grown buf count) k)"
| copy_in: "stage_of s t = Grown buf count \<Longrightarrow> write_copy_in K (view s t) buf count = Inr (0, k) \<Longrightarrow>
    driver_step K s (goto s t (CopiedIn buf count) k)"
| copy_fails: "stage_of s t = Grown buf count \<Longrightarrow> write_copy_in K (view s t) buf count = Inr (left, k) \<Longrightarrow>
    left \<noteq> 0 \<Longrightarrow> driver_step K s (return (s\<lparr>module := k\<rparr>) t (- EFAULT))"
| scan: "stage_of s t = CopiedIn buf count \<Longrightarrow>
    get_entry (heap (view s t)) (read_buf (dev (view s t))) = Inr e \<Longrightarrow>
    write_scan (view s t) (buffptr e) (unat (esize e)) 0 count False = Inr (terminated, k) \<Longrightarrow>
    driver_step K s (goto s t (Scanned buf count terminated) k)"
| keep: "stage_of s t = Scanned buf count False \<Longrightarrow>
    map Some bs = user_at (umem_of s t) buf (unat count) \<Longrightarrow>
    driver_step K s (goto (s\<lparr>order := order s @ [(t, bs)]\<rparr>) t (Finished count) (view s t))"
| begin_update: "stage_of s t = Scanned buf count True \<Longrightarrow>
    driver_step K s (goto (s\<lparr>updates := Suc (updates s)\<rparr>) t (Committing buf count) (view s t))"
| commit: "stage_of s t = Committing buf count \<Longrightarrow> write_commit K (view s t) = Inr k \<Longrightarrow>
    map Some bs = user_at (umem_of s t) buf (unat count) \<Longrightarrow>
    driver_step K s (goto (s\<lparr>order := order s @ [(t, bs)], updates := Suc (updates s)\<rparr>) t (Finished count) k)"
| unlock: "stage_of s t = Finished count \<Longrightarrow>
    driver_step K s (return (s\<lparr>module := mutex_unlock (view s t)\<rparr>) t count)"
| read_begin: "stage_of s t = Outside \<Longrightarrow> calls_of s t = ReadCall buf count # cs \<Longrightarrow>
    driver_step K s (goto (s\<lparr>calls_of := (calls_of s)(t := cs)\<rparr>) t (Looking buf count (updates s)) (module s))"
| at_end: "stage_of s t = Looking buf count v \<Longrightarrow> undisturbed s v \<Longrightarrow>
    read_locate K (view s t) (file_of K s t) count (fpos_of s t) = Inr None \<Longrightarrow>
    driver_step K s (return s t 0)"
| look_up: "stage_of s t = Looking buf count v \<Longrightarrow> undisturbed s v \<Longrightarrow>
    read_locate K (view s t) (file_of K s t) count (fpos_of s t) = Inr (Some src) \<Longrightarrow>
    driver_step K s (goto s t (Located buf src (found_number s t) (found_bytes s t count)) (module s))"
| deliver: "stage_of s t = Located buf src g bytes \<Longrightarrow>
    read_deliver K (view s t) buf (fpos_of s t) src = Inr (r, pos, k) \<Longrightarrow>
    driver_step K s (return (s\<lparr>umem_of := (umem_of s)(t := user k), fpos_of := (fpos_of s)(t := pos)\<rparr>) t r)"
| seek_begin: "stage_of s t = Outside \<Longrightarrow> calls_of s t = SeekCall off whence # cs \<Longrightarrow>
    driver_step K s (goto (s\<lparr>calls_of := (calls_of s)(t := cs)\<rparr>) t (Seeking off whence (updates s)) (module s))"
| seek: "stage_of s t = Seeking off whence v \<Longrightarrow> (whence = 2 \<longrightarrow> undisturbed s v) \<Longrightarrow>
    aesd_llseek K (view s t) (file_of K s t) off whence = Inr (r, f) \<Longrightarrow>
    driver_step K s (return (s\<lparr>fpos_of := (fpos_of s)(t := f_pos f)\<rparr>) t r)"
| no_command: "stage_of s t = Outside \<Longrightarrow> calls_of s t = IoctlCall cmd arg # cs \<Longrightarrow>
    cmd \<noteq> AESDCHAR_IOCSEEKTO \<Longrightarrow>
    driver_step K s (return (s\<lparr>calls_of := (calls_of s)(t := cs)\<rparr>) t 0)"
| ask_interrupted: "stage_of s t = Outside \<Longrightarrow> calls_of s t = IoctlCall AESDCHAR_IOCSEEKTO arg # cs \<Longrightarrow>
    mutex_lock_interruptible True (view s t) = Inr (True, k) \<Longrightarrow>
    driver_step K s (return (s\<lparr>module := k, calls_of := (calls_of s)(t := cs)\<rparr>) t (- ERESTARTSYS))"
| ask: "stage_of s t = Outside \<Longrightarrow> calls_of s t = IoctlCall AESDCHAR_IOCSEEKTO arg # cs \<Longrightarrow>
    mutex_lock_interruptible False (view s t) = Inr (False, k) \<Longrightarrow>
    driver_step K s (goto (s\<lparr>calls_of := (calls_of s)(t := cs), begun := Suc (begun s)\<rparr>) t (Asked arg) k)"
| fetch: "stage_of s t = Asked arg \<Longrightarrow> seek_fetch K (view s t) arg = (mb, r, k) \<Longrightarrow>
    driver_step K s (goto s t (Fetched arg mb r) k)"
| gather: "stage_of s t = Fetched arg mb r \<Longrightarrow> seek_gather (view s t) mb r = Inr (Some (h, n)) \<Longrightarrow>
    driver_step K s (goto s t (Gathered arg mb r n) ((view s t)\<lparr>heap := h\<rparr>))"
| refuse: "stage_of s t = Fetched arg mb r \<Longrightarrow> seek_gather (view s t) mb r = Inr None \<Longrightarrow>
    driver_step K s (return s t (- EINVAL))"
| answer: "stage_of s t = Gathered arg mb r n \<Longrightarrow>
    seek_finish K (view s t) mb arg r (heap (view s t), n) = Inr (ret, k) \<Longrightarrow>
    driver_step K s (return (s\<lparr>module := k, umem_of := (umem_of s)(t := user k)\<rparr>) t ret)"

inductive_cases driver_stepE: "driver_step K s s'"

inductive driver_steps :: "kernel \<Rightarrow> machine \<Rightarrow> machine \<Rightarrow> bool" for K s where
  refl: "driver_steps K s s"
| step: "driver_steps K s s' \<Longrightarrow> driver_step K s' s'' \<Longrightarrow> driver_steps K s s''"

text \<open>Processes that are about to make calls on a device just started.\<close>

definition driver_start :: "kstate \<Rightarrow> (nat \<Rightarrow> umem) \<Rightarrow> (nat \<Rightarrow> call list) \<Rightarrow> machine" where
  "driver_start k um calls = \<lparr>module = k, umem_of = um, fpos_of = (\<lambda>t. 0), stage_of = (\<lambda>t. Outside),
     calls_of = calls, rets_of = (\<lambda>t. []), order = [], begun = 0, updates = 0\<rparr>"

section \<open>The history\<close>

lemma history_simps [simp]:
  "history [] = ([], [])" "history (ws @ [(t, bs)]) = history_step bs (history ws)"
  by (simp_all add: history_def)

lemma lastn_history:
  "fst (write_spec bs (lastn 10 cmds, pend)) = lastn 10 (fst (history_step bs (cmds, pend)))"
  "snd (write_spec bs (cmds', pend)) = snd (history_step bs (cmds, pend))"
  by (simp_all add: lastn_append_lastn)

lemma lastn_nth: "i < min n (length xs) \<Longrightarrow> lastn n xs ! i = xs ! (length xs - n + i)"
  by (auto simp: lastn_def)

lemma length_ten_last [simp]: "length (ten_last s) = min 10 (length (completed s))"
  by simp

section \<open>The invariant\<close>

definition inside :: "stage \<Rightarrow> bool" where
  "inside p = (case p of Outside \<Rightarrow> False | Looking buf c v \<Rightarrow> False |
     Located buf src g bytes \<Rightarrow> False | Seeking off whence v \<Rightarrow> False | _ \<Rightarrow> True)"

lemma inside_simps [simp]:
  "\<not> inside Outside" "\<not> inside (Looking buf c v)" "\<not> inside (Seeking off whence v)"
  "inside (Committing buf c)" "\<not> inside (Located buf src g bytes)" "inside (Locked buf c)"
  "inside (HasEntry buf c)" "inside (Grown buf c)" "inside (CopiedIn buf c)"
  "inside (Scanned buf c trm)" "inside (Finished c)"
  "inside (Asked arg)" "inside (Fetched arg mb r)" "inside (Gathered arg mb r n)"
  by (simp_all add: inside_def)

text \<open>
  A block \<open>mb\<close> with the bytes \<open>bs\<close> that is not part of the device; the request at an address of
  the process; the bytes that a request asks for.
\<close>

definition scratch :: "kstate \<Rightarrow> byte list list \<Rightarrow> byte list \<Rightarrow> ptr \<Rightarrow> byte list \<Rightarrow> bool" where
  "scratch k cmds pend mb bs \<longleftrightarrow> mb \<noteq> NULL \<and> heap k mb = Some (Bytes bs) \<and> device k cmds pend \<and>
     device (k\<lparr>heap := (heap k)(mb := None)\<rparr>) cmds pend"

definition is_request :: "umem \<Rightarrow> ptr \<Rightarrow> aesd_seekto \<Rightarrow> bool" where
  "is_request um arg r \<longleftrightarrow> (\<forall>r'. user_at um arg 24 = map Some (encode_seekto r') \<longrightarrow> r = r')"

definition asked_for :: "byte list list \<Rightarrow> aesd_seekto \<Rightarrow> byte list" where
  "asked_for cmds r = seek_spec cmds (unat (write_cmd r) mod 10) (unat (write_cmd_offset r))"

text \<open>
  What holds between the parts of a call, with \<open>cmds\<close> held and \<open>pend\<close> collected by the writes
  that have taken effect: \<open>room n\<close> says that \<open>n\<close> more blocks are within the bound, \<open>early\<close> that a call
  has begun that has not taken effect.
\<close>

fun stage_ok ::
  "kstate \<Rightarrow> umem \<Rightarrow> byte list list \<Rightarrow> byte list \<Rightarrow> (nat \<Rightarrow> bool) \<Rightarrow> nat \<Rightarrow> bool \<Rightarrow> stage \<Rightarrow> bool" where
  "stage_ok k um cmds pend room B early (Locked buf c) \<longleftrightarrow> early \<and> 0 < unat c \<and> unat c \<le> B \<and>
     device k cmds pend \<and> room 2"
| "stage_ok k um cmds pend room B early (HasEntry buf c) \<longleftrightarrow> early \<and> 0 < unat c \<and> unat c \<le> B \<and>
     device k cmds pend \<and> read_buf (dev k) \<noteq> NULL \<and> room 1"
| "stage_ok k um cmds pend room B early (Grown buf c) \<longleftrightarrow> early \<and> 0 < unat c \<and> unat c \<le> B \<and>
     (\<exists>blk. collecting k cmds (pend @ blk) (length pend) \<and> length blk = unat c)"
| "stage_ok k um cmds pend room B early (CopiedIn buf c) \<longleftrightarrow> early \<and> 0 < unat c \<and> unat c \<le> B \<and>
     (\<exists>bs. user_at um buf (unat c) = map Some bs \<and> collecting k cmds (pend @ bs) (length pend))"
| "stage_ok k um cmds pend room B early (Scanned buf c trm) \<longleftrightarrow> early \<and> 0 < unat c \<and> unat c \<le> B \<and>
     (\<exists>bs. user_at um buf (unat c) = map Some bs \<and> collecting k cmds (pend @ bs) (length (pend @ bs)) \<and>
       trm = (newline \<in> set bs))"
| "stage_ok k um cmds pend room B early (Committing buf c) \<longleftrightarrow> early \<and> 0 < unat c \<and> unat c \<le> B \<and>
     (\<exists>bs. user_at um buf (unat c) = map Some bs \<and> collecting k cmds (pend @ bs) (length (pend @ bs)) \<and>
       newline \<in> set bs)"
| "stage_ok k um cmds pend room B early (Finished c) \<longleftrightarrow> device k cmds pend"
| "stage_ok k um cmds pend room B early (Asked arg) \<longleftrightarrow> device k cmds pend \<and> room 1"
| "stage_ok k um cmds pend room B early (Fetched arg mb r) \<longleftrightarrow> is_request um arg r \<and>
     (\<exists>bs. length bs = 500 \<and> scratch k cmds pend mb bs)"
| "stage_ok k um cmds pend room B early (Gathered arg mb r n) \<longleftrightarrow> is_request um arg r \<and>
     write_cmd r \<le> 10 \<and> n = length (asked_for cmds r) \<and> n \<le> 500 \<and>
     (\<exists>rest. scratch k cmds pend mb (asked_for cmds r @ rest))"
| "stage_ok k um cmds pend room B early p \<longleftrightarrow> True"

text \<open>The bytes found by a read in progress are those of its command while this is held.\<close>

definition located_ok :: "aesd_circular_buffer \<Rightarrow> machine \<Rightarrow> ptr \<times> nat \<times> size_t \<Rightarrow> nat \<Rightarrow> byte list \<Rightarrow> bool" where
  "located_ok b s src g bytes \<longleftrightarrow> g < length (completed s) \<and> (\<exists>p off. src = (p, off, of_nat (length bytes)) \<and>
     off + length bytes \<le> length (completed s ! g) \<and>
     take (length bytes) (drop off (completed s ! g)) = bytes \<and>
     (dropped s \<le> g \<longrightarrow> buffptr (cb_list b ! (g - dropped s)) = p))"

definition ring_inv :: "machine \<Rightarrow> bool" where
  "ring_inv s \<longleftrightarrow> (\<exists>b. heap (module s) (circ_buf (dev (module s))) = Some (RingObj b) \<and>
     ring_rep (heap (module s)) b (ten_last s) \<and>
     (\<forall>t buf src g bytes. stage_of s t = Located buf src g bytes \<longrightarrow> located_ok b s src g bytes))"

definition mutex_inv :: "machine \<Rightarrow> bool" where
  "mutex_inv s \<longleftrightarrow> (\<forall>t. inside (stage_of s t) \<longrightarrow> lock (dev (module s))) \<and>
     (\<forall>t u. inside (stage_of s t) \<longrightarrow> inside (stage_of s u) \<longrightarrow> t = u)"

definition blocks :: "machine \<Rightarrow> nat" where
  "blocks s = card (dom (heap (module s)))"

definition early :: "machine \<Rightarrow> bool" where
  "early s \<longleftrightarrow> length (order s) < begun s"

text \<open>Locked, with no process in a call that could unlock.\<close>

definition lost :: "machine \<Rightarrow> bool" where
  "lost s \<longleftrightarrow> lock (dev (module s)) \<and> (\<forall>u. \<not> inside (stage_of s u))"

definition work_inv :: "nat \<Rightarrow> nat \<Rightarrow> machine \<Rightarrow> bool" where
  "work_inv C B s \<longleftrightarrow> (\<not> lock (dev (module s)) \<longrightarrow> device (module s) (ten_last s) (collected s)) \<and>
     (lost s \<longrightarrow> device (module s) (ten_last s) (collected s) \<or>
       (\<exists>blk. collecting (module s) (ten_last s) (collected s @ blk) (length (collected s)))) \<and>
     (\<forall>t. stage_ok (module s) (umem_of s t) (ten_last s) (collected s)
        (\<lambda>n. blocks s + n \<le> C + 2 * begun s) B (early s) (stage_of s t))"

definition size_inv :: "nat \<Rightarrow> nat \<Rightarrow> machine \<Rightarrow> bool" where
  "size_inv C B s \<longleftrightarrow> blocks s \<le> C + 2 * begun s \<and> length (order s) \<le> begun s \<and>
     (\<forall>w \<in> set (order s). length (snd w) \<le> B) \<and>
     (\<forall>t buf c. WriteCall buf c \<in> set (calls_of s t) \<longrightarrow> 0 < unat c \<and> unat c \<le> B)"

definition driver_inv :: "nat \<Rightarrow> nat \<Rightarrow> machine \<Rightarrow> bool" where
  "driver_inv C B s \<longleftrightarrow> mutex_inv s \<and> ring_inv s \<and> work_inv C B s \<and> size_inv C B s"

lemma view_simps [simp]:
  "heap (view s t) = heap (module s)" "dev (view s t) = dev (module s)" "user (view s t) = umem_of s t"
  "device (view s t) = device (module s)" "collecting (view s t) = collecting (module s)"
  by (simp_all add: view_def)

lemma goto_simps [simp]:
  "module (goto s t p k) = k" "stage_of (goto s t p k) = (stage_of s)(t := p)"
  "umem_of (goto s t p k) = umem_of s" "order (goto s t p k) = order s" "begun (goto s t p k) = begun s"
  "calls_of (goto s t p k) = calls_of s" "fpos_of (goto s t p k) = fpos_of s" "updates (goto s t p k) = updates s"
  by (simp_all add: goto_def)

lemma return_simps [simp]:
  "module (return s t r) = module s" "stage_of (return s t r) = (stage_of s)(t := Outside)"
  "umem_of (return s t r) = umem_of s" "order (return s t r) = order s" "begun (return s t r) = begun s"
  "calls_of (return s t r) = calls_of s" "updates (return s t r) = updates s"
  by (simp_all add: return_def)

lemma history_order: "history (order s) = (completed s, collected s)"
  by (simp add: completed_def collected_def)

text \<open>What depends on the sequence of writes only.\<close>

lemma order_cong:
  assumes "order s' = order s"
  shows "completed s' = completed s" "collected s' = collected s" "dropped s' = dropped s"
  using assms by (simp_all add: completed_def collected_def dropped_def)

lemma updates_inv [simp]: "driver_inv C B (s\<lparr>updates := n\<rparr>) = driver_inv C B s"
proof -
  have log: "completed (s\<lparr>updates := n\<rparr>) = completed s" "collected (s\<lparr>updates := n\<rparr>) = collected s"
    "dropped (s\<lparr>updates := n\<rparr>) = dropped s"
    by (rule order_cong; simp)+
  have "located_ok b (s\<lparr>updates := n\<rparr>) = located_ok b s" for b
    by (intro ext) (simp add: located_ok_def log)
  then show ?thesis
    by (simp add: driver_inv_def mutex_inv_def ring_inv_def work_inv_def size_inv_def blocks_def early_def
        lost_def log)
qed

lemma goto_updates: "goto (s\<lparr>updates := n\<rparr>) t p k = (goto s t p k)\<lparr>updates := n\<rparr>"
  "goto (s\<lparr>order := ws, updates := n\<rparr>) t p k = (goto (s\<lparr>order := ws\<rparr>) t p k)\<lparr>updates := n\<rparr>"
  by (simp_all add: goto_def)

text \<open>No stage outside a write speaks of the module.\<close>

lemma stage_ok_outside: "\<not> inside p \<Longrightarrow> stage_ok k um cmds pend room B e p"
  by (cases p) auto

lemma shows_ring:
  "device k cmds pend \<Longrightarrow> \<exists>b. heap k (circ_buf (dev k)) = Some (RingObj b) \<and> ring_rep (heap k) b cmds"
  "collecting k cmds blk n \<Longrightarrow> \<exists>b. heap k (circ_buf (dev k)) = Some (RingObj b) \<and> ring_rep (heap k) b cmds"
  by (auto elim: deviceE collectingE)

lemma inside_alone:
  assumes "driver_inv C B s" and "inside (stage_of s t)"
  shows "lock (dev (module s))" and "inside (stage_of s u) \<Longrightarrow> u = t"
  using assms unfolding driver_inv_def mutex_inv_def by blast+

text \<open>A part of a write that leaves the ring alone.\<close>

lemma inside_step:
  assumes inv: "driver_inv C B s" and t: "inside (stage_of s t)" "inside p"
    and k: "same_rest (view s t) k" "heap k (circ_buf (dev (module s))) = heap (module s) (circ_buf (dev (module s)))"
    and ring: "\<exists>b. heap k (circ_buf (dev k)) = Some (RingObj b) \<and> ring_rep (heap k) b (ten_last s)"
    and ok: "stage_ok k (umem_of s t) (ten_last s) (collected s)
        (\<lambda>n. card (dom (heap k)) + n \<le> C + 2 * begun s) B (early s) p"
    and room: "card (dom (heap k)) \<le> C + 2 * begun s"
  shows "driver_inv C B (goto s t p k)"
proof -
  let ?s = "goto s t p k"
  note eq = order_cong [of ?s s, simplified]
  have lock: "lock (dev (module s))" "lock (dev k)" and circ: "circ_buf (dev k) = circ_buf (dev (module s))"
    and one: "\<And>u. inside (stage_of s u) \<Longrightarrow> u = t"
    using inside_alone [OF inv t(1)] k(1) by (auto simp: same_rest_def)
  have "mutex_inv ?s" using t(2) lock(2) one by (auto simp: mutex_inv_def)
  moreover have "ring_inv ?s"
  proof -
    obtain b where b: "heap (module s) (circ_buf (dev (module s))) = Some (RingObj b)"
      "\<And>u buf src g bytes. stage_of s u = Located buf src g bytes \<Longrightarrow> located_ok b s src g bytes"
      using inv by (auto simp: driver_inv_def ring_inv_def)
    then have "ring_rep (heap k) b (ten_last s)" using ring k(2) circ by auto
    then show ?thesis
      using b k(2) circ t(2) by (auto simp: ring_inv_def located_ok_def eq)
  qed
  moreover have "work_inv C B ?s"
  proof -
    have "\<not> inside (stage_of s u)" if "u \<noteq> t" for u using one that by blast
    moreover have "\<not> lost ?s" using t(2) by (auto simp: lost_def)
    ultimately show ?thesis
      using ok lock(2) by (auto simp: work_inv_def eq blocks_def early_def intro: stage_ok_outside)
  qed
  moreover have "size_inv C B ?s"
    using inv room by (auto simp: driver_inv_def size_inv_def blocks_def)
  ultimately show ?thesis by (simp add: driver_inv_def)
qed

text \<open>The parts of a write that only collect.\<close>

lemma sizes:
  assumes "driver_inv C B s" and "B * begun s \<le> 2147483647"
  shows "length (concat (completed s)) + length (collected s) \<le> B * length (order s)"
    and "length (concat (completed s)) + length (collected s) \<le> 2147483647"
proof -
  have total: "length (concat (fst (history ws))) + length (snd (history ws)) = length (concat (map snd ws))" for ws
  proof (induction ws rule: rev_induct)
    case (snoc w ws)
    then show ?case by (cases w; cases "history ws") (auto split: if_splits)
  qed simp
  have "length (concat (map snd ws)) \<le> B * length ws" if "\<forall>w \<in> set ws. length (snd w) \<le> B"
    for ws :: "(nat \<times> byte list) list"
    using that by (induction ws) auto
  then show bound: "length (concat (completed s)) + length (collected s) \<le> B * length (order s)"
    using assms(1) total [of "order s"]
    by (simp add: driver_inv_def size_inv_def completed_def collected_def)
  have "B * length (order s) \<le> B * begun s"
    using assms(1) by (simp add: driver_inv_def size_inv_def)
  with bound assms(2) show "length (concat (completed s)) + length (collected s) \<le> 2147483647"
    by linarith
qed

text \<open>A write in progress has room for its bytes.\<close>

lemma early_size:
  assumes "driver_inv C B s" and "B * begun s \<le> 2147483647" and "early s" and "n \<le> B"
  shows "length (collected s) + n \<le> 2147483647"
proof -
  have "B * length (order s) + B \<le> B * begun s"
    using assms(3) by (metis Suc_leI early_def mult_Suc_right mult_le_mono2 add.commute)
  with sizes(1) [OF assms(1,2)] assms(2,4) show ?thesis by linarith
qed

lemma stage_okD:
  assumes "driver_inv C B s"
  shows "stage_ok (module s) (umem_of s t) (ten_last s) (collected s)
    (\<lambda>n. blocks s + n \<le> C + 2 * begun s) B (early s) (stage_of s t)"
  using assms by (simp add: driver_inv_def work_inv_def)

lemma new_entry_part:
  assumes inv: "driver_inv C B s" and t: "stage_of s t = Locked buf c"
    and K: "kernel_ok K" "kernel_room K N" and room: "C + 2 * begun s \<le> N"
  shows "\<exists>k. write_new_entry K (view s t) = Inr k \<and> driver_inv C B (goto s t (HasEntry buf c) k)"
proof -
  have ok: "early s" "0 < unat c" "unat c \<le> B" "device (module s) (ten_last s) (collected s)"
    "blocks s + 2 \<le> C + 2 * begun s"
    using stage_okD [OF inv, of t] t by simp_all
  then obtain k where k: "write_new_entry K (view s t) = Inr k" "device k (ten_last s) (collected s)"
    "same_rest (view s t) k" "read_buf (dev k) \<noteq> NULL" "card (dom (heap k)) \<le> Suc (blocks s)"
    "heap k (circ_buf (dev (module s))) = heap (module s) (circ_buf (dev (module s)))"
    using write_new_entry_ok [of "view s t" "ten_last s" "collected s", OF _ K] room
    by (auto simp: blocks_def)
  have "driver_inv C B (goto s t (HasEntry buf c) k)"
    by (rule inside_step [OF inv _ _ k(3,6) shows_ring(1) [OF k(2)]]) (use t k ok in auto)
  with k(1) show ?thesis by blast
qed

lemma grow_part:
  assumes inv: "driver_inv C B s" and t: "stage_of s t = HasEntry buf c" and B: "B * begun s \<le> 2147483647"
    and K: "kernel_ok K" "kernel_room K N" and room: "C + 2 * begun s \<le> N"
  shows "\<exists>k. write_grow K (view s t) c = Inr k \<and> driver_inv C B (goto s t (Grown buf c) k)"
proof -
  have ok: "early s" "0 < unat c" "unat c \<le> B" "device (module s) (ten_last s) (collected s)"
    "read_buf (dev (module s)) \<noteq> NULL" "blocks s + 1 \<le> C + 2 * begun s"
    using stage_okD [OF inv, of t] t by simp_all
  have c: "c \<noteq> 0" "length (collected s) + unat c < 2 ^ 64"
    using ok(2) early_size [OF inv B ok(1,3)] by auto
  obtain k blk where k: "write_grow K (view s t) c = Inr k"
    "collecting k (ten_last s) (collected s @ blk) (length (collected s))" "length blk = unat c"
    "same_rest (view s t) k" "card (dom (heap k)) \<le> Suc (blocks s)"
    "heap k (circ_buf (dev (module s))) = heap (module s) (circ_buf (dev (module s)))"
    using write_grow_ok [of "view s t" "ten_last s" "collected s", OF _ _ K _ c] ok(4-6) room
    by (auto simp: blocks_def)
  have "driver_inv C B (goto s t (Grown buf c) k)"
    by (rule inside_step [OF inv _ _ k(4,6) shows_ring(2) [OF k(2)]]) (use t k ok in auto)
  with k(1) show ?thesis by blast
qed

lemma copy_part:
  assumes inv: "driver_inv C B s" and t: "stage_of s t = Grown buf c" and K: "kernel_ok K"
    and mapped: "user_at (umem_of s t) buf (unat c) = map Some bs"
  shows "\<exists>k. write_copy_in K (view s t) buf c = Inr (0, k) \<and> driver_inv C B (goto s t (CopiedIn buf c) k)"
proof -
  obtain blk where ok: "early s" "0 < unat c" "unat c \<le> B" "length blk = unat c"
    "collecting (module s) (ten_last s) (collected s @ blk) (length (collected s))"
    using stage_okD [OF inv, of t] t by auto
  obtain k where k: "write_copy_in K (view s t) buf c = Inr (0, k)"
    "collecting k (ten_last s) (collected s @ bs) (length (collected s))" "same_rest (view s t) k"
    "card (dom (heap k)) = blocks s"
    "heap k (circ_buf (dev (module s))) = heap (module s) (circ_buf (dev (module s)))"
    using write_copy_in_ok [of "view s t" "ten_last s" "collected s" blk K buf c bs] K mapped ok(4,5)
    by (auto simp: blocks_def)
  have "blocks s \<le> C + 2 * begun s" using inv by (simp add: driver_inv_def size_inv_def)
  then have "driver_inv C B (goto s t (CopiedIn buf c) k)"
    by (intro inside_step [OF inv _ _ k(3,5) shows_ring(2) [OF k(2)]]) (use t k ok mapped in auto)
  with k(1) show ?thesis by blast
qed

lemma scan_part:
  assumes inv: "driver_inv C B s" and t: "stage_of s t = CopiedIn buf c" and B: "B * begun s \<le> 2147483647"
  shows "\<exists>e trm k. get_entry (heap (module s)) (read_buf (dev (module s))) = Inr e \<and>
    write_scan (view s t) (buffptr e) (unat (esize e)) 0 c False = Inr (trm, k) \<and>
    driver_inv C B (goto s t (Scanned buf c trm) k)"
proof -
  obtain bs where ok: "early s" "0 < unat c" "unat c \<le> B" "user_at (umem_of s t) buf (unat c) = map Some bs"
    "collecting (module s) (ten_last s) (collected s @ bs) (length (collected s))"
    using stage_okD [OF inv, of t] t by auto
  have len: "length bs = unat c" using arg_cong [OF ok(4), of length] by (simp add: user_at_def)
  obtain e where e: "heap (module s) (read_buf (dev (module s))) = Some (EntryObj e)"
    "unat (esize e) = length (collected s)"
    using ok(5) by (auto simp: collecting_def)
  obtain k where k: "write_scan (view s t) (buffptr e) (length (collected s)) 0 c False =
      Inr (newline \<in> set bs, k)"
    "collecting k (ten_last s) (collected s @ bs) (length (collected s @ bs))" "same_rest (view s t) k"
    "card (dom (heap k)) = blocks s"
    "heap k (circ_buf (dev (module s))) = heap (module s) (circ_buf (dev (module s)))"
    using write_scan_ok [of "view s t" "ten_last s" "collected s @ bs" "length (collected s)" 0 e "buffptr e" c False]
      ok(5) e(1) len early_size [OF inv B ok(1,3)] by (auto simp: blocks_def)
  have "blocks s \<le> C + 2 * begun s" using inv by (simp add: driver_inv_def size_inv_def)
  then have "driver_inv C B (goto s t (Scanned buf c (newline \<in> set bs)) k)"
    by (intro inside_step [OF inv _ _ k(3,5) shows_ring(2) [OF k(2)]]) (use t k ok in auto)
  then show ?thesis using k(1) e by (auto simp: get_entry_def)
qed

text \<open>
  The part that takes effect. A command that is still held afterwards keeps its number, its place
  counted from the oldest command, and its block.
\<close>

lemma commit_keeps_blocks:
  assumes "length (cb_list b) = min 10 n" and "cb_list b' = lastn 10 (cb_list b @ [e])"
    and "g < n" and "Suc n - 10 \<le> g"
  shows "n - 10 \<le> g" and "cb_list b' ! (g - (Suc n - 10)) = cb_list b ! (g - (n - 10))"
proof -
  show "n - 10 \<le> g" using assms(4) by simp
  have "cb_list b' ! (g - (Suc n - 10)) =
      (cb_list b @ [e]) ! (length (cb_list b @ [e]) - 10 + (g - (Suc n - 10)))"
    unfolding assms(2) using assms(1,3,4) by (intro lastn_nth) auto
  also have "length (cb_list b @ [e]) - 10 + (g - (Suc n - 10)) = g - (n - 10)"
    using assms(1,3,4) by (cases "n \<le> 9") auto
  also have "(cb_list b @ [e]) ! (g - (n - 10)) = cb_list b ! (g - (n - 10))"
    using assms(1,3) by (auto simp: nth_append)
  finally show "cb_list b' ! (g - (Suc n - 10)) = cb_list b ! (g - (n - 10))" .
qed

lemma located_ok_commit:
  assumes ok: "located_ok b s src g bytes" and b: "length (cb_list b) = min 10 (length (completed s))"
    and b': "cb_list b' = lastn 10 (cb_list b @ [e])" and s': "completed s' = completed s @ [cmd]"
  shows "located_ok b' s' src g bytes"
proof -
  have "dropped s \<le> g \<and> cb_list b' ! (g - dropped s') = cb_list b ! (g - dropped s)" if "dropped s' \<le> g"
    using commit_keeps_blocks [OF b b', of g] ok that s' by (simp add: located_ok_def dropped_def)
  then show ?thesis using ok s' by (auto simp: located_ok_def nth_append)
qed

lemma takes_effect:
  assumes inv: "driver_inv C B s"
    and t: "stage_of s t = Scanned buf c trm \<and> \<not> trm \<or> stage_of s t = Committing buf c \<and> trm" and B: "B * begun s \<le> 2147483647"
    and K: "kernel_ok K"
  shows "\<exists>k bs. map Some bs = user_at (umem_of s t) buf (unat c) \<and>
    (if trm then write_commit K (view s t) else Inr (view s t)) = Inr k \<and>
    driver_inv C B (goto (s\<lparr>order := order s @ [(t, bs)]\<rparr>) t (Finished c) k)"
proof -
  obtain bs where ok: "early s" "0 < unat c" "unat c \<le> B" "user_at (umem_of s t) buf (unat c) = map Some bs"
    "collecting (module s) (ten_last s) (collected s @ bs) (length (collected s @ bs))" "trm = (newline \<in> set bs)"
    using stage_okD [OF inv, of t] t by (elim disjE) auto
  have len: "length bs = unat c" using arg_cong [OF ok(4), of length] by (simp add: user_at_def)
  have ne: "collected s @ bs \<noteq> []" using len ok(2) by auto
  have short: "length (collected s @ bs) \<le> 2147483647" using early_size [OF inv B ok(1,3)] len by simp
  have one: "\<And>u. inside (stage_of s u) \<Longrightarrow> u = t" and lock: "lock (dev (module s))"
    using inside_alone [OF inv, of t] t by (elim disjE; simp)+
  obtain b where b: "heap (module s) (circ_buf (dev (module s))) = Some (RingObj b)"
    "ring_rep (heap (module s)) b (ten_last s)"
    "\<And>u buf src g bytes. stage_of s u = Located buf src g bytes \<Longrightarrow> located_ok b s src g bytes"
    using inv by (auto simp: driver_inv_def ring_inv_def)
  define cmd where "cmd = collected s @ bs"
  obtain k where k: "(if trm then write_commit K (view s t) else Inr (view s t)) = Inr k"
    "device k (lastn 10 (if trm then completed s @ [cmd] else completed s)) (if trm then [] else cmd)"
    "same_rest (view s t) k" "card (dom (heap k)) \<le> blocks s"
    "\<exists>b'. heap k (circ_buf (dev k)) = Some (RingObj b') \<and>
      (if trm then \<exists>e. cb_list b' = lastn 10 (cb_list b @ [e]) else b' = b)"
  proof (cases trm)
    case True
    obtain k where "write_commit K (view s t) = Inr k" "device k (lastn 10 (ten_last s @ [cmd])) []"
      "same_rest (view s t) k" "card (dom (heap k)) \<le> blocks s"
      "\<exists>b' e. heap k (circ_buf (dev k)) = Some (RingObj b') \<and> cb_list b' = lastn 10 (cb_list b @ [e])"
      using write_commit_ok [of "view s t" "ten_last s" cmd K] ok(5) K ne short b(1)
      by (auto simp: cmd_def blocks_def)
    with True that show thesis by (auto simp: lastn_append_lastn)
  next
    case False
    then show thesis
      using ok(5) b(1) that [of "view s t"] by (auto simp: cmd_def device_def blocks_def)
  qed
  let ?s = "goto (s\<lparr>order := order s @ [(t, bs)]\<rparr>) t (Finished c) k"
  have log: "completed ?s = (if trm then completed s @ [cmd] else completed s)"
    "collected ?s = (if trm then [] else cmd)"
    using ok(6) by (simp_all add: completed_def [of ?s] collected_def [of ?s] cmd_def history_order)
  have rest: "stage_of ?s u = stage_of s u" "\<not> inside (stage_of s u)" if "u \<noteq> t" for u
    using that one by auto
  have "mutex_inv ?s" using one lock k(3) by (auto simp: mutex_inv_def same_rest_def)
  moreover have "ring_inv ?s"
  proof -
    obtain b' where b': "heap k (circ_buf (dev k)) = Some (RingObj b')"
      "if trm then \<exists>e. cb_list b' = lastn 10 (cb_list b @ [e]) else b' = b"
      using k(5) by blast
    obtain b1 where "heap k (circ_buf (dev k)) = Some (RingObj b1)"
      "ring_rep (heap k) b1 (lastn 10 (if trm then completed s @ [cmd] else completed s))"
      using k(2) by (rule deviceE)
    then have "ring_rep (heap k) b' (ten_last ?s)" using b'(1) by (simp add: log(1))
    moreover have n: "length (cb_list b) = min 10 (length (completed s))"
      using length_cmds [OF b(2)] by simp
    have "located_ok b' ?s src g bytes" if "located_ok b s src g bytes" for src g bytes
    proof (cases trm)
      case True
      then obtain e where "cb_list b' = lastn 10 (cb_list b @ [e])" using b'(2) by auto
      then show ?thesis using located_ok_commit [OF that n] log(1) True by simp
    next
      case False
      then have "completed ?s = completed s" "dropped ?s = dropped s" "b' = b"
        using log(1) b'(2) by (simp_all add: dropped_def)
      then show ?thesis using that by (simp add: located_ok_def)
    qed
    then have "\<forall>u buf src g bytes. stage_of ?s u = Located buf src g bytes \<longrightarrow> located_ok b' ?s src g bytes"
      using b(3) by simp
    ultimately show ?thesis using b'(1) unfolding ring_inv_def by (metis goto_simps(1))
  qed
  moreover have "\<not> lost ?s" by (auto simp: lost_def)
  then have "work_inv C B ?s"
    using k(2) log rest lock k(3) by (auto simp: work_inv_def same_rest_def intro: stage_ok_outside)
  moreover have "size_inv C B ?s"
    using inv k(4) ok(1,3) len by (auto simp: driver_inv_def size_inv_def blocks_def early_def)
  ultimately have "driver_inv C B ?s" by (simp add: driver_inv_def)
  then show ?thesis using k(1) ok(4) by auto
qed

lemma keep_part:
  assumes inv: "driver_inv C B s" and t: "stage_of s t = Scanned buf c False" and B: "B * begun s \<le> 2147483647"
    and K: "kernel_ok K"
  shows "\<exists>bs. map Some bs = user_at (umem_of s t) buf (unat c) \<and>
    driver_inv C B (goto (s\<lparr>order := order s @ [(t, bs)]\<rparr>) t (Finished c) (view s t))"
  using takes_effect [OF inv _ B K, of t buf c False] t by auto

lemma begin_part:
  assumes inv: "driver_inv C B s" and t: "stage_of s t = Scanned buf c True"
  shows "driver_inv C B (goto (s\<lparr>updates := n\<rparr>) t (Committing buf c) (view s t))"
proof -
  obtain bs where ok: "collecting (module s) (ten_last s) (collected s @ bs) (length (collected s @ bs))"
    "early s" "0 < unat c" "unat c \<le> B" "user_at (umem_of s t) buf (unat c) = map Some bs" "newline \<in> set bs"
    using stage_okD [OF inv, of t] t by auto
  have "blocks s \<le> C + 2 * begun s" using inv by (simp add: driver_inv_def size_inv_def)
  then have "driver_inv C B (goto s t (Committing buf c) (view s t))"
    by (intro inside_step [OF inv]) (use t ok shows_ring(2) [OF ok(1)] in \<open>auto simp: same_rest_def blocks_def\<close>)
  then show ?thesis by (simp add: goto_updates)
qed

lemma commit_part:
  assumes inv: "driver_inv C B s" and t: "stage_of s t = Committing buf c" and B: "B * begun s \<le> 2147483647"
    and K: "kernel_ok K"
  shows "\<exists>k bs. map Some bs = user_at (umem_of s t) buf (unat c) \<and> write_commit K (view s t) = Inr k \<and>
    driver_inv C B (goto (s\<lparr>order := order s @ [(t, bs)], updates := n\<rparr>) t (Finished c) k)"
  using takes_effect [OF inv _ B K, of t buf c True] t by (auto simp: goto_updates)

text \<open>A step of a process that is not inside a write, before and after.\<close>

lemma collecting_cong: "heap k' = heap k \<Longrightarrow> dev k' = dev k \<Longrightarrow> collecting k' = collecting k"
  by (intro ext) (simp only: collecting_def)

lemma device_cong: "heap k' = heap k \<Longrightarrow> dev k' = dev k \<Longrightarrow> device k' = device k"
  by (intro ext) (simp only: device_def idle_def collecting_def)

lemma scratch_cong:
  assumes "heap k' = heap k" and "dev k' = dev k"
  shows "scratch k' = scratch k"
  using device_cong [OF assms] device_cong [of "k'\<lparr>heap := h\<rparr>" "k\<lparr>heap := h\<rparr>" for h] assms
  by (intro ext) (simp add: scratch_def)

lemma stage_ok_cong:
  assumes "heap k' = heap k" and "dev k' = dev k"
  shows "stage_ok k' um cmds pend room B e p = stage_ok k um cmds pend room B e p"
  using assms by (cases p) (simp_all add: device_cong [OF assms] collecting_cong [OF assms] scratch_cong [OF assms])

lemma outside_step:
  assumes inv: "driver_inv C B s" and k: "heap (module s') = heap (module s)" "dev (module s') = dev (module s)"
    and same: "order s' = order s" "begun s' = begun s"
    and others: "\<And>u. u \<noteq> t \<Longrightarrow> stage_of s' u = stage_of s u \<and> umem_of s' u = umem_of s u"
    and t: "\<not> inside (stage_of s t)" "\<not> inside (stage_of s' t)"
    and calls: "\<And>u. set (calls_of s' u) \<subseteq> set (calls_of s u)"
    and located: "\<And>b buf src g bytes. heap (module s) (circ_buf (dev (module s))) = Some (RingObj b) \<Longrightarrow>
      ring_rep (heap (module s)) b (ten_last s) \<Longrightarrow> stage_of s' t = Located buf src g bytes \<Longrightarrow>
      located_ok b s src g bytes"
  shows "driver_inv C B s'"
proof -
  note eq = order_cong [OF same(1)]
  have in_eq: "inside (stage_of s' u) = inside (stage_of s u)" for u
    using others [of u] t by (cases "u = t") auto
  have "mutex_inv s'"
    using inv by (simp add: driver_inv_def mutex_inv_def in_eq k(2))
  moreover have "ring_inv s'"
  proof -
    obtain b where b: "heap (module s) (circ_buf (dev (module s))) = Some (RingObj b)"
      "ring_rep (heap (module s)) b (ten_last s)"
      "\<And>u buf src g bytes. stage_of s u = Located buf src g bytes \<Longrightarrow> located_ok b s src g bytes"
      using inv by (auto simp: driver_inv_def ring_inv_def)
    have "located_ok b s' src g bytes" if "stage_of s' u = Located buf src g bytes" for u buf src g bytes
      using that b(3) [of u] located [OF b(1,2)] others [of u]
      by (cases "u = t") (auto simp: located_ok_def eq)
    then show ?thesis using b(1,2) k unfolding ring_inv_def by (auto simp: eq)
  qed
  moreover have "work_inv C B s'"
  proof -
    have "stage_ok (module s) (umem_of s' u) (ten_last s) (collected s)
        (\<lambda>n. blocks s + n \<le> C + 2 * begun s) B (early s) (stage_of s' u)" for u
      using stage_okD [OF inv, of u] others [of u] t(2) by (cases "u = t") (auto intro: stage_ok_outside)
    moreover have "lost s' = lost s" by (simp add: lost_def in_eq k(2))
    ultimately show ?thesis
      using inv k same
      by (simp add: driver_inv_def work_inv_def eq blocks_def early_def device_cong [OF k] collecting_cong [OF k]
          stage_ok_cong [OF k])
  qed
  moreover have "size_inv C B s'"
    using inv k same subsetD [OF calls] unfolding driver_inv_def size_inv_def blocks_def by force
  ultimately show ?thesis by (simp add: driver_inv_def)
qed

lemma located_ok_found:
  assumes b: "heap (module s) (circ_buf (dev (module s))) = Some (RingObj b)"
    "ring_rep (heap (module s)) b (ten_last s)"
    and small: "length (concat (completed s)) < 2 ^ 64"
    and found: "read_locate K (view s t) (file_of K s t) count (fpos_of s t) = Inr (Some src)"
  shows "located_ok b s src (found_number s t) (found_bytes s t count)"
proof -
  have "completed s = take (length (completed s) - 10) (completed s) @ ten_last s"
    by (simp add: take_append_lastn)
  then have "length (concat (ten_last s)) \<le> length (concat (completed s))"
    by (metis concat_append le_add2 length_append)
  then have "length (concat (ten_last s)) < 2 ^ 64" using small by linarith
  then have rl: "read_locate K (view s t) (file_of K s t) count (fpos_of s t) =
      Inr (case locate (map length (ten_last s)) (unat (fpos_of s t)) of None \<Rightarrow> None
        | Some (k, r) \<Rightarrow> if found_bytes s t count = [] then None
            else Some (buffptr (cb_list b ! k), r, of_nat (length (found_bytes s t count))))"
    using b by (intro read_locate_ok) (simp_all add: file_of_def found_bytes_def)
  then obtain k r where kr: "locate (map length (ten_last s)) (unat (fpos_of s t)) = Some (k, r)"
    "src = (buffptr (cb_list b ! k), r, of_nat (length (found_bytes s t count)))"
    using found by (auto split: option.splits if_splits)
  then have k: "k < min 10 (length (completed s))" "r < length (ten_last s ! k)"
    by (auto dest!: locate_SomeD)
  then have cmd: "ten_last s ! k = completed s ! (dropped s + k)"
    by (simp add: lastn_nth dropped_def)
  have g: "found_number s t = dropped s + k" using kr(1) by (simp add: found_number_def)
  have "found_bytes s t count = take (unat count) (drop r (completed s ! (dropped s + k)))"
    using kr(1) by (simp add: found_bytes_def read_spec_def cmd)
  moreover have "dropped s + k < length (completed s)" using k(1) by (simp add: dropped_def) linarith
  ultimately show ?thesis
    using k(2) cmd unfolding located_ok_def g kr(2) by (auto simp: min_def)
qed

lemma user_mapped_at:
  assumes "user_mapped um p n"
  shows "\<exists>bs. user_at um p n = map Some bs"
proof -
  have "user_at um p n = map Some (map (\<lambda>i. the (um (p + of_nat i))) [0..<n])"
    using assms by (auto simp: user_at_def user_mapped_def)
  then show ?thesis by blast
qed

text \<open>The steps that take and give the mutex.\<close>

lemma log_simps [simp]:
  "completed (goto s t p k) = completed s" "collected (goto s t p k) = collected s" "dropped (goto s t p k) = dropped s"
  "completed (return s t r) = completed s" "collected (return s t r) = collected s" "dropped (return s t r) = dropped s"
  "completed (s\<lparr>module := k\<rparr>) = completed s" "collected (s\<lparr>module := k\<rparr>) = collected s"
  "dropped (s\<lparr>module := k\<rparr>) = dropped s"
  "completed (s\<lparr>calls_of := c\<rparr>) = completed s" "collected (s\<lparr>calls_of := c\<rparr>) = collected s"
  "dropped (s\<lparr>calls_of := c\<rparr>) = dropped s"
  "completed (s\<lparr>calls_of := c, begun := n\<rparr>) = completed s" "collected (s\<lparr>calls_of := c, begun := n\<rparr>) = collected s"
  "dropped (s\<lparr>calls_of := c, begun := n\<rparr>) = dropped s"
  "completed (s\<lparr>module := k, umem_of := um\<rparr>) = completed s" "collected (s\<lparr>module := k, umem_of := um\<rparr>) = collected s"
  "dropped (s\<lparr>module := k, umem_of := um\<rparr>) = dropped s"
  by (rule order_cong; simp)+

lemma take_step:
  assumes inv: "driver_inv C B s" and t: "calls_of s t = c # cs"
    and k: "mutex_lock_interruptible False (view s t) = Inr (False, k)" and p: "inside p"
    and ok: "device k (ten_last s) (collected s) \<Longrightarrow> length (order s) \<le> begun s \<Longrightarrow>
      blocks s \<le> C + 2 * begun s \<Longrightarrow> c \<in> set (calls_of s t) \<Longrightarrow>
      stage_ok k (umem_of s t) (ten_last s) (collected s) (\<lambda>n. blocks s + n \<le> C + 2 * Suc (begun s)) B
        (length (order s) < Suc (begun s)) p"
  shows "driver_inv C B (goto (s\<lparr>calls_of := (calls_of s)(t := cs), begun := Suc (begun s)\<rparr>) t p k)"
    (is "driver_inv C B ?s")
proof -
  have free: "\<not> lock (dev (module s))" and k': "k = view s t\<lparr>dev := (dev (module s))\<lparr>lock := True\<rparr>\<rparr>"
    using k by (auto simp: mutex_lock_interruptible_def split: if_splits)
  have out: "\<not> inside (stage_of s u)" for u using free inside_alone(1) [OF inv, of u] by blast
  have dev: "device (module s) (ten_last s) (collected s)"
    using inv free by (simp add: driver_inv_def work_inv_def)
  then have dev': "device k (ten_last s) (collected s)"
    by (simp add: k' device_def idle_def collecting_def)
  have size: "length (order s) \<le> begun s" "blocks s \<le> C + 2 * begun s"
    using inv by (simp_all add: driver_inv_def size_inv_def)
  have "mutex_inv ?s" using out by (auto simp: mutex_inv_def k')
  moreover have "ring_inv ?s"
    using inv out p unfolding driver_inv_def ring_inv_def by (auto simp: k' located_ok_def)
  moreover have "\<not> lost ?s" using p by (auto simp: lost_def)
  then have "work_inv C B ?s"
    using out dev' ok [OF dev' size] t
    by (auto simp: work_inv_def blocks_def early_def k' intro: stage_ok_outside)
  moreover have "size_inv C B ?s"
  proof -
    have "set (calls_of ?s u) \<subseteq> set (calls_of s u)" for u
      using t by (cases "u = t") (auto simp: goto_def)
    then have "\<forall>u buf c. WriteCall buf c \<in> set (calls_of ?s u) \<longrightarrow> 0 < unat c \<and> unat c \<le> B"
      using inv unfolding driver_inv_def size_inv_def by blast
    then show ?thesis
      using inv unfolding driver_inv_def size_inv_def by (simp add: blocks_def k')
  qed
  ultimately show ?thesis by (simp add: driver_inv_def)
qed

lemma lock_part:
  assumes inv: "driver_inv C B s" and t: "calls_of s t = WriteCall buf c # cs"
    and k: "mutex_lock_interruptible False (view s t) = Inr (False, k)"
  shows "driver_inv C B (goto (s\<lparr>calls_of := (calls_of s)(t := cs), begun := Suc (begun s)\<rparr>) t (Locked buf c) k)"
proof (rule take_step [OF inv t k])
  have "0 < unat c" "unat c \<le> B"
    using inv t unfolding driver_inv_def size_inv_def by (metis list.set_intros(1))+
  then show "stage_ok k (umem_of s t) (ten_last s) (collected s) (\<lambda>n. blocks s + n \<le> C + 2 * Suc (begun s)) B
      (length (order s) < Suc (begun s)) (Locked buf c)"
    if "device k (ten_last s) (collected s)" "length (order s) \<le> begun s" "blocks s \<le> C + 2 * begun s"
    using that by simp
qed simp

text \<open>A process leaves with the device in order, or at least the ring and the block collected.\<close>

lemma leave_step:
  assumes inv: "driver_inv C B s" and t: "inside (stage_of s t)"
    and k: "heap k (circ_buf (dev (module s))) = heap (module s) (circ_buf (dev (module s)))"
      "circ_buf (dev k) = circ_buf (dev (module s))" "card (dom (heap k)) \<le> blocks s"
    and ring: "\<exists>b. heap k (circ_buf (dev k)) = Some (RingObj b) \<and> ring_rep (heap k) b (ten_last s)"
    and free: "\<not> lock (dev k) \<Longrightarrow> device k (ten_last s) (collected s)"
    and held: "lock (dev k) \<Longrightarrow> device k (ten_last s) (collected s) \<or>
      (\<exists>blk. collecting k (ten_last s) (collected s @ blk) (length (collected s)))"
  shows "driver_inv C B (return (s\<lparr>module := k, umem_of := um\<rparr>) t r)" (is "driver_inv C B ?s")
proof -
  have out: "\<not> inside (stage_of ?s u)" for u using inside_alone(2) [OF inv t, of u] by auto
  have "mutex_inv ?s" using out by (simp add: mutex_inv_def)
  moreover have "ring_inv ?s"
  proof -
    obtain b where b: "heap (module s) (circ_buf (dev (module s))) = Some (RingObj b)"
      "\<And>u buf src g bytes. stage_of s u = Located buf src g bytes \<Longrightarrow> located_ok b s src g bytes"
      using inv by (auto simp: driver_inv_def ring_inv_def)
    then have "ring_rep (heap k) b (ten_last s)" using ring k(1,2) by auto
    then show ?thesis using b k(1,2) by (auto simp: ring_inv_def located_ok_def)
  qed
  moreover have "work_inv C B ?s"
    using free held stage_ok_outside [OF out] unfolding work_inv_def lost_def by simp
  moreover have "size_inv C B ?s"
    using inv k(3) by (simp add: driver_inv_def size_inv_def blocks_def)
  ultimately show ?thesis by (simp add: driver_inv_def)
qed

lemma umem_idem: "s\<lparr>module := k, umem_of := umem_of s\<rparr> = s\<lparr>module := k\<rparr>"
  by (cases s) simp

lemmas leave_part = leave_step [of C B s t k "umem_of s" r for C B s t k r, unfolded umem_idem]

lemma unlock_part:
  assumes inv: "driver_inv C B s" and t: "stage_of s t = Finished c"
  shows "driver_inv C B (return (s\<lparr>module := mutex_unlock (view s t)\<rparr>) t r)"
proof -
  have dev: "device (module s) (ten_last s) (collected s)" using stage_okD [OF inv, of t] t by simp
  then have dev': "device (mutex_unlock (view s t)) (ten_last s) (collected s)"
    by (simp add: mutex_unlock_def device_def idle_def collecting_def)
  show ?thesis
    by (rule leave_part [OF inv _ _ _ _ shows_ring(1) [OF dev'] dev']) (use t in \<open>simp_all add: mutex_unlock_def blocks_def\<close>)
qed

lemma copy_left:
  assumes inv: "driver_inv C B s" and t: "stage_of s t = Grown buf c" and K: "kernel_ok K"
    and k: "write_copy_in K (view s t) buf c = Inr (left, k)"
  shows "left = 0 \<longleftrightarrow> user_mapped (umem_of s t) buf (unat c)"
proof -
  obtain blk where ok: "length blk = unat c"
    "collecting (module s) (ten_last s) (collected s @ blk) (length (collected s))"
    using stage_okD [OF inv, of t] t by auto
  show ?thesis
  proof (cases "user_mapped (umem_of s t) buf (unat c)")
    case True
    then obtain bs where "user_at (umem_of s t) buf (unat c) = map Some bs" using user_mapped_at by blast
    then show ?thesis
      using write_copy_in_ok [of "view s t" "ten_last s" "collected s" blk K buf c bs] K ok k True by auto
  next
    case False
    then show ?thesis
      using write_copy_in_fails [of "view s t" "ten_last s" "collected s" blk K c buf] K ok k by auto
  qed
qed

lemma copy_fails_part:
  assumes inv: "driver_inv C B s" and t: "stage_of s t = Grown buf c" and K: "kernel_ok K"
    and k: "write_copy_in K (view s t) buf c = Inr (left, k)" "left \<noteq> 0"
  shows "lock (dev k)" and "driver_inv C B (return (s\<lparr>module := k\<rparr>) t r)"
proof -
  obtain blk where ok: "length blk = unat c"
    "collecting (module s) (ten_last s) (collected s @ blk) (length (collected s))"
    using stage_okD [OF inv, of t] t by auto
  have "\<not> user_mapped (umem_of s t) buf (unat c)" using copy_left [OF inv t K k(1)] k(2) by simp
  then obtain blk' where k': "same_rest (view s t) k"
    "collecting k (ten_last s) (collected s @ blk') (length (collected s))" "card (dom (heap k)) = blocks s"
    "heap k (circ_buf (dev (module s))) = heap (module s) (circ_buf (dev (module s)))"
    using write_copy_in_fails [of "view s t" "ten_last s" "collected s" blk K c buf] K ok k
    by (auto simp: blocks_def)
  show lock: "lock (dev k)" using inside_alone(1) [OF inv, of t] t k'(1) by (simp add: same_rest_def)
  show "driver_inv C B (return (s\<lparr>module := k\<rparr>) t r)"
    by (rule leave_part [OF inv _ k'(4) _ _ shows_ring(2) [OF k'(2)]])
      (use t k'(1-3) lock in \<open>auto simp: same_rest_def\<close>)
qed

end
