(* ===== verification/Driver_Invariant.thy ===== *)
theory Driver_Invariant
  imports Driver_Interleaving
begin

text \<open>
  The steps of a seek command and of a seek keep the invariant of \<open>Driver_Interleaving\<close>; then every
  step does. While a seek command is in progress its scratch buffer is a block besides the device.
\<close>

section \<open>The scratch buffer\<close>

lemma scratch_new:
  assumes "device k cmds pend" and "heap k mb = None" and "mb \<noteq> NULL"
  shows "scratch (k\<lparr>heap := (heap k)(mb \<mapsto> Bytes bs)\<rparr>) cmds pend mb bs"
  using assms device_extra [OF assms] by (simp add: scratch_def fun_upd_idem)

lemma scratch_write:
  assumes "scratch k cmds pend mb bs"
  shows "scratch (k\<lparr>heap := (heap k)(mb \<mapsto> Bytes bs')\<rparr>) cmds pend mb bs'"
  using assms scratch_new [of "k\<lparr>heap := (heap k)(mb := None)\<rparr>" cmds pend mb bs']
  by (simp add: scratch_def)

lemma scratch_circ:
  assumes "scratch k cmds pend mb bs"
  shows "circ_buf (dev k) \<noteq> mb"
proof -
  have "\<exists>b. heap k (circ_buf (dev k)) = Some (RingObj b)"
    using assms by (auto simp: scratch_def elim: deviceE)
  then show ?thesis using assms by (auto simp: scratch_def)
qed

lemma scratch_gather:
  assumes "scratch k cmds pend mb bs" and "length bs = 500" and small: "length (concat cmds) < 2 ^ 32"
  shows "seek_gather (k\<lparr>user := um\<rparr>) mb r =
    (if write_cmd r > 10 then Inr None
     else if length (asked_for cmds r) \<le> 500
     then Inr (Some ((heap k)(mb \<mapsto> Bytes (asked_for cmds r @ drop (length (asked_for cmds r)) bs)),
       length (asked_for cmds r)))
     else Inl OutOfBounds)"
proof -
  let ?k = "k\<lparr>heap := (heap k)(mb := None), user := um\<rparr>"
  have mb: "mb \<noteq> NULL" "heap k mb = Some (Bytes bs)" "heap ?k mb = None" "device ?k cmds pend"
    using assms(1) by (simp_all add: scratch_def)
  have k: "?k\<lparr>heap := (heap ?k)(mb \<mapsto> Bytes bs)\<rparr> = k\<lparr>user := um\<rparr>"
    using mb(2) by (simp add: fun_upd_idem)
  show ?thesis
  proof (cases "write_cmd r > 10")
    case True
    then show ?thesis
      using seek_gather_refused [OF mb(4,1,3) _ True, of bs] small k by simp
  next
    case False
    then have "write_cmd r \<le> 10" by simp
    from seek_gather_eq [OF mb(4,1,3) this small HOL.refl, of bs] show ?thesis
      using False assms(2) k by (simp add: asked_for_def)
  qed
qed

text \<open>The end of a seek command, whatever the copies to the process give.\<close>

lemma seek_finish_any:
  assumes K: "kernel_ok K" and mb: "heap k mb = Some (Bytes (out @ rest))" "mb \<noteq> NULL"
  shows "\<exists>um. seek_finish K k mb arg r (heap k, length out) =
    Inr (0, mutex_unlock (k\<lparr>heap := (heap k)(mb := None), user := um\<rparr>))"
proof -
  have "do_kfree K (heap k) mb = Inr ((heap k)(mb := None))"
    using kfree_eq(2) [OF K mb(2), of "heap k"] mb(1) by (simp add: do_kfree_def)
  moreover have "out \<noteq> [] \<Longrightarrow> rd_range (heap k) mb 0 (length out) = Inr out"
    using mb(1) by (simp add: rd_range_ok)
  ultimately have "seek_finish K k mb arg r (heap k, length out) =
    Inr (0, mutex_unlock (k\<lparr>heap := (heap k)(mb := None), user := fst (copy_to_user K
      (fst (copy_to_user K (user k) (special_buffer r) out)) arg
      (encode_seekto (r\<lparr>length_copied := of_nat (length out)\<rparr>)))\<rparr>))"
    by (cases "out = []") (simp_all add: seek_finish_def split_beta)
  then show ?thesis by blast
qed

section \<open>The steps of a seek command\<close>

lemma ask_part:
  assumes inv: "driver_inv C B s" and t: "calls_of s t = IoctlCall cmd arg # cs"
    and k: "mutex_lock_interruptible False (view s t) = Inr (False, k)"
  shows "driver_inv C B (goto (s\<lparr>calls_of := (calls_of s)(t := cs), begun := Suc (begun s)\<rparr>) t (Asked arg) k)"
  by (rule take_step [OF inv t k]) simp_all

lemma fetch_part:
  assumes inv: "driver_inv C B s" and t: "stage_of s t = Asked arg"
    and K: "kernel_ok K" "kernel_room K N" and room: "C + 2 * begun s \<le> N"
    and k: "seek_fetch K (view s t) arg = (mb, r, k)"
  shows "driver_inv C B (goto s t (Fetched arg mb r) k)"
proof -
  have dev: "device (module s) (ten_last s) (collected s)" and blk: "Suc (blocks s) \<le> C + 2 * begun s"
    using stage_okD [OF inv, of t] t by simp_all
  have n: "card (dom (heap (view s t))) < N" using blk room by (simp add: blocks_def)
  have req: "is_request (umem_of s t) arg r"
    unfolding is_request_def
  proof (intro allI impI)
    fix r' assume req: "user_at (umem_of s t) arg 24 = map Some (encode_seekto r')"
    obtain mb' rest r1 where "seek_fetch K (view s t) arg = (mb', r1, (view s t)\<lparr>heap := (heap (view s t))(mb' \<mapsto> Bytes rest)\<rparr>)"
      "user_at (user (view s t)) arg 24 = map Some (encode_seekto r') \<Longrightarrow> r1 = r'"
      by (rule seek_fetch_cases [OF K n, of arg r']) (rule that, assumption)
    then show "r = r'" using k req by simp
  qed
  obtain mb' rest r1 where f: "seek_fetch K (view s t) arg = (mb', r1, (view s t)\<lparr>heap := (heap (view s t))(mb' \<mapsto> Bytes rest)\<rparr>)"
    "mb' \<noteq> NULL" "heap (view s t) mb' = None" "length rest = 500"
    by (rule seek_fetch_cases [OF K n, of arg r]) (rule that, assumption+)
  then have mb: "k = (view s t)\<lparr>heap := (heap (view s t))(mb \<mapsto> Bytes rest)\<rparr>" "mb \<noteq> NULL"
    "heap (module s) mb = None" "length rest = 500"
    using k by simp_all
  have dev': "device (view s t) (ten_last s) (collected s)" using dev by simp
  have sc: "scratch k (ten_last s) (collected s) mb rest"
    unfolding mb(1) using scratch_new [OF dev' _ mb(2)] mb(3) by simp
  then have dev_k: "device k (ten_last s) (collected s)" by (simp add: scratch_def)
  have card: "card (dom (heap k)) \<le> Suc (blocks s)"
    using mb(1,3) card_dom_upd [of "heap (module s)" mb "Bytes rest"] by (simp add: blocks_def)
  show ?thesis
    by (rule inside_step [OF inv _ _ _ _ shows_ring(1) [OF dev_k]])
      (use t mb sc scratch_circ [OF sc] req card blk in \<open>auto simp: same_rest_def\<close>)
qed

lemma log_small:
  assumes "driver_inv C B s" and "B * begun s \<le> 2147483647"
  shows "length (concat (ten_last s)) < 2 ^ 32"
proof -
  have "length (concat (ten_last s)) \<le> length (concat (completed s))"
    by (metis append_take_drop_id concat_append lastn_def le_add2 length_append)
  then show ?thesis using sizes(2) [OF assms] by simp
qed

lemma fetched_gather:
  assumes inv: "driver_inv C B s" and B: "B * begun s \<le> 2147483647" and t: "stage_of s t = Fetched arg mb r"
  obtains bs where "length bs = 500" "scratch (module s) (ten_last s) (collected s) mb bs"
    "seek_gather (view s t) mb r =
      (if write_cmd r > 10 then Inr None
       else if length (asked_for (ten_last s) r) \<le> 500
       then Inr (Some ((heap (module s))(mb \<mapsto> Bytes (asked_for (ten_last s) r @
         drop (length (asked_for (ten_last s) r)) bs)), length (asked_for (ten_last s) r)))
       else Inl OutOfBounds)"
proof -
  obtain bs where bs: "length bs = 500" "scratch (module s) (ten_last s) (collected s) mb bs"
    using stage_okD [OF inv, of t] t by auto
  then show thesis
    using that scratch_gather [OF bs(2,1) log_small [OF inv B], of "umem_of s t" r] by (simp add: view_def)
qed

lemma fetched_result:
  assumes "driver_inv C B s" and "B * begun s \<le> 2147483647" and "stage_of s t = Fetched arg mb r"
  shows "write_cmd r > 10 \<Longrightarrow> seek_gather (view s t) mb r = Inr None"
    and "write_cmd r \<le> 10 \<Longrightarrow> length (asked_for (ten_last s) r) \<le> 500 \<Longrightarrow>
      \<exists>h n. seek_gather (view s t) mb r = Inr (Some (h, n))"
proof -
  obtain bs where eq: "seek_gather (view s t) mb r =
    (if write_cmd r > 10 then Inr None
     else if length (asked_for (ten_last s) r) \<le> 500
     then Inr (Some ((heap (module s))(mb \<mapsto> Bytes (asked_for (ten_last s) r @
       drop (length (asked_for (ten_last s) r)) bs)), length (asked_for (ten_last s) r)))
     else Inl OutOfBounds)"
    by (rule fetched_gather [OF assms]) (rule that)
  show "write_cmd r > 10 \<Longrightarrow> seek_gather (view s t) mb r = Inr None" unfolding eq by simp
  show "write_cmd r \<le> 10 \<Longrightarrow> length (asked_for (ten_last s) r) \<le> 500 \<Longrightarrow>
      \<exists>h n. seek_gather (view s t) mb r = Inr (Some (h, n))"
    unfolding eq by (simp add: leD)
qed

lemma gather_part:
  assumes inv: "driver_inv C B s" and B: "B * begun s \<le> 2147483647" and t: "stage_of s t = Fetched arg mb r"
    and h: "seek_gather (view s t) mb r = Inr (Some (h, n))"
  shows "driver_inv C B (goto s t (Gathered arg mb r n) ((view s t)\<lparr>heap := h\<rparr>))"
proof -
  let ?out = "asked_for (ten_last s) r"
  obtain bs where bs: "scratch (module s) (ten_last s) (collected s) mb bs"
    and h': "write_cmd r \<le> 10" "length ?out \<le> 500" "n = length ?out"
      "h = (heap (module s))(mb \<mapsto> Bytes (?out @ drop (length ?out) bs))"
    by (rule fetched_gather [OF inv B t]) (use h in \<open>auto split: if_splits\<close>)
  let ?k = "(view s t)\<lparr>heap := h\<rparr>"
  have sc: "scratch ?k (ten_last s) (collected s) mb (?out @ drop (length ?out) bs)"
    using scratch_write [OF bs, of "?out @ drop (length ?out) bs"] h'(4)
      scratch_cong [of ?k "module s\<lparr>heap := h\<rparr>"] by (simp add: view_def)
  then have dev: "device ?k (ten_last s) (collected s)" by (simp add: scratch_def)
  have req: "is_request (umem_of s t) arg r" using stage_okD [OF inv, of t] t by simp
  have "mb \<in> dom (heap (module s))" using bs by (auto simp: scratch_def)
  then have card: "card (dom h) = blocks s" using h'(4) by (simp add: blocks_def insert_absorb)
  moreover have "blocks s \<le> C + 2 * begun s" using inv by (simp add: driver_inv_def size_inv_def)
  ultimately show ?thesis
    by (intro inside_step [OF inv _ _ _ _ shows_ring(1) [OF dev]])
      (use t h' sc scratch_circ [OF bs] req in \<open>auto simp: same_rest_def\<close>)
qed

lemma refuse_part:
  assumes inv: "driver_inv C B s" and t: "stage_of s t = Fetched arg mb r"
  shows "driver_inv C B (return s t ret)"
proof -
  have dev: "device (module s) (ten_last s) (collected s)"
    using stage_okD [OF inv, of t] t by (auto simp: scratch_def)
  have "driver_inv C B (return (s\<lparr>module := module s\<rparr>) t ret)"
    by (rule leave_part [OF inv _ _ _ _ shows_ring(1) [OF dev]]) (use t dev in \<open>simp_all add: blocks_def\<close>)
  then show ?thesis by simp
qed

lemma gathered_finish:
  assumes inv: "driver_inv C B s" and t: "stage_of s t = Gathered arg mb r n" and K: "kernel_ok K"
  obtains um where "seek_finish K (view s t) mb arg r (heap (view s t), n) =
      Inr (0, mutex_unlock ((view s t)\<lparr>heap := (heap (module s))(mb := None), user := um\<rparr>))"
proof -
  obtain rest where sc: "scratch (module s) (ten_last s) (collected s) mb (asked_for (ten_last s) r @ rest)"
    and n: "n = length (asked_for (ten_last s) r)"
    using stage_okD [OF inv, of t] t by auto
  then show thesis
    using that seek_finish_any [OF K, of "view s t" mb "asked_for (ten_last s) r" rest arg r]
    by (auto simp: scratch_def)
qed

lemma answer_part:
  assumes inv: "driver_inv C B s" and t: "stage_of s t = Gathered arg mb r n" and K: "kernel_ok K"
    and k: "seek_finish K (view s t) mb arg r (heap (view s t), n) = Inr (ret, k)"
  shows "driver_inv C B (return (s\<lparr>module := k, umem_of := (umem_of s)(t := user k)\<rparr>) t ret)"
proof -
  obtain bs where sc: "scratch (module s) (ten_last s) (collected s) mb bs"
    using stage_okD [OF inv, of t] t by auto
  obtain um where k': "k = mutex_unlock ((view s t)\<lparr>heap := (heap (module s))(mb := None), user := um\<rparr>)"
    by (rule gathered_finish [OF inv t K]) (use k in auto)
  have "device (module s\<lparr>heap := (heap (module s))(mb := None)\<rparr>) (ten_last s) (collected s)"
    using sc by (simp add: scratch_def)
  then have dev: "device k (ten_last s) (collected s)"
    by (simp add: k' mutex_unlock_def device_def idle_def collecting_def)
  have "card (dom ((heap (module s))(mb := None))) \<le> blocks s"
    by (cases "finite (dom (heap (module s)))") (auto simp: blocks_def intro: card_mono)
  then show ?thesis
    by (intro leave_step [OF inv _ _ _ _ shows_ring(1) [OF dev]])
      (use t scratch_circ [OF sc] dev in \<open>auto simp: k' mutex_unlock_def\<close>)
qed

section \<open>Every step keeps the invariant\<close>

text \<open>The kernel and the bounds: room for two blocks per call that took the mutex, and for the bytes of all writes.\<close>

definition served :: "kernel \<Rightarrow> nat \<Rightarrow> nat \<Rightarrow> machine \<Rightarrow> bool" where
  "served K C B s \<longleftrightarrow> kernel_ok K \<and> kernel_room K (C + 2 * begun s) \<and> B * begun s \<le> 2147483647"

lemma driver_inv_step:
  assumes step: "driver_step K s s'" and inv: "driver_inv C B s" and K: "served K C B s"
  shows "driver_inv C B s'"
  using step
proof (cases rule: driver_step.cases)
  case (interrupted t buf count cs k)
  have s': "s' = return (s\<lparr>module := view s t, calls_of := (calls_of s)(t := cs)\<rparr>) t (- ERESTARTSYS)"
    using interrupted by (simp add: mutex_lock_interruptible_def)
  show ?thesis unfolding s'
    by (rule outside_step [OF inv, of _ t]) (use interrupted in \<open>auto simp: return_def\<close>)
next
  case (ask_interrupted t arg cs k)
  have s': "s' = return (s\<lparr>module := view s t, calls_of := (calls_of s)(t := cs)\<rparr>) t (- ERESTARTSYS)"
    using ask_interrupted by (simp add: mutex_lock_interruptible_def)
  show ?thesis unfolding s'
    by (rule outside_step [OF inv, of _ t]) (use ask_interrupted in \<open>auto simp: return_def\<close>)
next
  case (read_begin t buf count cs)
  show ?thesis unfolding read_begin(1)
    by (rule outside_step [OF inv, of _ t]) (use read_begin in auto)
next
  case (seek_begin t off whence cs)
  show ?thesis unfolding seek_begin(1)
    by (rule outside_step [OF inv, of _ t]) (use seek_begin in auto)
next
  case (seek t off whence v r f)
  show ?thesis unfolding seek(1)
    by (rule outside_step [OF inv, of _ t]) (use seek in auto)
next
  case (no_command t cmd arg cs)
  show ?thesis unfolding no_command(1)
    by (rule outside_step [OF inv, of _ t]) (use no_command in auto)
next
  case (ask t arg cs k)
  then show ?thesis using ask_part [OF inv] by simp
next
  case (fetch t arg mb r k)
  then show ?thesis using fetch_part [OF inv fetch(2), of K "C + 2 * begun s"] K by (simp add: served_def)
next
  case (gather t arg mb r h n)
  then show ?thesis using gather_part [OF inv] K by (simp add: served_def)
next
  case (refuse t arg mb r)
  then show ?thesis using refuse_part [OF inv] by simp
next
  case (answer t arg mb r n ret k)
  then show ?thesis using answer_part [OF inv answer(2) _ answer(3)] K by (simp add: served_def)
next
  case (at_end t buf count v)
  show ?thesis unfolding at_end(1)
    by (rule outside_step [OF inv, of _ t]) (use at_end in auto)
next
  case (look_up t buf count v src)
  have "length (concat (completed s)) < 2 ^ 64"
    using sizes(2) [OF inv] K by (simp add: served_def)
  then show ?thesis unfolding look_up(1)
    by (intro outside_step [OF inv, of _ t]) (use look_up in \<open>auto intro: located_ok_found\<close>)
next
  case (deliver t buf src g bytes r pos k)
  show ?thesis unfolding deliver(1)
    by (rule outside_step [OF inv, of _ t]) (use deliver in auto)
next
  case (lock t buf count cs k)
  then show ?thesis using lock_part [OF inv] by simp
next
  case (new_entry t buf count k)
  then show ?thesis using new_entry_part [OF inv new_entry(2), of K "C + 2 * begun s"] K by (auto simp: served_def)
next
  case (grow t buf count k)
  then show ?thesis using grow_part [OF inv grow(2), of K "C + 2 * begun s"] K by (auto simp: served_def)
next
  case (copy_in t buf count k)
  have "user_mapped (umem_of s t) buf (unat count)"
    using copy_left [OF inv copy_in(2) _ copy_in(3)] K by (simp add: served_def)
  then obtain bs where "user_at (umem_of s t) buf (unat count) = map Some bs" using user_mapped_at by blast
  then show ?thesis using copy_part [OF inv copy_in(2), of K] copy_in K by (auto simp: served_def)
next
  case (copy_fails t buf count left k)
  then show ?thesis using copy_fails_part(2) [OF inv copy_fails(2) _ copy_fails(3,4)] K by (simp add: served_def)
next
  case (scan t buf count e terminated k)
  then show ?thesis using scan_part [OF inv scan(2)] K by (auto simp: served_def)
next
  case (keep t buf count bs)
  then show ?thesis
    using keep_part [OF inv keep(2), of K] K inj_Some unfolding served_def by (metis inj_map_eq_map)
next
  case (begin_update t buf count)
  then show ?thesis using begin_part [OF inv] by simp
next
  case (commit t buf count k bs)
  then show ?thesis
    using commit_part [OF inv commit(2), of K "Suc (updates s)"] K unfolding served_def
    by (metis inj_Some inj_map_eq_map sum.inject(2))
next
  case (unlock t count)
  then show ?thesis using unlock_part [OF inv] by simp
qed

end
