(* ===== verification/Driver_Alone.thy ===== *)
theory Driver_Alone
  imports Driver_Invariant
begin

text \<open>
  A process that makes a call with no other process in between: its steps in \<open>Driver_Interleaving\<close>
  give the result and the state of the functions of \<open>Char_Driver\<close> and \<open>Seek_Ioctl\<close>.
\<close>

section \<open>Running alone\<close>

lemma driver_steps_one: "driver_step K s s' \<Longrightarrow> driver_steps K s s'"
  using driver_steps.step [OF driver_steps.refl] .

lemma driver_steps_trans:
  assumes "driver_steps K s' s''" and "driver_steps K s s'"
  shows "driver_steps K s s''"
  using assms by induction (auto intro: driver_steps.step)

text \<open>The parts of a write do not touch the memory of the process.\<close>

lemma user_kept:
  "write_new_entry K s = Inr k \<Longrightarrow> user k = user s"
  "write_grow K s count = Inr k \<Longrightarrow> user k = user s"
  "write_copy_in K s buf count = Inr (left, k) \<Longrightarrow> user k = user s"
  "write_commit K s = Inr k \<Longrightarrow> user k = user s"
  by (auto simp: write_new_entry_def write_grow_def write_copy_in_def write_commit_def Let_def res_simps
      split_beta split: if_splits)

lemma user_kept_scan: "write_scan s p start i count trm = Inr (b, k) \<Longrightarrow> user k = user s"
proof (induction s p start i count trm rule: write_scan.induct)
  case (1 s p start i count trm)
  show ?case
    using 1(2) 1(1) by (subst (asm) write_scan.simps) (fastforce simp: res_simps split: if_splits)
qed

lemma copied_all:
  assumes "write_copy_in K s buf count = Inr (left, k)" and "kernel_ok K"
  shows "left = 0 \<longleftrightarrow> user_mapped (user s) buf (unat count)"
proof -
  obtain bs where "copy_from_user K (user s) buf count = (bs, left)"
    using assms(1) by (cases "copy_from_user K (user s) buf count") (auto simp: write_copy_in_def res_simps)
  then show ?thesis using assms(2) unfolding kernel_ok_def copy_user_ok_def by blast
qed

text \<open>The scan finds the newlines among the bytes that the copy has put behind the collected ones.\<close>

lemma scan_result:
  "write_scan s p start i count trm = Inr (b, k) \<Longrightarrow> heap s p = Some (Bytes blk) \<Longrightarrow>
    b = (trm \<or> newline \<in> set (take (unat count - i) (drop (start + i) blk)))"
proof (induction s p start i count trm rule: write_scan.induct)
  case (1 s p start i count trm)
  show ?case
  proof (cases "i < unat count")
    case False
    then show ?thesis using 1(2) by (subst (asm) write_scan.simps) simp
  next
    case True
    then obtain c e h where step: "rd_range (heap s) p (start + i) 1 = Inr c"
      "get_entry (heap s) (read_buf (dev s)) = Inr e"
      "put_entry (heap s) (read_buf (dev s)) (e\<lparr>esize := esize e + 1\<rparr>) = Inr h"
      "guardE IntOverflow (i < 2147483647) = Inr ()"
      "write_scan (s\<lparr>heap := h\<rparr>) p start (Suc i) count (trm \<or> c = [newline]) = Inr (b, k)"
      using 1(2) by (subst (asm) write_scan.simps) (auto simp: res_simps)
    have "heap s (read_buf (dev s)) = Some (EntryObj e)"
      using step(2) by (auto simp: get_entry_def split: option.splits kobj.splits)
    then have h: "h p = Some (Bytes blk)"
      using step(3) 1(3) by (auto simp: put_entry_def split: if_splits)
    have c: "start + i < length blk" "c = [blk ! (start + i)]"
      using step(1) 1(3) by (auto simp: rd_range_def get_bytes_def take_Suc_conv_app_nth hd_drop_conv_nth take_Suc
          split: if_splits)
    have "take (unat count - i) (drop (start + i) blk) =
        blk ! (start + i) # take (unat count - Suc i) (drop (start + Suc i) blk)"
      using True c(1) by (simp add: Cons_nth_drop_Suc [symmetric] Suc_diff_Suc [symmetric])
    moreover have "b = ((trm \<or> c = [newline]) \<or> newline \<in> set (take (unat count - Suc i) (drop (start + Suc i) blk)))"
      by (rule 1(1) [OF True, of h]) (use step(5) h in simp_all)
    ultimately show ?thesis using c(2) by auto
  qed
qed

lemma scan_copied:
  assumes copy: "write_copy_in K s buf count = Inr (0, s1)" and K: "kernel_ok K"
    and e: "get_entry (heap s1) (read_buf (dev s1)) = Inr e"
    and scan: "write_scan s1 (buffptr e) (unat (esize e)) 0 count False = Inr (trm, k)"
  shows "trm = (Some newline \<in> set (user_at (user s) buf (unat count)))"
proof -
  obtain bs left where c: "copy_from_user K (user s) buf count = (bs, left)" by (metis surj_pair)
  obtain e' h where e': "get_entry (heap s) (read_buf (dev s)) = Inr e'"
    "wr_range (heap s) (buffptr e') (unat (esize e')) bs = Inr h" "left = 0" "s1 = s\<lparr>heap := h\<rparr>"
    using copy c by (auto simp: write_copy_in_def res_simps)
  obtain old where old: "heap s (buffptr e') = Some (Bytes old)" "unat (esize e') + length bs \<le> length old"
    "h = (heap s)(buffptr e' \<mapsto> Bytes (take (unat (esize e')) old @ bs @ drop (unat (esize e') + length bs) old))"
    using e'(2) by (auto simp: wr_range_def get_bytes_def res_simps split: option.splits kobj.splits if_splits)
  have "e' = e" using e e'(1,4) old(1,3) by (auto simp: get_entry_def split: option.splits kobj.splits if_splits)
  then have "heap s1 (buffptr e) = Some (Bytes (take (unat (esize e)) old @ bs @ drop (unat (esize e) + length bs) old))"
    using e'(4) old(3) by simp
  moreover have bs: "length bs = unat count" "map Some bs = user_at (user s) buf (unat count)"
    using K c e'(3) unfolding kernel_ok_def copy_user_ok_def by blast+
  ultimately have "trm = (newline \<in> set bs)"
    using scan_result [OF scan] old(2) \<open>e' = e\<close> by simp
  then show ?thesis unfolding bs(2) [symmetric] by auto
qed

text \<open>A write without another process in between, from the lock to its return.\<close>

definition after_write :: "machine \<Rightarrow> nat \<Rightarrow> ptr \<Rightarrow> size_t \<Rightarrow> kstate \<Rightarrow> c_long \<Rightarrow> call list \<Rightarrow> machine" where
  "after_write s t buf count k r cs = s\<lparr>module := k, calls_of := (calls_of s)(t := cs),
     rets_of := (rets_of s)(t := rets_of s t @ [r]), begun := Suc (begun s),
     order := (if user_mapped (umem_of s t) buf (unat count)
       then order s @ [(t, map the (user_at (umem_of s t) buf (unat count)))] else order s),
     updates := (if user_mapped (umem_of s t) buf (unat count) \<and>
       Some newline \<in> set (user_at (umem_of s t) buf (unat count)) then updates s + 2 else updates s)\<rparr>"

lemma view_goto: "user k = umem_of s t \<Longrightarrow> view (goto s t p k) t = k"
  by (simp add: view_def)

lemma until_copy:
  assumes k: "mutex_lock_interruptible False (view s t) = Inr (False, k1)" "write_new_entry K k1 = Inr k2"
      "write_grow K k2 count = Inr k3"
    and t: "stage_of s t = Outside" "calls_of s t = WriteCall buf count # cs"
  shows "driver_steps K s (s\<lparr>module := k3, stage_of := (stage_of s)(t := Grown buf count),
      calls_of := (calls_of s)(t := cs), begun := Suc (begun s)\<rparr>)" (is "driver_steps K s ?s")
    and "user k3 = umem_of s t"
proof -
  have um: "user k1 = umem_of s t" using k(1) by (auto simp: mutex_lock_interruptible_def split: if_splits)
  then have um2: "user k2 = umem_of s t" using user_kept(1) [OF k(2)] by simp
  then show "user k3 = umem_of s t" using user_kept(2) [OF k(3)] by simp
  define s1 where "s1 = goto (s\<lparr>calls_of := (calls_of s)(t := cs), begun := Suc (begun s)\<rparr>) t (Locked buf count) k1"
  have s1: "driver_steps K s s1" unfolding s1_def by (rule driver_steps_one, rule driver_step.lock [OF t k(1)])
  define s2 where "s2 = goto s1 t (HasEntry buf count) k2"
  have s2: "driver_steps K s s2" unfolding s2_def
    by (rule driver_steps.step [OF s1 driver_step.new_entry]) (simp_all add: s1_def view_goto um k)
  have "driver_steps K s (goto s2 t (Grown buf count) k3)"
    by (rule driver_steps.step [OF s2 driver_step.grow]) (simp_all add: s1_def s2_def view_goto um2 k)
  moreover have "goto s2 t (Grown buf count) k3 = ?s" by (simp add: s1_def s2_def goto_def)
  ultimately show "driver_steps K s ?s" by simp
qed

lemma after_copy:
  assumes t: "stage_of s t = CopiedIn buf count"
    and k: "get_entry (heap (view s t)) (read_buf (dev (view s t))) = Inr e"
      "write_scan (view s t) (buffptr e) (unat (esize e)) 0 count False = Inr (trm, k1)"
      "(if trm then write_commit K k1 else Inr k1) = Inr k2"
    and bs: "map Some bs = user_at (umem_of s t) buf (unat count)"
  shows "driver_steps K s (s\<lparr>module := mutex_unlock k2, stage_of := (stage_of s)(t := Outside),
      order := order s @ [(t, bs)], rets_of := (rets_of s)(t := rets_of s t @ [count]),
      updates := (if trm then updates s + 2 else updates s)\<rparr>)"
    (is "driver_steps K s ?s")
proof -
  have um: "user k1 = umem_of s t" using user_kept_scan [OF k(2)] by simp
  then have um2: "user k2 = umem_of s t" using k(3) user_kept(4) by (auto split: if_splits)
  define s1 where "s1 = goto s t (Scanned buf count trm) k1"
  have s1: "driver_steps K s s1" unfolding s1_def
    by (rule driver_steps_one, rule driver_step.scan [OF t k(1,2)])
  have v1: "view s1 t = k1" "stage_of s1 t = Scanned buf count trm" "umem_of s1 t = umem_of s t"
    by (simp_all add: s1_def view_goto um)
  define s2 where "s2 = goto (s1\<lparr>order := order s1 @ [(t, bs)],
    updates := (if trm then updates s + 2 else updates s)\<rparr>) t (Finished count) k2"
  have s2: "driver_steps K s s2"
  proof (cases trm)
    case False
    have "stage_of s1 t = Scanned buf count False" using v1(2) False by simp
    from driver_step.keep [OF this, of bs K] have
      "driver_step K s1 (goto (s1\<lparr>order := order s1 @ [(t, bs)]\<rparr>) t (Finished count) k1)"
      by (simp add: v1 bs)
    moreover have "s2 = goto (s1\<lparr>order := order s1 @ [(t, bs)]\<rparr>) t (Finished count) k1"
      using False k(3) by (simp add: s2_def s1_def goto_def)
    ultimately show ?thesis using driver_steps.step [OF s1] by simp
  next
    case True
    define s1' where "s1' = goto (s1\<lparr>updates := Suc (updates s1)\<rparr>) t (Committing buf count) k1"
    have "driver_step K s1 s1'"
      using driver_step.begin_update [of s1 t buf count K] v1 True by (simp add: s1'_def)
    with s1 have s1': "driver_steps K s s1'" by (rule driver_steps.step)
    have "view s1' t = k1" "stage_of s1' t = Committing buf count" "umem_of s1' t = umem_of s t"
      using v1 um by (simp_all add: s1'_def view_goto)
    then have "driver_step K s1' (goto (s1'\<lparr>order := order s1' @ [(t, bs)], updates := Suc (updates s1')\<rparr>)
        t (Finished count) k2)"
      using k(3) True bs by (intro driver_step.commit) simp_all
    moreover have "s2 = goto (s1'\<lparr>order := order s1' @ [(t, bs)], updates := Suc (updates s1')\<rparr>) t (Finished count) k2"
      using True by (simp add: s2_def s1'_def s1_def goto_def)
    ultimately show ?thesis using driver_steps.step [OF s1'] by simp
  qed
  have v2: "view s2 t = k2" by (simp add: s2_def s1_def view_goto um2)
  have "driver_steps K s (return (s2\<lparr>module := mutex_unlock (view s2 t)\<rparr>) t count)"
    by (rule driver_steps.step [OF s2 driver_step.unlock]) (simp add: s2_def)
  moreover have "return (s2\<lparr>module := mutex_unlock (view s2 t)\<rparr>) t count = ?s"
    unfolding v2 by (simp add: s1_def s2_def return_def goto_def)
  ultimately show ?thesis by simp
qed

lemma write_alone:
  assumes w: "aesd_write K False (view s t) (file_of K s t) buf count = Inr (r, k)" and K: "kernel_ok K"
    and t: "stage_of s t = Outside" "calls_of s t = WriteCall buf count # cs"
  shows "driver_steps K s (after_write s t buf count k r cs) \<and>
    r = (if user_mapped (umem_of s t) buf (unat count) then count else - EFAULT)"
proof -
  obtain k1 k2 k3 left k4 where k1: "mutex_lock_interruptible False (view s t) = Inr (False, k1)"
    and k: "write_new_entry K k1 = Inr k2" "write_grow K k2 count = Inr k3" "write_copy_in K k3 buf count = Inr (left, k4)"
    and last: "(if left \<noteq> 0 then Inr (- EFAULT, k4)
      else bindE (get_entry (heap k4) (read_buf (dev k4))) (\<lambda>e.
        bindE (write_scan k4 (buffptr e) (unat (esize e)) 0 count False) (\<lambda>(terminated, s).
        bindE (if terminated then write_commit K s else Inr s) (\<lambda>s. Inr (count, mutex_unlock s))))) = Inr (r, k)"
    using w by (auto simp: aesd_write_def res_simps mutex_lock_interruptible_def split: if_splits)
  let ?s = "s\<lparr>module := k3, stage_of := (stage_of s)(t := Grown buf count),
      calls_of := (calls_of s)(t := cs), begun := Suc (begun s)\<rparr>"
  have s3: "driver_steps K s ?s" and um: "user k3 = umem_of s t"
    using until_copy [OF k1 k(1,2) t] by blast+
  have v: "view ?s t = k3" by (simp add: view_def um [symmetric])
  note copied = copied_all [OF k(3) K, unfolded um]
  show ?thesis
  proof (cases "left = 0")
    case False
    then have r: "r = - EFAULT" "k = k4" using last by auto
    have "driver_steps K s (return (?s\<lparr>module := k4\<rparr>) t (- EFAULT))"
      by (rule driver_steps.step [OF s3 driver_step.copy_fails [where left = left and buf = buf and count = count]])
        (simp_all add: False v k del: fun_upd_apply add: fun_upd_same)
    moreover have "return (?s\<lparr>module := k4\<rparr>) t (- EFAULT) = after_write s t buf count k r cs"
      using t(1) r copied False by (simp add: after_write_def return_def fun_upd_idem)
    ultimately show ?thesis using r copied False by simp
  next
    case True
    obtain e trm k5 k6 where k5: "get_entry (heap k4) (read_buf (dev k4)) = Inr e"
      "write_scan k4 (buffptr e) (unat (esize e)) 0 count False = Inr (trm, k5)"
      "(if trm then write_commit K k5 else Inr k5) = Inr k6" and r: "r = count" "k = mutex_unlock k6"
      using last True by (auto simp: res_simps)
    let ?s4 = "goto ?s t (CopiedIn buf count) k4"
    have s4: "driver_steps K s ?s4"
      by (rule driver_steps.step [OF s3 driver_step.copy_in]) (simp_all add: v k True)
    have v4: "view ?s4 t = k4" using user_kept(3) [OF k(3)] um by (simp add: view_goto)
    have trm: "trm = (Some newline \<in> set (user_at (umem_of s t) buf (unat count)))"
      using scan_copied [OF _ K k5(1,2)] k(3) True um by simp
    define bs where "bs = map the (user_at (umem_of s t) buf (unat count))"
    have bs: "map Some bs = user_at (umem_of s t) buf (unat count)"
      using copied True user_mapped_at by (fastforce simp: bs_def)
    have "driver_steps K ?s4 (?s4\<lparr>module := mutex_unlock k6, stage_of := (stage_of ?s4)(t := Outside),
        order := order ?s4 @ [(t, bs)], rets_of := (rets_of ?s4)(t := rets_of ?s4 t @ [count]),
        updates := (if trm then updates ?s4 + 2 else updates ?s4)\<rparr>)"
      (is "driver_steps K ?s4 ?s7")
      by (rule after_copy [of _ _ _ _ e trm k5]) (simp_all only: v4 k5, simp_all add: bs)
    from driver_steps_trans [OF this s4] have "driver_steps K s ?s7" .
    moreover have "?s7 = after_write s t buf count k r cs"
      using t(1) r copied True trm by (simp add: after_write_def goto_def fun_upd_idem bs_def)
    ultimately show ?thesis using r copied True by simp
  qed
qed

definition after_read :: "machine \<Rightarrow> nat \<Rightarrow> c_long \<Rightarrow> loff_t \<Rightarrow> umem \<Rightarrow> call list \<Rightarrow> machine" where
  "after_read s t r pos um cs = s\<lparr>umem_of := (umem_of s)(t := um), fpos_of := (fpos_of s)(t := pos),
     calls_of := (calls_of s)(t := cs), rets_of := (rets_of s)(t := rets_of s t @ [r])\<rparr>"

lemma read_call_alone:
  assumes r: "aesd_read K (view s t) (file_of K s t) buf count (fpos_of s t) = Inr (r, pos, k)"
    and t: "stage_of s t = Outside" "calls_of s t = ReadCall buf count # cs" and quiet: "even (updates s)"
  shows "driver_steps K s (after_read s t r pos (user k) cs)"
proof -
  obtain found where found: "read_locate K (view s t) (file_of K s t) count (fpos_of s t) = Inr found"
    and rest: "(case found of None \<Rightarrow> Inr (0, fpos_of s t, view s t)
      | Some src \<Rightarrow> read_deliver K (view s t) buf (fpos_of s t) src) = Inr (r, pos, k)"
    using r by (auto simp: aesd_read_parts res_simps)
  define s1 where "s1 = goto (s\<lparr>calls_of := (calls_of s)(t := cs)\<rparr>) t (Looking buf count (updates s)) (module s)"
  have s1: "driver_steps K s s1" unfolding s1_def by (rule driver_steps_one, rule driver_step.read_begin [OF t])
  have t1: "stage_of s1 t = Looking buf count (updates s)" "undisturbed s1 (updates s)"
    and same: "view s1 t = view s t" "file_of K s1 t = file_of K s t" "fpos_of s1 t = fpos_of s t"
    using quiet by (simp_all add: s1_def undisturbed_def view_def file_of_def)
  show ?thesis
  proof (cases found)
    case None
    then have "driver_steps K s (return s1 t 0)"
      using driver_step.at_end [OF t1, of K] found driver_steps.step [OF s1] by (simp add: same)
    moreover have "return s1 t 0 = after_read s t r pos (user k) cs"
      using None rest t(1) by (auto simp: s1_def return_def goto_def after_read_def fun_upd_idem view_def)
    ultimately show ?thesis by simp
  next
    case (Some src)
    let ?s = "goto s1 t (Located buf src (found_number s1 t) (found_bytes s1 t count)) (module s1)"
    have "driver_steps K s ?s"
      using driver_step.look_up [OF t1, of K] found Some driver_steps.step [OF s1] by (simp add: same)
    moreover have "read_deliver K (view ?s t) buf (fpos_of ?s t) src = Inr (r, pos, k)"
      using rest Some by (simp add: s1_def view_def goto_def)
    then have "driver_step K ?s (return (?s\<lparr>umem_of := (umem_of ?s)(t := user k),
        fpos_of := (fpos_of ?s)(t := pos)\<rparr>) t r)" (is "driver_step K ?s ?s'")
      by (intro driver_step.deliver) simp_all
    ultimately have "driver_steps K s ?s'" by (rule driver_steps.step)
    moreover have "?s' = after_read s t r pos (user k) cs"
      using t(1) by (simp add: s1_def return_def goto_def after_read_def fun_upd_idem)
    ultimately show ?thesis by simp
  qed
qed

text \<open>A seek, and a seek command.\<close>

definition after_seek :: "machine \<Rightarrow> nat \<Rightarrow> loff_t \<Rightarrow> struct_file \<Rightarrow> call list \<Rightarrow> machine" where
  "after_seek s t r f cs = s\<lparr>fpos_of := (fpos_of s)(t := f_pos f), calls_of := (calls_of s)(t := cs),
     rets_of := (rets_of s)(t := rets_of s t @ [r])\<rparr>"

lemma seek_alone:
  assumes t: "stage_of s t = Outside" "calls_of s t = SeekCall off whence # cs"
    and r: "aesd_llseek K (view s t) (file_of K s t) off whence = Inr (r, f)"
    and quiet: "whence = 2 \<longrightarrow> even (updates s)"
  shows "driver_steps K s (after_seek s t r f cs)"
proof -
  define s1 where "s1 = goto (s\<lparr>calls_of := (calls_of s)(t := cs)\<rparr>) t (Seeking off whence (updates s)) (module s)"
  have s1: "driver_steps K s s1" unfolding s1_def by (rule driver_steps_one, rule driver_step.seek_begin [OF t])
  have "stage_of s1 t = Seeking off whence (updates s)" "whence = 2 \<longrightarrow> undisturbed s1 (updates s)"
    "aesd_llseek K (view s1 t) (file_of K s1 t) off whence = Inr (r, f)"
    using quiet r by (simp_all add: s1_def undisturbed_def view_def file_of_def)
  from driver_steps.step [OF s1 driver_step.seek [OF this]]
  have "driver_steps K s (return (s1\<lparr>fpos_of := (fpos_of s1)(t := f_pos f)\<rparr>) t r)" .
  moreover have "return (s1\<lparr>fpos_of := (fpos_of s1)(t := f_pos f)\<rparr>) t r = after_seek s t r f cs"
    using t(1) by (simp add: s1_def return_def goto_def after_seek_def fun_upd_idem)
  ultimately show ?thesis by simp
qed

definition after_ioctl :: "machine \<Rightarrow> nat \<Rightarrow> u32 \<Rightarrow> kstate \<Rightarrow> c_long \<Rightarrow> call list \<Rightarrow> machine" where
  "after_ioctl s t cmd k r cs =
     (if cmd = AESDCHAR_IOCSEEKTO
      then s\<lparr>module := k, umem_of := (umem_of s)(t := user k), calls_of := (calls_of s)(t := cs),
        rets_of := (rets_of s)(t := rets_of s t @ [r]), begun := Suc (begun s)\<rparr>
      else s\<lparr>calls_of := (calls_of s)(t := cs), rets_of := (rets_of s)(t := rets_of s t @ [r])\<rparr>)"

lemma until_fetched:
  assumes t: "stage_of s t = Outside" "calls_of s t = IoctlCall AESDCHAR_IOCSEEKTO arg # cs"
    and k: "mutex_lock_interruptible False (view s t) = Inr (False, k1)" "seek_fetch K k1 arg = (mb, q, k2)"
  shows "driver_steps K s (s\<lparr>module := k2, stage_of := (stage_of s)(t := Fetched arg mb q),
      calls_of := (calls_of s)(t := cs), begun := Suc (begun s)\<rparr>)" (is "driver_steps K s ?s")
    and "user k2 = umem_of s t"
proof -
  have um: "user k1 = umem_of s t" using k(1) by (auto simp: mutex_lock_interruptible_def split: if_splits)
  then show "user k2 = umem_of s t" using k(2) by (auto simp: seek_fetch_def split: prod.splits)
  define s1 where "s1 = goto (s\<lparr>calls_of := (calls_of s)(t := cs), begun := Suc (begun s)\<rparr>) t (Asked arg) k1"
  have s1: "driver_steps K s s1" unfolding s1_def by (rule driver_steps_one, rule driver_step.ask [OF t k(1)])
  have "driver_steps K s (goto s1 t (Fetched arg mb q) k2)"
    by (rule driver_steps.step [OF s1 driver_step.fetch]) (simp_all add: s1_def view_goto um k)
  moreover have "goto s1 t (Fetched arg mb q) k2 = ?s" by (simp add: s1_def goto_def)
  ultimately show "driver_steps K s ?s" by simp
qed

lemma ioctl_alone:
  assumes i: "aesd_ioctl K False (view s t) (file_of K s t) cmd arg = Inr (r, k)"
    and t: "stage_of s t = Outside" "calls_of s t = IoctlCall cmd arg # cs"
  shows "driver_steps K s (after_ioctl s t cmd k r cs)"
proof (cases "cmd = AESDCHAR_IOCSEEKTO")
  case False
  then have "r = 0" using i by (simp add: aesd_ioctl_def)
  moreover have "return (s\<lparr>calls_of := (calls_of s)(t := cs)\<rparr>) t 0 = after_ioctl s t cmd k 0 cs"
    using t(1) False by (simp add: return_def after_ioctl_def fun_upd_idem)
  ultimately show ?thesis using driver_steps_one [OF driver_step.no_command [OF t False]] by simp
next
  case True
  note t' = t [unfolded True]
  obtain k1 mb q k2 where k1: "mutex_lock_interruptible False (view s t) = Inr (False, k1)"
    and k2: "seek_fetch K k1 arg = (mb, q, k2)"
    and last: "bindE (seek_gather k2 mb q) (\<lambda>r. case r of None \<Rightarrow> Inr (- EINVAL, k2)
      | Some r \<Rightarrow> seek_finish K k2 mb arg q r) = Inr (r, k)"
    using i True by (auto simp: aesd_ioctl_def seek_command_def res_simps mutex_lock_interruptible_def
        split: if_splits prod.splits)
  let ?s = "s\<lparr>module := k2, stage_of := (stage_of s)(t := Fetched arg mb q),
      calls_of := (calls_of s)(t := cs), begun := Suc (begun s)\<rparr>"
  have s2: "driver_steps K s ?s" and um: "user k2 = umem_of s t" using until_fetched [OF t' k1 k2] by blast+
  have v: "view ?s t = k2" by (simp add: view_def um [symmetric])
  obtain found where found: "seek_gather k2 mb q = Inr found"
    using last by (auto simp: res_simps)
  show ?thesis
  proof (cases found)
    case None
    then have "driver_steps K s (return ?s t (- EINVAL))"
      using driver_steps.step [OF s2 driver_step.refuse [of ?s t arg mb q]] found v by simp
    moreover have "return ?s t (- EINVAL) = after_ioctl s t cmd k r cs"
      using t(1) True None last found um by (auto simp: return_def after_ioctl_def fun_upd_idem)
    ultimately show ?thesis by simp
  next
    case (Some hn)
    then obtain h n where hn: "found = Some (h, n)" by (cases hn) auto
    define s3 where "s3 = goto ?s t (Gathered arg mb q n) ((view ?s t)\<lparr>heap := h\<rparr>)"
    have s3: "driver_steps K s s3" unfolding s3_def
      by (rule driver_steps.step [OF s2 driver_step.gather]) (simp_all add: v found hn)
    have v3: "view s3 t = k2\<lparr>heap := h\<rparr>" unfolding s3_def v by (simp add: view_def goto_def um [symmetric])
    have "seek_finish K (k2\<lparr>heap := h\<rparr>) mb arg q (h, n) = seek_finish K k2 mb arg q (h, n)"
      by (simp add: seek_finish_def)
    then have "seek_finish K (view s3 t) mb arg q (heap (view s3 t), n) = Inr (r, k)"
      using last found hn by (simp add: v3)
    then have "driver_steps K s (return (s3\<lparr>module := k, umem_of := (umem_of s3)(t := user k)\<rparr>) t r)"
      by (intro driver_steps.step [OF s3 driver_step.answer]) (simp_all add: s3_def)
    moreover have "return (s3\<lparr>module := k, umem_of := (umem_of s3)(t := user k)\<rparr>) t r =
        after_ioctl s t cmd k r cs"
      using t(1) True by (simp add: s3_def return_def goto_def after_ioctl_def fun_upd_idem)
    ultimately show ?thesis by simp
  qed
qed

end
