(* ===== verification/Driver_Schedules.thy ===== *)
theory Driver_Schedules
  imports Driver_Alone
begin

text \<open>
  What holds for every schedule of processes that write, read, seek and send seek commands to the
  driver: writes take effect one after the other; who has no next step waits for the mutex, has
  looked up the ring during an update, reads a command that was dropped, or asks for more bytes
  than the buffer of a seek command has; reads and seek commands deliver the right bytes, and a
  mutex that an error return leaves locked stays so.
\<close>

section \<open>Reachable states\<close>

definition write_sizes :: "nat \<Rightarrow> (nat \<Rightarrow> call list) \<Rightarrow> bool" where
  "write_sizes B calls \<longleftrightarrow>
     (\<forall>t buf c. WriteCall buf c \<in> set (calls t) \<longrightarrow> 0 < unat c \<and> unat c \<le> B)"

text \<open>After a module start, with writes of one to \<open>B\<close> bytes, within the bounds of \<open>served\<close>.\<close>

definition reachable :: "kernel \<Rightarrow> nat \<Rightarrow> machine \<Rightarrow> bool" where
  "reachable K B s \<longleftrightarrow> (\<exists>k0 k result devno um calls. heap k0 NULL = None \<and> 0 \<le>s result \<and>
     aesd_init_module K result devno 0 k0 = Inr (0, k) \<and> write_sizes B calls \<and>
     driver_steps K (driver_start k um calls) s \<and> served K (card (dom (heap k0)) + 2) B s)"

lemma begun_mono: "driver_step K s s' \<Longrightarrow> begun s \<le> begun s'"
  by (induction rule: driver_step.induct) simp_all

lemma served_mono:
  assumes "served K C B s'" and "begun s \<le> begun s'"
  shows "served K C B s"
proof -
  have "B * begun s \<le> B * begun s'" using assms(2) by simp
  moreover have "kernel_room K (C + 2 * begun s)"
    using assms kernel_room_mono [of K "C + 2 * begun s'" "C + 2 * begun s"] by (simp add: served_def)
  ultimately show ?thesis using assms(1) unfolding served_def by linarith
qed

lemma driver_inv_steps:
  assumes "driver_steps K s s'" and "driver_inv C B s" and "served K C B s'"
  shows "driver_inv C B s'"
  using assms
proof induction
  case (step s' s'')
  have "served K C B s'" using served_mono [OF step.prems(2) begun_mono [OF step.hyps(2)]] .
  then show ?case using driver_inv_step [OF step.hyps(2)] step.IH step.prems(1) by blast
qed

lemma driver_inv_start:
  assumes dev: "device k [] []" and "\<not> lock (dev k)" and "card (dom (heap k)) \<le> C" and "write_sizes B calls"
  shows "driver_inv C B (driver_start k um calls)"
proof -
  let ?s = "driver_start k um calls"
  have fields: "module ?s = k" "\<And>t. stage_of ?s t = Outside" "order ?s = []" "begun ?s = 0"
    "calls_of ?s = calls" "completed ?s = []" "collected ?s = []"
    by (simp_all add: driver_start_def completed_def collected_def)
  have "mutex_inv ?s" by (simp add: mutex_inv_def fields)
  moreover have "ring_inv ?s" using shows_ring(1) [OF dev] by (simp add: ring_inv_def fields)
  moreover have "work_inv C B ?s" using dev assms(2) by (simp add: work_inv_def fields lost_def)
  moreover have "size_inv C B ?s"
    using assms(3,4) unfolding size_inv_def blocks_def fields write_sizes_def by simp
  ultimately show ?thesis by (simp add: driver_inv_def)
qed

lemma reachable_from:
  assumes "reachable K B s"
  obtains C k um calls where "driver_inv C B (driver_start k um calls)" and "driver_steps K (driver_start k um calls) s"
    and "served K C B s"
proof -
  obtain k0 k and result devno :: c_int and um calls where k0: "heap k0 NULL = None" "0 \<le>s result"
    and k: "aesd_init_module K result devno 0 k0 = Inr (0, k)" and calls: "write_sizes B calls"
    and steps: "driver_steps K (driver_start k um calls) s" and K: "served K (card (dom (heap k0)) + 2) B s"
    using assms unfolding reachable_def by blast
  have "kernel_ok K" "kernel_room K (card (dom (heap k0)) + 2)"
    using K kernel_room_mono unfolding served_def by (blast, fastforce)
  then have "device k [] []" "\<not> lock (dev k)" "card (dom (heap k)) \<le> card (dom (heap k0)) + 2"
    using aesd_init_module_ok [OF _ _ k0, of K devno] k by auto
  then have "driver_inv (card (dom (heap k0)) + 2) B (driver_start k um calls)"
    using calls by (rule driver_inv_start)
  then show thesis using that steps K by blast
qed

lemma reachable_inv:
  assumes "reachable K B s"
  obtains C where "driver_inv C B s" and "served K C B s"
  using reachable_from [OF assms] driver_inv_steps by metis

text \<open>The number of begins and ends of updates is odd exactly while a process updates the ring.\<close>

definition committing :: "stage \<Rightarrow> bool" where
  "committing p = (case p of Committing buf c \<Rightarrow> True | _ \<Rightarrow> False)"

lemma committing_simps [simp]:
  "committing (Committing buf c)" "\<not> committing Outside" "\<not> committing (Locked buf c)"
  "\<not> committing (HasEntry buf c)" "\<not> committing (Grown buf c)" "\<not> committing (CopiedIn buf c)"
  "\<not> committing (Scanned buf c trm)" "\<not> committing (Finished c)" "\<not> committing (Looking buf c v)"
  "\<not> committing (Located buf src g bytes)" "\<not> committing (Seeking off whence v)" "\<not> committing (Asked arg)"
  "\<not> committing (Fetched arg mb r)" "\<not> committing (Gathered arg mb r n)"
  by (simp_all add: committing_def)






section \<open>No faults\<close>

lemma located_deliver:
  assumes inv: "driver_inv C B s" and K: "served K C B s" and t: "stage_of s t = Located buf src g bytes"
    and held: "dropped s \<le> g"
  shows "\<exists>p off. src = (p, off, of_nat (length bytes)) \<and>
    rd_range (heap (module s)) p off (length bytes) = Inr bytes \<and> length bytes < 2 ^ 64"
proof -
  obtain b where b: "ring_rep (heap (module s)) b (ten_last s)" "located_ok b s src g bytes"
    using inv t unfolding driver_inv_def ring_inv_def by blast
  obtain p off where ok: "src = (p, off, of_nat (length bytes))" "g < length (completed s)"
    "off + length bytes \<le> length (completed s ! g)" "take (length bytes) (drop off (completed s ! g)) = bytes"
    "buffptr (cb_list b ! (g - dropped s)) = p"
    using b(2) held unfolding located_ok_def by blast
  have i: "g - dropped s < length (ten_last s)" using ok(2) held by (auto simp: dropped_def)
  then have "ten_last s ! (g - dropped s) = completed s ! g"
    using held by (simp add: lastn_nth dropped_def)
  moreover have "holds (heap (module s)) (cb_list b ! (g - dropped s)) (ten_last s ! (g - dropped s))"
    using b(1) i by (auto simp: ring_rep_def list_all2_conv_all_nth)
  ultimately have "heap (module s) p = Some (Bytes (completed s ! g))" using ok(5) by (simp add: holds_def)
  then have read: "rd_range (heap (module s)) p off (length bytes) = Inr bytes"
    using ok(3,4) by (subst rd_range_ok) auto
  have "length (completed s ! g) \<le> length (concat (completed s))"
    using ok(2) by (simp add: length_concat member_le_sum_list)
  moreover have "length (concat (completed s)) \<le> 2147483647"
    using sizes(2) [OF inv] K by (simp add: served_def)
  ultimately have "length bytes \<le> 2147483647" using ok(3) by linarith
  then have "length bytes < 2 ^ 64" by simp
  then show ?thesis using ok(1) read by blast
qed



lemma ten_last_small:
  assumes "driver_inv C B s" and "served K C B s"
  shows "length (concat (ten_last s)) < 2 ^ 64"
proof -
  have "length (concat (completed s)) \<le> 2147483647"
    using sizes(2) [OF assms(1)] assms(2) by (simp add: served_def)
  moreover have "length (concat (ten_last s)) \<le> length (concat (completed s))"
    by (metis append_take_drop_id concat_append lastn_def le_add2 length_append)
  ultimately show ?thesis by simp
qed




section \<open>A mutex left locked\<close>

lemma lost_step:
  assumes step: "driver_step K s s'" and s: "lost s"
  shows "lost s' \<and> order s' = order s \<and> begun s' = begun s"
proof -
  have out: "stage_of s t = p \<Longrightarrow> \<not> inside p" for t p using s by (auto simp: lost_def)
  show ?thesis
    using step
  proof (cases rule: driver_step.cases)
    case (lock t buf count cs k)
    then show ?thesis using s by (auto simp: lost_def mutex_lock_interruptible_def split: if_splits)
  next
    case (ask t arg cs k)
    then show ?thesis using s by (auto simp: lost_def mutex_lock_interruptible_def split: if_splits)
  next
    case (interrupted t buf count cs k)
    then show ?thesis using s by (auto simp: lost_def mutex_lock_interruptible_def)
  next
    case (ask_interrupted t arg cs k)
    then show ?thesis using s by (auto simp: lost_def mutex_lock_interruptible_def)
  qed (use s in \<open>auto simp: lost_def dest!: out\<close>)
qed

lemma lost_steps:
  assumes "driver_steps K s s'" and "lost s"
  shows "lost s' \<and> order s' = order s \<and> begun s' = begun s"
  using assms by induction (auto dest: lost_step)

lemma copy_loses_lock:
  assumes inv: "driver_inv C B s" and K: "served K C B s" and t: "stage_of s t = Grown buf c"
    and bad: "\<not> user_mapped (umem_of s t) buf (unat c)"
  shows "\<exists>s'. driver_step K s s' \<and> rets_of s' t = rets_of s t @ [- EFAULT] \<and> lost s'"
proof -
  obtain blk where ok: "length blk = unat c"
    "collecting (module s) (ten_last s) (collected s @ blk) (length (collected s))"
    using stage_okD [OF inv, of t] t by auto
  then obtain left k where k: "write_copy_in K (view s t) buf c = Inr (left, k)" "left \<noteq> 0"
    using write_copy_in_fails [of "view s t" "ten_last s" "collected s" blk K c buf] K bad
    by (auto simp: served_def)
  let ?s = "return (s\<lparr>module := k\<rparr>) t (- EFAULT)"
  have "lock (dev k)" using copy_fails_part(1) [OF inv t _ k] K by (simp add: served_def)
  then have "lost ?s" using inside_alone(2) [OF inv, of t] t by (auto simp: lost_def)
  moreover have "rets_of ?s t = rets_of s t @ [- EFAULT]" by (simp add: return_def)
  ultimately show ?thesis using driver_step.copy_fails [OF t k] by blast
qed

lemma refuse_loses_lock:
  assumes inv: "driver_inv C B s" and K: "served K C B s" and t: "stage_of s t = Fetched arg mb r"
    and bad: "write_cmd r > 10"
  shows "\<exists>s'. driver_step K s s' \<and> rets_of s' t = rets_of s t @ [- EINVAL] \<and> lost s'"
proof -
  have "B * begun s \<le> 2147483647" using K by (simp add: served_def)
  from fetched_result(1) [OF inv this t bad] have "seek_gather (view s t) mb r = Inr None" .
  from driver_step.refuse [OF t this] have "driver_step K s (return s t (- EINVAL))" .
  moreover have "lost (return s t (- EINVAL))"
    using inside_alone [OF inv, of t] t by (auto simp: lost_def)
  moreover have "rets_of (return s t (- EINVAL)) t = rets_of s t @ [- EINVAL]" by (simp add: return_def)
  ultimately show ?thesis by blast
qed

section \<open>Well-typed memory\<close>

text \<open>
  The pointer to the ring holds a ring with its invariant; the entries hold blocks of their
  size, without aliases; \<open>read_buf\<close> is NULL or holds an entry, with no block or one of its own
  that has room for its size.
\<close>

definition well_typed :: "kstate \<Rightarrow> bool" where
  "well_typed k \<longleftrightarrow> heap k NULL = None \<and>
     (\<exists>b. heap k (circ_buf (dev k)) = Some (RingObj b) \<and> cb_inv b \<and> distinct (map buffptr (cb_list b)) \<and>
       (\<forall>e \<in> set (cb_list b). \<exists>bs. heap k (buffptr e) = Some (Bytes bs) \<and> unat (esize e) = length bs \<and> bs \<noteq> []) \<and>
       (read_buf (dev k) = NULL \<or>
         (\<exists>e. heap k (read_buf (dev k)) = Some (EntryObj e) \<and>
           (buffptr e = NULL \<or> buffptr e \<notin> buffptr ` set (cb_list b) \<and>
             (\<exists>bs. heap k (buffptr e) = Some (Bytes bs) \<and> unat (esize e) \<le> length bs)))))"

lemma ring_rep_typed:
  assumes "ring_rep h b cmds"
  shows "cb_inv b" and "distinct (map buffptr (cb_list b))"
    and "\<forall>e \<in> set (cb_list b). \<exists>bs. h (buffptr e) = Some (Bytes bs) \<and> unat (esize e) = length bs \<and> bs \<noteq> []"
proof -
  show "cb_inv b" "distinct (map buffptr (cb_list b))" using assms by (simp_all add: ring_rep_def)
  have "\<exists>bs \<in> set cmds. holds h e bs" if "e \<in> set (cb_list b)" for e
    using assms that unfolding ring_rep_def by (metis in_set_conv_nth list_all2_conv_all_nth)
  then show "\<forall>e \<in> set (cb_list b). \<exists>bs. h (buffptr e) = Some (Bytes bs) \<and> unat (esize e) = length bs \<and> bs \<noteq> []"
    using assms by (fastforce simp: holds_def ring_rep_def)
qed

lemma collecting_typed: "collecting k cmds blk n \<Longrightarrow> n \<le> length blk \<Longrightarrow> well_typed k"
  unfolding collecting_def well_typed_def taken_def using ring_rep_typed by metis

lemma device_typed: "device k cmds pend \<Longrightarrow> well_typed k"
  unfolding device_def using collecting_typed [of k cmds pend "length pend"] ring_rep_typed
  by (auto simp: idle_def well_typed_def)

lemma stage_typed:
  assumes "stage_ok k um cmds pend room B e p" and "inside p"
  shows "well_typed k"
  using assms device_typed collecting_typed by (cases p) (fastforce simp: scratch_def)+

section \<open>An example\<close>

text \<open>
  Processes that write a command, read it, write from an address that is not mapped, ask for the
  rest of the first command from its second byte, ask for a command that does not exist, and
  seek to the end.
\<close>

definition sample_calls :: "nat \<Rightarrow> call list" where
  "sample_calls t = (if t = 1 then [WriteCall 512 3] else if t = 2 then [ReadCall 515 10]
     else if t = 3 then [WriteCall 0 5] else if t = 4 \<or> t = 5 then [IoctlCall AESDCHAR_IOCSEEKTO 768]
     else if t = 6 then [SeekCall 0 2] else [])"

definition sample_memory :: "nat \<Rightarrow> umem" where
  "sample_memory t = (if t = 4 then user_write (user fresh_device) 768 (encode_seekto (request 0 1))
     else if t = 5 then user_write (user fresh_device) 768 (encode_seekto (request 11 0))
     else user fresh_device)"

lemma sample_memory_simps [simp]:
  "sample_memory 1 = user fresh_device" "sample_memory (Suc 0) = user fresh_device"
  "sample_memory 2 = user fresh_device" "sample_memory 3 = user fresh_device"
  by (simp_all add: sample_memory_def)

definition sample_start :: "kstate \<Rightarrow> machine" where
  "sample_start k = driver_start k sample_memory sample_calls"

lemma sample_fields:
  "module (sample_start k) = k" "umem_of (sample_start k) = sample_memory" "fpos_of (sample_start k) t = 0"
  "stage_of (sample_start k) t = Outside" "calls_of (sample_start k) = sample_calls" "order (sample_start k) = []"
  "begun (sample_start k) = 0" "updates (sample_start k) = 0" "rets_of (sample_start k) t = []"
  by (simp_all add: sample_start_def driver_start_def)

lemma sample_reachable:
  assumes "aesd_init_module first_fit_kernel 0 251658240 0 bare_machine = Inr (0, k)"
    and "driver_steps first_fit_kernel (sample_start k) s" and "begun s \<le> 10"
  shows "reachable first_fit_kernel 5 s"
proof -
  have heap: "heap bare_machine NULL = None" "card (dom (heap bare_machine)) = 0"
    by (simp_all add: bare_machine_def)
  have "write_sizes 5 sample_calls" by (auto simp: write_sizes_def sample_calls_def)
  moreover have "served first_fit_kernel (card (dom (heap bare_machine)) + 2) 5 s"
    using assms(3) heap(2) first_fit_kernel_ok first_fit_kernel_room by (simp add: served_def)
  ultimately show ?thesis
    using assms(1,2) heap(1) unfolding reachable_def sample_start_def
    by (intro exI [of _ bare_machine] exI [of _ k] exI [of _ 0] exI [of _ 251658240]
        exI [of _ sample_memory] exI [of _ sample_calls]) simp
qed

lemma sample_started:
  obtains k where "aesd_init_module first_fit_kernel 0 251658240 0 bare_machine = Inr (0, k)"
    "device k [] []" "\<not> lock (dev k)" "card (dom (heap k)) \<le> 2"
proof -
  have "card (dom (heap bare_machine)) = 0" by (simp add: bare_machine_def)
  then show thesis
    using that aesd_init_module_ok [OF first_fit_kernel_ok bare_machine_room, of 0 251658240] by auto
qed

text \<open>The first process has written.\<close>

definition has_written :: "machine \<Rightarrow> bool" where
  "has_written s \<longleftrightarrow> order s = [(1, [104, 105, newline])] \<and> \<not> lock (dev (module s)) \<and>
     (\<forall>t. stage_of s t = Outside \<and> umem_of s t = sample_memory t \<and> fpos_of s t = 0) \<and>
     calls_of s = sample_calls(1 := []) \<and> begun s = 1 \<and> updates s = 2 \<and>
     (\<forall>s'. driver_steps first_fit_kernel s s' \<longrightarrow> begun s' \<le> 10 \<longrightarrow> reachable first_fit_kernel 5 s')"

lemma has_writtenD:
  assumes "has_written s"
  shows "reachable first_fit_kernel 5 s" and "order s = [(1, [104, 105, newline])]"
    and "\<not> lock (dev (module s))" and "stage_of s t = Outside" and "umem_of s t = sample_memory t"
    and "fpos_of s t = 0" and "calls_of s = sample_calls(1 := [])" and "begun s = 1"
    and "driver_steps first_fit_kernel s s' \<Longrightarrow> begun s' \<le> 10 \<Longrightarrow> reachable first_fit_kernel 5 s'"
    and "updates s = 2"
  using assms driver_steps.refl [of first_fit_kernel s] unfolding has_written_def
  by (metis one_le_numeral)+

lemma sample_written: "\<exists>s. has_written s"
proof -
  obtain k where k: "aesd_init_module first_fit_kernel 0 251658240 0 bare_machine = Inr (0, k)"
    "device k [] []" "\<not> lock (dev k)" "card (dom (heap k)) \<le> 2"
    by (rule sample_started)
  let ?s = "sample_start k"
  have call: "write_call first_fit_kernel (view ?s 1) (file_of first_fit_kernel ?s 1) 512 3 [104, 105, newline]"
    using k(3,4) fresh_device_user first_fit_kernel_ok first_fit_kernel_room
    by (simp add: write_call_def file_of_def sample_fields)
  have "device (view ?s 1) [] []" using k(2) by (simp add: sample_fields)
  from aesd_write_ok [OF this call] obtain k' where k': "aesd_write first_fit_kernel False (view ?s 1) (file_of first_fit_kernel ?s 1) 512 3 = Inr (3, k')"
    "\<not> lock (dev k')"
    by auto
  let ?t = "after_write ?s 1 512 3 k' 3 []"
  have steps: "driver_steps first_fit_kernel ?s ?t"
    using write_alone [OF k'(1) first_fit_kernel_ok, of "[]"] by (simp add: sample_fields sample_calls_def)
  have "user_mapped (user fresh_device) 512 3" using fresh_device_mapped [of 0 3] by simp
  then have "order ?t = [(1, [104, 105, newline])]"
    using fresh_device_user by (simp add: after_write_def sample_fields)
  moreover have "updates ?t = 2"
    using \<open>user_mapped (user fresh_device) 512 3\<close> fresh_device_user by (simp add: after_write_def sample_fields)
  moreover have "module ?t = k'" "stage_of ?t t = Outside" "umem_of ?t t = sample_memory t"
    "fpos_of ?t t = 0" "calls_of ?t = sample_calls(1 := [])" "begun ?t = 1" for t
    by (simp_all add: after_write_def sample_fields)
  moreover have "reachable first_fit_kernel 5 s'" if "driver_steps first_fit_kernel ?t s'" "begun s' \<le> 10" for s'
    using sample_reachable [OF k(1) driver_steps_trans [OF that(1) steps] that(2)] .
  ultimately have "has_written ?t" using k'(2) unfolding has_written_def by simp
  then show ?thesis by blast
qed

lemma begun_write_goes_on:
  assumes "reachable K B s"
  shows "stage_of s t = Locked buf c \<Longrightarrow> \<exists>k. write_new_entry K (view s t) = Inr k"
    and "stage_of s t = HasEntry buf c \<Longrightarrow> \<exists>k. write_grow K (view s t) c = Inr k"
proof -
  obtain C where "driver_inv C B s" "served K C B s" using assms by (rule reachable_inv)
  then show "stage_of s t = Locked buf c \<Longrightarrow> \<exists>k. write_new_entry K (view s t) = Inr k"
    and "stage_of s t = HasEntry buf c \<Longrightarrow> \<exists>k. write_grow K (view s t) c = Inr k"
    using new_entry_part [of C B s t buf c K] grow_part [of C B s t buf c K] unfolding served_def by blast+
qed

lemma sample_look_up:
  assumes "reachable K B s" and "found_bytes s t count \<noteq> []"
  shows "\<exists>src. read_locate K (view s t) (file_of K s t) count (fpos_of s t) = Inr (Some src)"
proof -
  obtain C where inv: "driver_inv C B s" and K: "served K C B s" using assms(1) by (rule reachable_inv)
  obtain b where b: "heap (view s t) (circ_buf (dev (view s t))) = Some (RingObj b)"
    "ring_rep (heap (view s t)) b (ten_last s)"
    using inv by (auto simp: driver_inv_def ring_inv_def)
  have "locate (map length (ten_last s)) (unat (fpos_of s t)) \<noteq> None"
    using assms(2) by (auto simp: found_bytes_def read_spec_def split: option.splits)
  then show ?thesis
    using read_locate_ok [OF b _ ten_last_small [OF inv K] found_bytes_def, of "file_of K s t" K] assms(2)
    by (auto simp: file_of_def split: if_splits)
qed

lemma sample_mapped: "user_mapped (user fresh_device) 515 (length [104, 105, newline])"
proof -
  have "user_mapped (user fresh_device) 515 3" using fresh_device_mapped [of 3 3] by simp
  then show ?thesis by (simp add: numeral_3_eq_3)
qed

text \<open>The second process has begun its read, while no process updates the ring.\<close>

definition looking :: "machine \<Rightarrow> machine" where
  "looking s = goto (s\<lparr>calls_of := (calls_of s)(2 := [])\<rparr>) 2 (Looking 515 10 2) (module s)"

lemma sample_looking:
  assumes "has_written s"
  shows "driver_step first_fit_kernel s (looking s)" and "reachable first_fit_kernel 5 (looking s)"
    and "stage_of (looking s) 2 = Looking 515 10 2" and "updates (looking s) = 2"
    and "order (looking s) = [(1, [104, 105, newline])]" and "umem_of (looking s) 2 = user fresh_device"
    and "fpos_of (looking s) 2 = 0"
    and "driver_steps first_fit_kernel (looking s) s' \<Longrightarrow> begun s' \<le> 10 \<Longrightarrow> reachable first_fit_kernel 5 s'"
    and "begun (looking s) = 1"
proof -
  note w = has_writtenD [OF assms]
  have "calls_of s 2 = [ReadCall 515 10]" by (simp add: w(7) sample_calls_def)
  from driver_step.read_begin [OF w(4) this, of first_fit_kernel]
  show step: "driver_step first_fit_kernel s (looking s)" by (simp add: looking_def w(10))
  show "begun (looking s) = 1" by (simp add: looking_def w(8))
  then show "reachable first_fit_kernel 5 (looking s)" using w(9) [OF driver_steps_one [OF step]] by simp
  show "driver_steps first_fit_kernel (looking s) s' \<Longrightarrow> begun s' \<le> 10 \<Longrightarrow> reachable first_fit_kernel 5 s'"
    using w(9) driver_steps_trans [OF _ driver_steps_one [OF step]] by blast
qed (simp_all add: looking_def has_writtenD [OF assms])

text \<open>The third process is before its copy.\<close>

lemma sample_grown:
  obtains s where "reachable first_fit_kernel 5 s" "stage_of s 3 = Grown 0 5" "umem_of s 3 = user fresh_device"
proof -
  let ?K = first_fit_kernel
  obtain s0 where "has_written s0" using sample_written by blast
  note w = has_writtenD [OF this]
  note s0 = w(1,3,4,5,7,8,9)
  define k1 where "k1 = view s0 3\<lparr>dev := (dev (module s0))\<lparr>lock := True\<rparr>\<rparr>"
  define s1 where "s1 = goto (s0\<lparr>calls_of := (calls_of s0)(3 := []), begun := Suc (begun s0)\<rparr>) 3 (Locked 0 5) k1"
  have s1: "driver_steps ?K s0 s1" unfolding s1_def
    by (intro driver_steps_one driver_step.lock)
      (use s0 in \<open>simp_all add: sample_calls_def mutex_lock_interruptible_def k1_def\<close>)
  then have r1: "reachable ?K 5 s1" by (rule s0(7)) (simp add: s1_def s0(6))
  have g1: "stage_of s1 3 = Locked 0 5" "begun s1 = 2" "umem_of s1 3 = user fresh_device"
    using s0(4,6) by (simp_all add: s1_def)
  obtain k2 where k2: "write_new_entry ?K (view s1 3) = Inr k2" using begun_write_goes_on(1) [OF r1 g1(1)] by blast
  define s2 where "s2 = goto s1 3 (HasEntry 0 5) k2"
  have s2: "driver_steps ?K s0 s2" unfolding s2_def
    by (rule driver_steps.step [OF s1 driver_step.new_entry [OF g1(1) k2]])
  then have r2: "reachable ?K 5 s2" by (rule s0(7)) (simp add: s2_def g1)
  have g2: "stage_of s2 3 = HasEntry 0 5" "begun s2 = 2" "umem_of s2 3 = user fresh_device"
    using g1 by (simp_all add: s2_def)
  obtain k3 where k3: "write_grow ?K (view s2 3) 5 = Inr k3" using begun_write_goes_on(2) [OF r2 g2(1)] by blast
  have "driver_steps ?K s0 (goto s2 3 (Grown 0 5) k3)"
    by (rule driver_steps.step [OF s2 driver_step.grow [OF g2(1) k3]])
  then have "reachable ?K 5 (goto s2 3 (Grown 0 5) k3)" by (rule s0(7)) (simp add: g2)
  then show thesis using that [of "goto s2 3 (Grown 0 5) k3"] g2(3) by simp
qed

text \<open>The request that a seek command has fetched is the one in the memory of the process.\<close>

lemma fetched_request:
  assumes "reachable K B s" and "user_at (umem_of s t) arg 24 = map Some (encode_seekto r')"
  shows "stage_of s t = Fetched arg mb r \<Longrightarrow> r = r'" and "stage_of s t = Gathered arg mb r n \<Longrightarrow> r = r'"
proof -
  obtain C where "driver_inv C B s" using assms(1) by (rule reachable_inv)
  note ok = stage_okD [OF this, of t]
  show "stage_of s t = Fetched arg mb r \<Longrightarrow> r = r'" and "stage_of s t = Gathered arg mb r n \<Longrightarrow> r = r'"
    using ok assms(2) by (simp_all add: is_request_def)
qed

lemma sample_request:
  assumes "reachable K B s" and "umem_of s t = sample_memory t" and "t = 4 \<or> t = 5"
  shows "stage_of s t = Fetched 768 mb r \<Longrightarrow> r = (if t = 4 then request 0 1 else request 11 0)"
    and "stage_of s t = Gathered 768 mb r n \<Longrightarrow> r = (if t = 4 then request 0 1 else request 11 0)"
proof -
  have "user_at (user_write um 768 (encode_seekto q)) 768 24 = map Some (encode_seekto q)" for um q
    using user_at_write [of "encode_seekto q" um 768] by simp
  then have "user_at (umem_of s t) 768 24 =
      map Some (encode_seekto (if t = 4 then request 0 1 else request 11 0))"
    using assms(2,3) by (auto simp: sample_memory_def)
  from fetched_request [OF assms(1) this]
  show "stage_of s t = Fetched 768 mb r \<Longrightarrow> r = (if t = 4 then request 0 1 else request 11 0)"
    and "stage_of s t = Gathered 768 mb r n \<Longrightarrow> r = (if t = 4 then request 0 1 else request 11 0)" by blast+
qed

text \<open>The fourth or the fifth process has fetched its request.\<close>

lemma sample_fetched:
  assumes "t = 4 \<or> t = 5"
  obtains s mb where "reachable first_fit_kernel 5 s"
    "stage_of s t = Fetched 768 mb (if t = 4 then request 0 1 else request 11 0)"
    "umem_of s t = sample_memory t" "order s = [(1, [104, 105, newline])]" "begun s = 2"
    "\<And>s'. driver_steps first_fit_kernel s s' \<Longrightarrow> begun s' \<le> 10 \<Longrightarrow> reachable first_fit_kernel 5 s'"
proof -
  let ?K = first_fit_kernel
  obtain s0 where "has_written s0" using sample_written by blast
  note w = has_writtenD [OF this]
  note s0 = w(1,2,3,4,5,7,8,9)
  have calls: "calls_of s0 t = IoctlCall AESDCHAR_IOCSEEKTO 768 # []"
    using assms s0(6) by (auto simp: sample_calls_def)
  define k1 where "k1 = view s0 t\<lparr>dev := (dev (module s0))\<lparr>lock := True\<rparr>\<rparr>"
  define s1 where "s1 = goto (s0\<lparr>calls_of := (calls_of s0)(t := []), begun := Suc (begun s0)\<rparr>) t (Asked 768) k1"
  have s1: "driver_steps ?K s0 s1" unfolding s1_def
    by (intro driver_steps_one driver_step.ask [OF s0(4) calls])
      (use s0(3) in \<open>simp add: mutex_lock_interruptible_def k1_def\<close>)
  obtain mb r k2 where k2: "seek_fetch ?K (view s1 t) 768 = (mb, r, k2)" by (metis prod_cases3)
  define s2 where "s2 = goto s1 t (Fetched 768 mb r) k2"
  have s2: "driver_steps ?K s0 s2" unfolding s2_def
    by (rule driver_steps.step [OF s1 driver_step.fetch [OF _ k2]]) (simp add: s1_def)
  have fields: "stage_of s2 t = Fetched 768 mb r" "umem_of s2 t = sample_memory t" "order s2 = order s0" "begun s2 = 2"
    using s0(5,7) by (simp_all add: s2_def s1_def)
  have r2: "reachable ?K 5 s2" by (rule s0(8) [OF s2]) (simp add: fields)
  have "r = (if t = 4 then request 0 1 else request 11 0)"
    using sample_request(1) [OF r2 fields(2) assms fields(1)] .
  moreover have "reachable ?K 5 s'" if "driver_steps ?K s2 s'" "begun s' \<le> 10" for s'
    using s0(8) [OF driver_steps_trans [OF that(1) s2] that(2)] .
  ultimately show thesis using that [OF r2, of mb] fields s0(2) by simp
qed

section \<open>Properties\<close>

text \<open>
  C16: The memory of the driver is well typed in every reachable state of every schedule, also
  in the middle of a write and after a failed one: the ring has its invariant, every entry that
  is held points to a block of its own with its size, and the entry being collected has room for
  the bytes that it counts.
\<close>

theorem driver_memory_well_typed:
  assumes "reachable K B s"
  shows "well_typed (module s)"
proof -
  obtain C where inv: "driver_inv C B s" using assms by (rule reachable_inv)
  show ?thesis
  proof (cases "\<exists>t. inside (stage_of s t)")
    case True
    then show ?thesis using stage_typed stage_okD [OF inv] by blast
  next
    case False
    then consider "device (module s) (ten_last s) (collected s)"
      | blk where "collecting (module s) (ten_last s) (collected s @ blk) (length (collected s))"
      using inv unfolding driver_inv_def work_inv_def lost_def by blast
    then show ?thesis by cases (auto intro: device_typed collecting_typed)
  qed
qed

theorem driver_memory_well_typed_witness:
  "\<exists>s. reachable first_fit_kernel 5 s \<and> stage_of s 3 = Grown 0 5 \<and> well_typed (module s)"
proof -
  obtain s where s: "reachable first_fit_kernel 5 s" "stage_of s 3 = Grown 0 5" by (rule sample_grown)
  then show ?thesis using driver_memory_well_typed [OF s(1)] by blast
qed

text \<open>
  C10: In every reachable state of every schedule at most one process is inside a write or a seek command; the
  ring shows the last ten commands of the history of all writes that have taken effect, in the
  order in which they did; and when the mutex is free the device holds these commands and the
  bytes collected since the last one. No schedule of writers and readers loses, mixes or repeats
  bytes.
\<close>

theorem writes_take_effect_in_order:
  assumes "reachable K B s"
  shows "(inside (stage_of s t) \<and> inside (stage_of s u) \<longrightarrow> t = u) \<and>
    (\<exists>b. heap (module s) (circ_buf (dev (module s))) = Some (RingObj b) \<and>
      ring_rep (heap (module s)) b (lastn 10 (fst (history (order s))))) \<and>
    (\<not> lock (dev (module s)) \<longrightarrow>
      device (module s) (lastn 10 (fst (history (order s)))) (snd (history (order s))))"
proof -
  obtain C where inv: "driver_inv C B s" using assms by (rule reachable_inv)
  show ?thesis
    using inv inside_alone(2) [OF inv, of u t]
    unfolding driver_inv_def ring_inv_def work_inv_def completed_def collected_def by blast
qed

theorem writes_take_effect_in_order_witness:
  "\<exists>s. reachable first_fit_kernel 5 s \<and> order s = [(1, [104, 105, newline])] \<and>
    device (module s) [[104, 105, newline]] []"
proof -
  obtain s where "has_written s" using sample_written by blast
  note w = has_writtenD [OF this]
  note s = w(1,2,3)
  have "history (order s) = ([[104, 105, newline]], [])" by (simp add: s(2) history_def)
  then show ?thesis using writes_take_effect_in_order [OF s(1), of 1 2] s by (intro exI [of _ s]) simp
qed



text \<open>
  C14: A read that has looked up its bytes delivers exactly them while its command is still
  held, however many writes and commits happened since: they are bytes of command number \<open>g\<close> of
  the whole history, the position moves behind them, and no other memory of the process changes.
\<close>

theorem located_read_delivers:
  assumes "reachable K B s" and "stage_of s t = Located buf src g bytes" and "dropped s \<le> g"
    and "user_mapped (umem_of s t) buf (length bytes)"
  shows "read_deliver K (view s t) buf (fpos_of s t) src =
      Inr (of_nat (length bytes), fpos_of s t + of_nat (length bytes),
        (view s t)\<lparr>user := user_write (umem_of s t) buf bytes\<rparr>) \<and>
    g < length (fst (history (order s))) \<and>
    (\<exists>off. off + length bytes \<le> length (fst (history (order s)) ! g) \<and>
      bytes = take (length bytes) (drop off (fst (history (order s)) ! g)))"
proof -
  obtain C where inv: "driver_inv C B s" and K: "served K C B s" using assms(1) by (rule reachable_inv)
  obtain p off where "src = (p, off, of_nat (length bytes))"
    "rd_range (heap (module s)) p off (length bytes) = Inr bytes" "length bytes < 2 ^ 64"
    using located_deliver [OF inv K assms(2,3)] by blast
  then have "read_deliver K (view s t) buf (fpos_of s t) src =
      Inr (of_nat (length bytes), fpos_of s t + of_nat (length bytes),
        (view s t)\<lparr>user := user_write (umem_of s t) buf bytes\<rparr>)"
    using read_deliver_ok [of "view s t" p off bytes K buf] assms(4) K by (simp add: served_def)
  moreover obtain b where "located_ok b s src g bytes"
    using inv assms(2) unfolding driver_inv_def ring_inv_def by blast
  ultimately show ?thesis unfolding located_ok_def completed_def by metis
qed

theorem located_read_delivers_witness:
  "\<exists>s src k. reachable first_fit_kernel 5 s \<and> stage_of s 2 = Located 515 src 0 [104, 105, newline] \<and>
    read_deliver first_fit_kernel (view s 2) 515 0 src = Inr (3, 3, k)"
proof -
  obtain s0 where h: "has_written s0" using sample_written by blast
  define s where "s = looking s0"
  note s = sample_looking [OF h, folded s_def]
  have log: "completed s = [[104, 105, newline]]" by (simp add: completed_def s(5) history_def)
  then have found: "found_number s 2 = 0" "found_bytes s 2 10 = [104, 105, newline]"
    by (simp_all add: found_number_def found_bytes_def dropped_def s(7) read_spec_def)
  obtain src where "read_locate first_fit_kernel (view s 2) (file_of first_fit_kernel s 2) 10 (fpos_of s 2) = Inr (Some src)"
    using sample_look_up [OF s(2), of 2 10] found(2) by auto
  then have step: "driver_step first_fit_kernel s
      (goto s 2 (Located 515 src 0 [104, 105, newline]) (module s))"
    (is "driver_step _ s ?t")
    using driver_step.look_up [OF s(3), of first_fit_kernel src] s(4) found by (simp add: undisturbed_def)
  then have t: "reachable first_fit_kernel 5 ?t" by (intro s(8) driver_steps_one) (simp_all add: s(9))
  have "dropped s = 0" using log by (simp add: dropped_def)
  then have fields: "dropped ?t = 0" "umem_of ?t 2 = user fresh_device" "fpos_of ?t 2 = 0"
    using s(6,7) by simp_all
  have "user_mapped (umem_of ?t 2) 515 (length [104, 105, newline])"
    unfolding fields(2) by (rule sample_mapped)
  then have "read_deliver first_fit_kernel (view ?t 2) 515 0 src = Inr (3, 3,
      (view ?t 2)\<lparr>user := user_write (umem_of ?t 2) 515 [104, 105, newline]\<rparr>)"
    using located_read_delivers [OF t, of 2 515 src 0 "[104, 105, newline]"] fields by simp
  moreover have "stage_of ?t 2 = Located 515 src 0 [104, 105, newline]" by simp
  ultimately show ?thesis using t by blast
qed

text \<open>
  C18: A write whose bytes cannot be read returns \<open>-EFAULT\<close>, and a seek command with a number above
  10 returns \<open>-EINVAL\<close>, both with the mutex locked; in no schedule after that does another write or
  seek command of any process begin, or a write take effect.
\<close>

theorem error_returns_stop_all_writes:
  assumes "reachable K B s"
    and "stage_of s t = Grown buf c \<and> \<not> user_mapped (umem_of s t) buf (unat c) \<and> e = EFAULT \<or>
      stage_of s t = Fetched arg mb r \<and> write_cmd r > 10 \<and> e = EINVAL"
  shows "\<exists>s'. driver_step K s s' \<and> rets_of s' t = rets_of s t @ [- e] \<and>
    (\<forall>s''. driver_steps K s' s'' \<longrightarrow>
      lock (dev (module s'')) \<and> begun s'' = begun s' \<and> order s'' = order s')"
proof -
  obtain C where inv: "driver_inv C B s" and K: "served K C B s" using assms(1) by (rule reachable_inv)
  obtain s' where "driver_step K s s'" "rets_of s' t = rets_of s t @ [- e]" "lost s'"
    using assms(2) copy_loses_lock [OF inv K] refuse_loses_lock [OF inv K] by blast
  then show ?thesis using lost_steps [of K s'] by (auto simp: lost_def)
qed

theorem error_returns_stop_all_writes_witness:
  "(\<exists>s s'. reachable first_fit_kernel 5 s \<and> driver_step first_fit_kernel s s' \<and>
    rets_of s' 3 = rets_of s 3 @ [- EFAULT] \<and>
    (\<forall>s''. driver_steps first_fit_kernel s' s'' \<longrightarrow> order s'' = order s')) \<and>
   (\<exists>s s'. reachable first_fit_kernel 5 s \<and> driver_step first_fit_kernel s s' \<and>
    rets_of s' 5 = rets_of s 5 @ [- EINVAL] \<and>
    (\<forall>s''. driver_steps first_fit_kernel s' s'' \<longrightarrow> lock (dev (module s''))))"
proof
  obtain s where s: "reachable first_fit_kernel 5 s" "stage_of s 3 = Grown 0 5" "umem_of s 3 = user fresh_device"
    by (rule sample_grown)
  have "\<not> user_mapped (umem_of s 3) 0 (unat (5 :: size_t))"
    using s(3) by (auto simp: user_mapped_def fresh_device_def user_write_def intro!: bexI [of _ 0])
  with s(2) have "stage_of s 3 = Grown 0 5 \<and> \<not> user_mapped (umem_of s 3) 0 (unat (5 :: size_t)) \<and> EFAULT = EFAULT"
    by simp
  from error_returns_stop_all_writes [OF s(1) disjI1 [OF this]]
  show "\<exists>s s'. reachable first_fit_kernel 5 s \<and> driver_step first_fit_kernel s s' \<and>
    rets_of s' 3 = rets_of s 3 @ [- EFAULT] \<and>
    (\<forall>s''. driver_steps first_fit_kernel s' s'' \<longrightarrow> order s'' = order s')" using s(1) by blast
next
  obtain s mb where s: "reachable first_fit_kernel 5 s" "stage_of s 5 = Fetched 768 mb (request 11 0)"
    by (rule sample_fetched [of 5]) simp_all
  have "stage_of s 5 = Fetched 768 mb (request 11 0) \<and> write_cmd (request 11 0) > 10 \<and> EINVAL = EINVAL"
    using s(2) by simp
  from error_returns_stop_all_writes [OF s(1) disjI2 [OF this]]
  show "\<exists>s s'. reachable first_fit_kernel 5 s \<and> driver_step first_fit_kernel s s' \<and>
    rets_of s' 5 = rets_of s 5 @ [- EINVAL] \<and>
    (\<forall>s''. driver_steps first_fit_kernel s' s'' \<longrightarrow> lock (dev (module s'')))" using s(1) by blast
qed

text \<open>
  C19: A seek command answers from the log at the moment of its answer, in every schedule: when its
  bytes are in the scratch buffer, its last step returns 0, writes to the process the rest of the
  last ten commands of the history of all writes that have taken effect, and their number; it
  frees the scratch buffer and the mutex, and the device holds what it held.
\<close>

theorem seek_answer_is_current:
  assumes "reachable K B s" and "stage_of s t = Gathered arg mb r n"
    and "user_at (umem_of s t) arg 24 = map Some (encode_seekto r')"
    and out: "out = seek_spec (lastn 10 (fst (history (order s)))) (unat (write_cmd r') mod 10)
      (unat (write_cmd_offset r'))"
    and "user_mapped (umem_of s t) (special_buffer r') (length out)"
  shows "n = length out \<and> (\<exists>s'. driver_step K s s' \<and> stage_of s' t = Outside \<and> rets_of s' t = rets_of s t @ [0] \<and>
    umem_of s' = (umem_of s)(t := seek_reply r' arg out (umem_of s t)) \<and>
    heap (module s') = (heap (module s))(mb := None) \<and> \<not> lock (dev (module s')) \<and>
    device (module s') (lastn 10 (fst (history (order s)))) (snd (history (order s))))"
proof -
  obtain C where inv: "driver_inv C B s" and K: "served K C B s" using assms(1) by (rule reachable_inv)
  have r: "r = r'" using fetched_request(2) [OF assms(1,3,2)] .
  have out': "out = asked_for (ten_last s) r'" by (simp add: out asked_for_def completed_def)
  obtain rest where n: "n = length out"
    and sc: "scratch (module s) (ten_last s) (collected s) mb (out @ rest)"
    using stage_okD [OF inv, of t] assms(2) by (auto simp: r out')
  let ?k = "mutex_unlock ((view s t)\<lparr>heap := (heap (module s))(mb := None),
      user := seek_reply r' arg out (umem_of s t)\<rparr>)"
  have k: "seek_finish K (view s t) mb arg r (heap (view s t), n) = Inr (0, ?k)"
    using seek_finish_eq [of K "view s t" arg r' out "heap (module s)" mb rest] K sc assms(5)
      user_at_mapped [OF assms(3)] by (simp add: served_def scratch_def r n)
  have "device (module s\<lparr>heap := (heap (module s))(mb := None)\<rparr>) (ten_last s) (collected s)"
    using sc by (simp add: scratch_def)
  then have "device ?k (ten_last s) (collected s)"
    by (simp add: mutex_unlock_def device_def idle_def collecting_def)
  then show ?thesis
    using driver_step.answer [OF assms(2) k] n
    by (intro conjI exI [of _ "return (s\<lparr>module := ?k, umem_of := (umem_of s)(t := user ?k)\<rparr>) t 0"])
      (simp_all add: completed_def collected_def mutex_unlock_def return_def)
qed

theorem seek_answer_is_current_witness:
  "\<exists>s s' mb r n. reachable first_fit_kernel 5 s \<and> stage_of s 4 = Gathered 768 mb r n \<and>
    driver_step first_fit_kernel s s' \<and> rets_of s' 4 = rets_of s 4 @ [0] \<and>
    umem_of s' 4 = seek_reply (request 0 1) 768 [105, newline] (sample_memory 4)"
proof -
  let ?K = first_fit_kernel
  obtain s mb where s: "reachable ?K 5 s" "stage_of s 4 = Fetched 768 mb (request 0 1)"
    "umem_of s 4 = sample_memory 4" "order s = [(1, [104, 105, newline])]" "begun s = 2"
    "\<And>s'. driver_steps ?K s s' \<Longrightarrow> begun s' \<le> 10 \<Longrightarrow> reachable ?K 5 s'"
    by (rule sample_fetched [of 4]) simp_all
  obtain C where inv: "driver_inv C 5 s" "served ?K C 5 s" using s(1) by (rule reachable_inv)
  have log: "history (order s) = ([[104, 105, newline]], [])" by (simp add: s(4) history_def)
  then have out: "asked_for (ten_last s) (request 0 1) = [105, newline]"
    by (simp add: asked_for_def completed_def seek_spec_in_range)
  have "5 * begun s \<le> 2147483647" by (simp add: s(5))
  from fetched_result(2) [OF inv(1) this s(2)] obtain h n where
    h: "seek_gather (view s 4) mb (request 0 1) = Inr (Some (h, n))" using out by auto
  let ?s = "goto s 4 (Gathered 768 mb (request 0 1) n) ((view s 4)\<lparr>heap := h\<rparr>)"
  have "driver_steps ?K s ?s" by (rule driver_steps_one, rule driver_step.gather [OF s(2) h])
  then have g: "reachable ?K 5 ?s" by (rule s(6)) (simp add: s(5))
  have st: "stage_of ?s 4 = Gathered 768 mb (request 0 1) n" "umem_of ?s 4 = sample_memory 4" "order ?s = order s"
    using s(3) by simp_all
  have req: "user_at (umem_of ?s 4) 768 24 = map Some (encode_seekto (request 0 1))"
    using user_at_write [of "encode_seekto (request 0 1)" "user fresh_device" 768]
    by (simp add: s(3) sample_memory_def)
  have "user_mapped (user fresh_device) 512 (length [105, newline])"
    using fresh_device_mapped [of 0 2] by (simp add: numeral_2_eq_2)
  then have "user_mapped (umem_of ?s 4) (special_buffer (request 0 1)) (length [105, newline])"
    by (simp add: s(3) sample_memory_def user_mapped_write)
  with seek_answer_is_current [OF g st(1) req, of "[105, newline]"] log obtain s' where
    "driver_step ?K ?s s'" "rets_of s' 4 = rets_of ?s 4 @ [0]"
    "umem_of s' 4 = seek_reply (request 0 1) 768 [105, newline] (sample_memory 4)"
    by (auto simp: s(3) seek_spec_in_range)
  then show ?thesis using g st(1) by blast
qed

text \<open>
  C17: The steps are those of the functions: a process that makes a call with no other
  process in between gets, step by step, the result and the state that \<open>aesd_write\<close>,
  \<open>aesd_read\<close>, \<open>aesd_llseek\<close> or \<open>aesd_ioctl\<close> gives. A read and a seek to the end, which take no mutex,
  must not begin in the middle of an update of the ring by another process.
\<close>

theorem schedule_of_one_is_the_call:
  assumes "kernel_ok K" and "stage_of s t = Outside"
  shows "(\<forall>buf count cs r k. calls_of s t = WriteCall buf count # cs \<and>
      aesd_write K False (view s t) (file_of K s t) buf count = Inr (r, k) \<longrightarrow>
      driver_steps K s (after_write s t buf count k r cs)) \<and>
    (\<forall>buf count cs r pos k. calls_of s t = ReadCall buf count # cs \<and> even (updates s) \<and>
      aesd_read K (view s t) (file_of K s t) buf count (fpos_of s t) = Inr (r, pos, k) \<longrightarrow>
      driver_steps K s (after_read s t r pos (user k) cs)) \<and>
    (\<forall>off whence cs r f. calls_of s t = SeekCall off whence # cs \<and> (whence = 2 \<longrightarrow> even (updates s)) \<and>
      aesd_llseek K (view s t) (file_of K s t) off whence = Inr (r, f) \<longrightarrow>
      driver_steps K s (after_seek s t r f cs)) \<and>
    (\<forall>cmd arg cs r k. calls_of s t = IoctlCall cmd arg # cs \<and>
      aesd_ioctl K False (view s t) (file_of K s t) cmd arg = Inr (r, k) \<longrightarrow>
      driver_steps K s (after_ioctl s t cmd k r cs))"
  using write_alone [OF _ assms(1) assms(2)] read_call_alone [OF _ assms(2)] seek_alone [OF assms(2)]
    ioctl_alone [OF _ assms(2)] by (intro conjI allI impI; elim conjE) (simp_all only:)

theorem schedule_of_one_is_the_call_witness:
  "\<exists>s. reachable first_fit_kernel 5 s \<and> driver_steps first_fit_kernel s
    (after_read s 2 3 3 (user_write (user fresh_device) 515 [104, 105, newline]) [])"
proof -
  obtain s where "has_written s" using sample_written by blast
  note w = has_writtenD [OF this]
  note s = w(1,2,3,4,5,6,7,10)
  obtain C where "driver_inv C 5 s" using s(1) by (rule reachable_inv)
  then have dev: "device (view s 2) [[104, 105, newline]] []"
    using s(2,3) by (simp add: driver_inv_def work_inv_def completed_def collected_def history_def)
  have "aesd_read first_fit_kernel (view s 2) (file_of first_fit_kernel s 2) 515 10 0 =
      Inr (3, 3, (view s 2)\<lparr>user := user_write (user fresh_device) 515 [104, 105, newline]\<rparr>)"
    using aesd_read_ok [OF dev first_fit_kernel_ok, of "file_of first_fit_kernel s 2" "[104, 105, newline]" 0 10 515]
      sample_mapped by (simp add: file_of_def s(5) read_spec_def)
  then show ?thesis
    using schedule_of_one_is_the_call [OF first_fit_kernel_ok s(4), of 2] s by (auto simp: sample_calls_def)
qed

end
