(* ===== verification/Connection_Worker.thy ===== *)
theory Connection_Worker
  imports Server_Files
begin

text \<open>
  The thread of one connection: \<open>connection_worker\<close> of \<open>server/aesdsocket.c\<close>, with the store
  as a regular file (the received bytes are collected until a newline arrives) and as the
  character device (what is received is looked at chunk by chunk).
\<close>

section \<open>The loop\<close>

definition BUFFER_SIZE :: int where
  "BUFFER_SIZE = 2000"

text \<open>The local variables; \<open>wbuf\<close> is the block that \<open>buffer\<close> points to.\<close>

record worker =
  wbuf :: "byte list"
  buffer_size :: int
  available_buffer :: int
  total_bytes_received :: int
  buffer_position :: int

text \<open>Received bytes go to \<open>buffer + off\<close>.\<close>

definition fill :: "byte list \<Rightarrow> nat \<Rightarrow> byte list \<Rightarrow> byte list res" where
  "fill buffer off bs =
     (if off + length bs \<le> length buffer
      then Inr (take off buffer @ bs @ drop (off + length bs) buffer) else Inl OutOfBounds)"

text \<open>\<open>realloc\<close>: the old contents, cut or followed by those of fresh memory.\<close>

definition realloc :: "'w posix \<Rightarrow> byte list \<Rightarrow> int \<Rightarrow> 'w \<Rightarrow> (byte list \<times> 'w) res" where
  "realloc P buffer n w = (case px_malloc P (nat n) w of
     (None, w) \<Rightarrow> Inl BadPointer
   | (Some blk, w) \<Rightarrow> Inr (take (nat n) buffer @ drop (length buffer) blk, w))"

text \<open>An \<open>int\<close> that receives a value must be able to hold it.\<close>

definition to_int :: "int \<Rightarrow> int res" where
  "to_int n = (if - 2147483648 \<le> n \<and> n \<le> 2147483647 then Inr n else Inl IntOverflow)"

text \<open>
  One round with a regular file. The first component tells whether the loop goes on.
\<close>

definition file_round ::
  "'w posix \<Rightarrow> int \<Rightarrow> worker \<Rightarrow> globals \<times> 'w \<Rightarrow> (bool \<times> worker \<times> globals \<times> 'w) res" where
  "file_round P fd v s = (case s of (g, w) \<Rightarrow>
     if should_quit g then bindE (px_close P fd w) (\<lambda>w. Inr (False, v, g, w))
     else
       bindE (px_recv P fd (nat (available_buffer v)) w) (\<lambda>(bytes_received, bs, w).
       bindE (fill (wbuf v) (nat (total_bytes_received v)) bs) (\<lambda>buffer.
       let v = v\<lparr>wbuf := buffer\<rparr> in
       if bytes_received < 1 then Inr (False, v, g, w)
       else
         bindE (to_int (total_bytes_received v + bytes_received)) (\<lambda>total.
         let v = v\<lparr>total_bytes_received := total\<rparr> in
         bindE (find_delimter_position buffer (buffer_position v) bytes_received)
           (\<lambda>delimiter_position.
         if delimiter_position = - 1 then
           let v = v\<lparr>buffer_position := buffer_position v + bytes_received,
                     available_buffer := buffer_size v - bytes_received\<rparr>
           in if buffer_position v = buffer_size v then
                bindE (to_int (buffer_size v + BUFFER_SIZE)) (\<lambda>size.
                bindE (realloc P (wbuf v) size w) (\<lambda>(buffer, w).
                Inr (True, v\<lparr>wbuf := buffer, buffer_size := size,
                       available_buffer := size - total_bytes_received v\<rparr>, g, w)))
              else Inr (True, v, g, w)
         else
           bindE (dump_buffer_to_file P (total_bytes_received v) (wbuf v) (g, w)) (\<lambda>s.
           bindE (dump_file_to_socket P fd s) (\<lambda>(g, w).
           if \<not> close_socket_when_receive_delim g then
             bindE (realloc P (wbuf v) BUFFER_SIZE w) (\<lambda>(buffer, w).
             Inr (True, v\<lparr>wbuf := buffer, total_bytes_received := 0, buffer_position := 0,
                    available_buffer := BUFFER_SIZE\<rparr>, g, w))
           else Inr (False, v, g, w))))))))"

text \<open>One round with the character device; \<open>bufp\<close> is the address of the buffer.\<close>

definition dev_round ::
  "'w posix \<Rightarrow> int \<Rightarrow> ptr \<Rightarrow> worker \<Rightarrow> globals \<times> 'w \<Rightarrow> (bool \<times> worker \<times> globals \<times> 'w) res" where
  "dev_round P fd bufp v s = (case s of (g, w) \<Rightarrow>
     bindE (px_recv P fd (nat (available_buffer v)) w) (\<lambda>(bytes_received, bs, w).
     bindE (fill (wbuf v) 0 bs) (\<lambda>buffer.
     let v = v\<lparr>wbuf := buffer\<rparr> in
     if bytes_received < 1 then Inr (False, v, g, w)
     else
       bindE (handle_ioctl_commainds (px_ioctl P) bufp buffer bytes_received w)
         (\<lambda>(bytes_received_from_ioctl, buffer, w).
       let v = v\<lparr>wbuf := buffer\<rparr> in
       if bytes_received_from_ioctl > 1 then
         bindE (guardE OutOfBounds (bytes_received_from_ioctl \<le> int (length buffer))) (\<lambda>_.
         bindE (px_send P fd (take (nat bytes_received_from_ioctl) buffer) w) (\<lambda>w.
         Inr (True, v, g, w)))
       else if bytes_received_from_ioctl = 0 then Inr (True, v, g, w)
       else
         bindE (dump_buffer_to_file P bytes_received buffer (g, w)) (\<lambda>s.
         bindE (find_delimter_position buffer 0 bytes_received) (\<lambda>delimiter_position.
         bindE (if delimiter_position \<noteq> - 1 then dump_file_to_socket P fd s else Inr s) (\<lambda>(g, w).
         Inr (True, v, g, w))))))))"

partial_function (option) worker_loop ::
  "'w posix \<Rightarrow> int \<Rightarrow> ptr \<Rightarrow> worker \<Rightarrow> globals \<times> 'w \<Rightarrow> (worker \<times> globals \<times> 'w) res option" where
  "worker_loop P fd bufp v s =
     (case (if use_dev (fst s) then dev_round P fd bufp v s else file_round P fd v s) of
        Inl f \<Rightarrow> Some (Inl f)
      | Inr (again, v, s) \<Rightarrow> if again then worker_loop P fd bufp v s else Some (Inr (v, s)))"

text \<open>
  The whole thread. The mutex of the list, which the creating thread took, is released here;
  a mutex is modelled by the flag alone, without an owner.
\<close>

definition connection_worker ::
  "'w posix \<Rightarrow> int \<Rightarrow> ptr \<Rightarrow> globals \<times> 'w \<Rightarrow> (globals \<times> 'w) res" where
  "connection_worker P fd bufp s = (case s of (g, w) \<Rightarrow>
     (case px_malloc P (nat BUFFER_SIZE) w of
        (None, w) \<Rightarrow> Inl BadPointer
      | (Some buffer, w) \<Rightarrow>
          bindE (if linked_list_mutex g then Inr (g\<lparr>linked_list_mutex := False\<rparr>) else Inl BadUnlock) (\<lambda>g.
          bindE (returned (worker_loop P fd bufp \<lparr>wbuf = buffer, buffer_size = BUFFER_SIZE,
              available_buffer = BUFFER_SIZE, total_bytes_received = 0, buffer_position = 0\<rparr> (g, w)))
            (\<lambda>(v, g, w).
          bindE (px_close P fd w) (\<lambda>w. Inr (g, w))))))"

section \<open>What a connection does\<close>

text \<open>
  The reference for a regular file: chunks are collected; one with a newline completes the
  message, which is stored whole, and the contents of the store are sent.
\<close>

fun serve_messages ::
  "(byte list \<Rightarrow> 'a \<Rightarrow> 'a) \<Rightarrow> ('a \<Rightarrow> byte list) \<Rightarrow> byte list \<Rightarrow> 'a \<Rightarrow> byte list list \<Rightarrow> byte list \<times> 'a" where
  "serve_messages app contents acc st [] = ([], st)"
| "serve_messages app contents acc st (c # cs) =
     (if newline \<in> set c then
        (let st = app (acc @ c) st; (out, st') = serve_messages app contents [] st cs
         in (contents st @ out, st'))
      else serve_messages app contents (acc @ c) st cs)"

text \<open>Every chunk arrives whole and every message is shorter than the buffer.\<close>

fun fits :: "nat \<Rightarrow> byte list list \<Rightarrow> bool" where
  "fits n [] = True"
| "fits n (c # cs) = (c \<noteq> [] \<and> n + length c < 2000 \<and>
     fits (if newline \<in> set c then 0 else n + length c) cs)"

definition messages :: "byte list list \<Rightarrow> nat" where
  "messages cs = length (filter (\<lambda>c. newline \<in> set c) cs)"

text \<open>
  The reference for the device: every chunk is stored as it comes; after one with a newline
  the contents are sent.
\<close>

fun serve_chunks ::
  "(byte list \<Rightarrow> 'a \<Rightarrow> 'a) \<Rightarrow> ('a \<Rightarrow> byte list) \<Rightarrow> 'a \<Rightarrow> byte list list \<Rightarrow> byte list \<times> 'a" where
  "serve_chunks app contents st [] = ([], st)"
| "serve_chunks app contents st (c # cs) =
     (let st = app c st; (out, st') = serve_chunks app contents st cs
      in ((if newline \<in> set c then contents st else []) @ out, st'))"

definition plain_chunk :: "byte list \<Rightarrow> bool" where
  "plain_chunk c \<longleftrightarrow> c \<noteq> [] \<and> length c < 2000 \<and> \<not> seek_text c (int (length c))"

section \<open>Lemmas\<close>

lemma fill_ok:
  "off + length bs \<le> length buffer \<Longrightarrow>
    fill buffer off bs = Inr (take off buffer @ bs @ drop (off + length bs) buffer)"
  by (simp add: fill_def)

lemma find_delim_filled:
  assumes "length acc + length c \<le> length buffer" and "take (length acc + length c) buffer = acc @ c"
  shows "\<exists>r. find_delimter_position buffer (int (length acc)) (int (length c)) = Inr r \<and>
    (r = - 1 \<longleftrightarrow> newline \<notin> set c)"
proof -
  have "take (length c) (drop (length acc) buffer) = c"
    using assms(2) by (metis append_eq_conv_conj take_drop add.commute)
  then show ?thesis
    using find_delim_loop_eq [OF assms(1)] by (auto simp: find_delimter_position_def)
qed

lemma seek_text_prefix:
  "take (length c) buffer = c \<Longrightarrow> seek_text buffer (int (length c)) = seek_text c (int (length c))"
  by (simp add: seek_text_def)

text \<open>The globals of a running server with a regular file, and with the device.\<close>

definition serving :: "globals \<Rightarrow> bool" where
  "serving g \<longleftrightarrow> \<not> use_dev g \<and> \<not> should_quit g \<and> \<not> file_mutex g \<and>
     \<not> close_socket_when_receive_delim g"

text \<open>The bytes \<open>acc\<close> of an unfinished message are in the buffer, and there is room for more.\<close>

definition gathered :: "worker \<Rightarrow> byte list \<Rightarrow> bool" where
  "gathered v acc \<longleftrightarrow> length (wbuf v) = 2000 \<and> buffer_size v = 2000 \<and>
     total_bytes_received v = int (length acc) \<and> buffer_position v = int (length acc) \<and>
     take (length acc) (wbuf v) = acc \<and> 2000 - int (length acc) \<le> available_buffer v"

context outfile begin

text \<open>A chunk without a newline is added to the buffer.\<close>

lemma file_round_gathers:
  assumes "inv w" and "incoming w = c # cs" and "serving g" and "gathered v acc"
    and c: "c \<noteq> []" "length acc + length c < 2000" "newline \<notin> set c"
  shows "\<exists>v' w'. file_round P fd v (g, w) = Inr (True, v', g, w') \<and> gathered v' (acc @ c) \<and>
    available_buffer v' = 2000 - int (length c) \<and> inv w' \<and>
    (store w', sent w', incoming w', budget w') = (store w, sent w, cs, budget w)"
proof -
  have "length c \<le> nat (available_buffer v)"
    using assms(4) c(2) by (auto simp: gathered_def)
  then obtain w1 where w1: "px_recv P fd (nat (available_buffer v)) w = Inr (int (length c), c, w1)" "inv w1"
    "(store w1, sent w1, incoming w1, budget w1) = (store w, sent w, cs, budget w)"
    using recv_law(2) [OF assms(1,2)] by blast
  define buf where "buf = take (length acc) (wbuf v) @ c @ drop (length acc + length c) (wbuf v)"
  have buf: "length buf = 2000" "take (length acc + length c) buf = acc @ c"
    "fill (wbuf v) (nat (total_bytes_received v)) c = Inr buf"
    using assms(4) c(2) by (auto simp: gathered_def buf_def fill_ok)
  have find: "find_delimter_position buf (int (length acc)) (int (length c)) = Inr (- 1)"
    using find_delim_filled [of acc c buf] buf(1,2) c(2,3) by auto
  let ?v = "v\<lparr>wbuf := buf, total_bytes_received := int (length acc + length c),
    buffer_position := int (length acc + length c), available_buffer := 2000 - int (length c)\<rparr>"
  have "file_round P fd v (g, w) = Inr (True, ?v, g, w1)"
    using assms(3,4) c(1,2) w1(1) buf find
    by (auto simp: file_round_def serving_def gathered_def to_int_def Let_def Suc_le_eq)
  moreover have "gathered ?v (acc @ c)"
    using assms(4) buf by (simp add: gathered_def)
  ultimately show ?thesis using w1(2,3) by (intro exI [of _ ?v] exI [of _ w1]) simp
qed

text \<open>The room announced after a chunk counts that chunk only: what follows can overrun.\<close>

lemma file_round_overruns:
  assumes "inv w" and "incoming w = c # cs" and "serving g" and "gathered v acc"
    and "int (length c) \<le> available_buffer v" and "2000 < length acc + length c"
  shows "file_round P fd v (g, w) = Inl OutOfBounds"
proof -
  have "length c \<le> nat (available_buffer v)" using assms(5) by simp
  then obtain w1 where "px_recv P fd (nat (available_buffer v)) w = Inr (int (length c), c, w1)"
    using recv_law(2) [OF assms(1,2)] by blast
  then show ?thesis
    using assms(3,4,6) by (simp add: file_round_def serving_def gathered_def fill_def)
qed

lemma worker_loop_overruns:
  assumes "inv w" and "incoming w = c1 # c2 # c3 # cs" and "serving g" and "gathered v []"
    and "c1 \<noteq> []" "newline \<notin> set c1" "c2 \<noteq> []" "newline \<notin> set c2"
    and "length c1 + length c2 < 2000" and "length c2 + length c3 \<le> 2000"
    and "2000 < length c1 + length c2 + length c3"
  shows "worker_loop P fd bufp v (g, w) = Some (Inl OutOfBounds)"
proof -
  obtain v1 w1 where 1: "file_round P fd v (g, w) = Inr (True, v1, g, w1)" "gathered v1 c1" "inv w1"
    "incoming w1 = c2 # c3 # cs"
    using file_round_gathers [OF assms(1-5)] assms(6,9) by fastforce
  obtain v2 w2 where 2: "file_round P fd v1 (g, w1) = Inr (True, v2, g, w2)" "gathered v2 (c1 @ c2)"
    "available_buffer v2 = 2000 - int (length c2)" "inv w2" "incoming w2 = c3 # cs"
    using file_round_gathers [OF 1(3,4) assms(3) 1(2) assms(7,9,8)] by fastforce
  have 3: "file_round P fd v2 (g, w2) = Inl OutOfBounds"
    using 2(3) assms(10,11) by (intro file_round_overruns [OF 2(4,5) assms(3) 2(2)]) simp_all
  have "\<not> use_dev g" using assms(3) by (simp add: serving_def)
  then have "worker_loop P fd bufp v (g, w) = worker_loop P fd bufp v1 (g, w1)"
    "worker_loop P fd bufp v1 (g, w1) = worker_loop P fd bufp v2 (g, w2)"
    "worker_loop P fd bufp v2 (g, w2) = Some (Inl OutOfBounds)"
    using 1(1) 2(1) 3 by (subst worker_loop.simps; simp)+
  then show ?thesis by simp
qed

text \<open>A chunk with a newline completes the message, which is stored and answered.\<close>

lemma file_round_answers:
  assumes "inv w" and "incoming w = c # cs" and "serving g" and "gathered v acc" and "0 < budget w"
    and c: "length acc + length c < 2000" "newline \<in> set c"
  shows "\<exists>v' w'. file_round P fd v (g, w) = Inr (True, v', g\<lparr>is_working := False\<rparr>, w') \<and>
    gathered v' [] \<and> inv w' \<and> budget w \<le> Suc (budget w') \<and>
    (store w', sent w', incoming w') =
      (app (acc @ c) (store w), sent w @ contents (app (acc @ c) (store w)), cs)"
proof -
  have "length c \<le> nat (available_buffer v)"
    using assms(4) c(1) by (auto simp: gathered_def)
  then obtain w1 where w1: "px_recv P fd (nat (available_buffer v)) w = Inr (int (length c), c, w1)" "inv w1"
    "(store w1, sent w1, incoming w1, budget w1) = (store w, sent w, cs, budget w)"
    using recv_law(2) [OF assms(1,2)] by blast
  define buf where "buf = take (length acc) (wbuf v) @ c @ drop (length acc + length c) (wbuf v)"
  let ?n = "length acc + length c"
  have buf: "length buf = 2000" "take ?n buf = acc @ c"
    "fill (wbuf v) (nat (total_bytes_received v)) c = Inr buf"
    using assms(4) c(1) by (auto simp: gathered_def buf_def fill_ok)
  obtain r where find: "find_delimter_position buf (int (length acc)) (int (length c)) = Inr r" "r \<noteq> - 1"
    using find_delim_filled [of acc c buf] buf(1,2) c by auto
  have g: "use_dev g \<or> \<not> file_mutex g" and pos: "0 < ?n" "c \<noteq> []"
    using assms(3) c(2) by (auto simp: serving_def)
  obtain w2 where w2: "dump_buffer_to_file P (int ?n) buf (g, w1) = Inr (g, w2)" "inv w2"
    "budget w1 \<le> Suc (budget w2)" "(store w2, sent w2, incoming w2) = (app (acc @ c) (store w1), sent w1, incoming w1)"
    using dump_buffer_stores [OF w1(2) g _ pos(1), of buf] w1(3) assms(5) buf(1,2) c(1) by auto
  obtain w3 where w3: "dump_file_to_socket P fd (g, w2) = Inr (g\<lparr>is_working := False\<rparr>, w3)" "inv w3"
    "(store w3, sent w3, incoming w3, budget w3) = (store w2, sent w2 @ contents (store w2), incoming w2, budget w2)"
    using dump_file_sends [OF w2(2) g] by blast
  obtain blk w4 where w4: "px_malloc P 2000 w3 = (Some blk, w4)" "length blk = 2000" "inv w4"
    "(store w4, sent w4, incoming w4, budget w4) = (store w3, sent w3, incoming w3, budget w3)"
    using malloc_law [OF w3(2)] by blast
  have realloc: "realloc P buf BUFFER_SIZE w3 = Inr (buf, w4)"
    using buf(1) w4(1,2) by (simp add: realloc_def BUFFER_SIZE_def)
  let ?v = "v\<lparr>wbuf := buf, total_bytes_received := 0, buffer_position := 0, available_buffer := 2000\<rparr>"
  have "file_round P fd v (g, w) = Inr (True, ?v, g\<lparr>is_working := False\<rparr>, w4)"
    using assms(3,4) pos c(1) w1(1) buf(3) find w2(1) w3(1) realloc
    by (auto simp: file_round_def serving_def gathered_def to_int_def Let_def BUFFER_SIZE_def)
  moreover have "gathered ?v []"
    using assms(4) buf by (simp add: gathered_def)
  ultimately show ?thesis using w1(3) w2(3,4) w3(3) w4(3,4) by auto
qed

lemma file_round_ends:
  assumes "inv w" and "incoming w = []" and "serving g" and "gathered v acc" and "length acc < 2000"
  shows "\<exists>v' w'. file_round P fd v (g, w) = Inr (False, v', g, w') \<and> inv w' \<and>
    (store w', sent w', incoming w', budget w') = (store w, sent w, [], budget w)"
proof -
  obtain w1 where w1: "px_recv P fd (nat (available_buffer v)) w = Inr (0, [], w1)" "inv w1"
    "(store w1, sent w1, incoming w1, budget w1) = (store w, sent w, incoming w, budget w)"
    using recv_law(1) [OF assms(1,2)] by blast
  then show ?thesis
    using assms by (auto simp: file_round_def serving_def gathered_def fill_ok)
qed

lemma serving_working [simp]: "serving (g\<lparr>is_working := b\<rparr>) = serving g"
  by (simp add: serving_def)

lemma worker_loop_file:
  assumes "inv w" and "incoming w = cs" and "serving g" and "gathered v acc"
    and "fits (length acc) cs" and "length acc < 2000" and "messages cs \<le> budget w"
  shows "\<exists>v' g' w'. worker_loop P fd bufp v (g, w) = Some (Inr (v', g', w')) \<and>
    inv w' \<and> serving g' \<and> linked_list_mutex g' = linked_list_mutex g \<and> incoming w' = [] \<and>
    sent w' = sent w @ fst (serve_messages app contents acc (store w) cs) \<and>
    store w' = snd (serve_messages app contents acc (store w) cs)"
  using assms
proof (induction cs arbitrary: w g v acc)
  case Nil
  then obtain v' w' where "file_round P fd v (g, w) = Inr (False, v', g, w')" "inv w'"
    "(store w', sent w', incoming w', budget w') = (store w, sent w, [], budget w)"
    using file_round_ends [of w g v acc fd] by blast
  then show ?case
    using Nil.prems(3) by (subst worker_loop.simps) (simp add: serving_def)
next
  case (Cons c cs)
  then have c: "c \<noteq> []" "length acc + length c < 2000" by simp_all
  show ?case
  proof (cases "newline \<in> set c")
    case False
    obtain v' w' where round: "file_round P fd v (g, w) = Inr (True, v', g, w')" "gathered v' (acc @ c)"
      "inv w'" "(store w', sent w', incoming w', budget w') = (store w, sent w, cs, budget w)"
      using file_round_gathers [OF Cons.prems(1-4) c False] by blast
    have "worker_loop P fd bufp v (g, w) = worker_loop P fd bufp v' (g, w')"
      using round(1) Cons.prems(3) by (subst worker_loop.simps) (simp add: serving_def)
    then show ?thesis
      using Cons.IH [OF round(3) _ Cons.prems(3) round(2)] Cons.prems(5,7) round(4) c False
      by (simp add: messages_def)
  next
    case True
    then have "0 < budget w" using Cons.prems(7) by (simp add: messages_def)
    then obtain v' w' where round: "file_round P fd v (g, w) = Inr (True, v', g\<lparr>is_working := False\<rparr>, w')"
      "gathered v' []" "inv w'" "budget w \<le> Suc (budget w')" "(store w', sent w', incoming w') =
        (app (acc @ c) (store w), sent w @ contents (app (acc @ c) (store w)), cs)"
      using file_round_answers [OF Cons.prems(1-4) _ c(2) True] by blast
    have "worker_loop P fd bufp v (g, w) = worker_loop P fd bufp v' (g\<lparr>is_working := False\<rparr>, w')"
      using round(1) Cons.prems(3) by (subst worker_loop.simps) (simp add: serving_def)
    then show ?thesis
      using Cons.IH [of w' "g\<lparr>is_working := False\<rparr>" v' "[]"] Cons.prems(3,5,7) round True
      by (auto simp: messages_def Let_def split_beta)
  qed
qed

text \<open>With the device, a chunk that is not a seek command is stored as it is.\<close>

lemma dev_round_stores:
  assumes "inv w" and "incoming w = c # cs" and "use_dev g" and "0 < budget w" and "plain_chunk c"
    and v: "length (wbuf v) = 2000" "available_buffer v = 2000"
  shows "\<exists>v' g' w'. dev_round P fd bufp v (g, w) = Inr (True, v', g', w') \<and>
    length (wbuf v') = 2000 \<and> available_buffer v' = 2000 \<and> inv w' \<and> use_dev g' \<and>
    linked_list_mutex g' = linked_list_mutex g \<and> budget w \<le> Suc (budget w') \<and>
    (store w', sent w', incoming w') = (app c (store w),
      sent w @ (if newline \<in> set c then contents (app c (store w)) else []), cs)"
proof -
  have c: "c \<noteq> []" "length c < 2000" "\<not> seek_text c (int (length c))"
    using assms(5) by (simp_all add: plain_chunk_def)
  obtain w1 where w1: "px_recv P fd 2000 w = Inr (int (length c), c, w1)" "inv w1"
    "(store w1, sent w1, incoming w1, budget w1) = (store w, sent w, cs, budget w)"
    using recv_law(2) [OF assms(1,2), of 2000] c(2) by auto
  define buf where "buf = c @ drop (length c) (wbuf v)"
  have buf: "length buf = 2000" "take (length c) buf = c" "fill (wbuf v) 0 c = Inr buf"
    using v c(2) by (auto simp: buf_def fill_ok)
  have plain: "handle_ioctl_commainds (px_ioctl P) bufp buf (int (length c)) w1 = Inr (- 1, buf, w1)"
    using c(2,3) seek_text_prefix [OF buf(2)] buf(1) by (intro not_a_seek) simp_all
  obtain r where find: "find_delimter_position buf 0 (int (length c)) = Inr r" "r = - 1 \<longleftrightarrow> newline \<notin> set c"
    using find_delim_filled [of "[]" c buf] buf(1,2) c(2) by auto
  have g: "use_dev g \<or> \<not> file_mutex g" and pos: "0 < length c"
    using assms(3) c(1) by simp_all
  have "0 < budget w1" "length c \<le> length buf" "length c \<le> 2000"
    using w1(3) assms(4) buf(1) c(2) by simp_all
  then obtain w2 where w2: "dump_buffer_to_file P (int (length c)) buf (g, w1) = Inr (g, w2)" "inv w2"
    "budget w1 \<le> Suc (budget w2)" "(store w2, sent w2, incoming w2) = (app c (store w1), sent w1, incoming w1)"
    using dump_buffer_stores [OF w1(2) g _ pos, of buf] unfolding buf(2) by blast
  obtain w3 where w3: "dump_file_to_socket P fd (g, w2) = Inr (g\<lparr>is_working := False\<rparr>, w3)" "inv w3"
    "(store w3, sent w3, incoming w3, budget w3) = (store w2, sent w2 @ contents (store w2), incoming w2, budget w2)"
    using dump_file_sends [OF w2(2) g] by blast
  let ?v = "v\<lparr>wbuf := buf\<rparr>"
  have "dev_round P fd bufp v (g, w) = (if newline \<in> set c
      then Inr (True, ?v, g\<lparr>is_working := False\<rparr>, w3) else Inr (True, ?v, g, w2))"
    using v pos w1(1) buf(3) plain find w2(1) w3(1) by (auto simp: dev_round_def)
  then show ?thesis
    using v assms(3) buf(1) w1(3) w2(2-4) w3(2,3) by auto
qed

lemma dev_round_ends:
  assumes "inv w" and "incoming w = []" and "use_dev g" and "length (wbuf v) = 2000"
  shows "\<exists>v' w'. dev_round P fd bufp v (g, w) = Inr (False, v', g, w') \<and> inv w' \<and>
    (store w', sent w', incoming w', budget w') = (store w, sent w, [], budget w)"
proof -
  obtain w1 where "px_recv P fd (nat (available_buffer v)) w = Inr (0, [], w1)" "inv w1"
    "(store w1, sent w1, incoming w1, budget w1) = (store w, sent w, incoming w, budget w)"
    using recv_law(1) [OF assms(1,2)] by blast
  then show ?thesis
    using assms by (auto simp: dev_round_def fill_ok)
qed

lemma worker_loop_dev:
  assumes "inv w" and "incoming w = cs" and "use_dev g" and "list_all plain_chunk cs"
    and "length cs \<le> budget w" and "length (wbuf v) = 2000" and "available_buffer v = 2000"
  shows "\<exists>v' g' w'. worker_loop P fd bufp v (g, w) = Some (Inr (v', g', w')) \<and> inv w' \<and>
    linked_list_mutex g' = linked_list_mutex g \<and> incoming w' = [] \<and>
    sent w' = sent w @ fst (serve_chunks app contents (store w) cs) \<and>
    store w' = snd (serve_chunks app contents (store w) cs)"
  using assms
proof (induction cs arbitrary: w g v)
  case Nil
  then obtain v' w' where "dev_round P fd bufp v (g, w) = Inr (False, v', g, w')" "inv w'"
    "(store w', sent w', incoming w', budget w') = (store w, sent w, [], budget w)"
    using dev_round_ends [of w g v fd bufp] by blast
  then show ?case using Nil.prems(3) by (subst worker_loop.simps) simp
next
  case (Cons c cs)
  obtain v' g' w' where round: "dev_round P fd bufp v (g, w) = Inr (True, v', g', w')"
    "length (wbuf v') = 2000" "available_buffer v' = 2000" "inv w'" "use_dev g'"
    "linked_list_mutex g' = linked_list_mutex g" "budget w \<le> Suc (budget w')"
    "(store w', sent w', incoming w') = (app c (store w),
      sent w @ (if newline \<in> set c then contents (app c (store w)) else []), cs)"
    using dev_round_stores [OF Cons.prems(1-3), of v fd bufp] Cons.prems(4-7) by auto
  have "worker_loop P fd bufp v (g, w) = worker_loop P fd bufp v' (g', w')"
    using round(1) Cons.prems(3) by (subst worker_loop.simps) simp
  then show ?case
    using Cons.IH [OF round(4) _ round(5)] Cons.prems(4,5) round(2-8)
    by (auto simp: Let_def split_beta)
qed

text \<open>The whole thread.\<close>

lemma connection_worker_file:
  assumes "inv w" and "serving g" and "linked_list_mutex g" and "fits 0 (incoming w)"
    and "messages (incoming w) \<le> budget w"
  shows "\<exists>g' w'. connection_worker P fd bufp (g, w) = Inr (g', w') \<and> inv w' \<and>
    \<not> linked_list_mutex g' \<and> \<not> file_mutex g' \<and> incoming w' = [] \<and>
    sent w' = sent w @ fst (serve_messages app contents [] (store w) (incoming w)) \<and>
    store w' = snd (serve_messages app contents [] (store w) (incoming w))"
proof -
  obtain blk w1 where w1: "px_malloc P 2000 w = (Some blk, w1)" "length blk = 2000" "inv w1"
    "(store w1, sent w1, incoming w1, budget w1) = (store w, sent w, incoming w, budget w)"
    using malloc_law [OF assms(1)] by blast
  let ?v = "\<lparr>wbuf = blk, buffer_size = 2000, available_buffer = 2000, total_bytes_received = 0,
    buffer_position = 0\<rparr>" and ?g = "g\<lparr>linked_list_mutex := False\<rparr>"
  have g: "serving ?g" "gathered ?v []" using assms(2) w1(2) by (simp_all add: serving_def gathered_def)
  obtain v' g' w2 where w2: "worker_loop P fd bufp ?v (?g, w1) = Some (Inr (v', g', w2))"
    "inv w2" "serving g'" "linked_list_mutex g' = linked_list_mutex ?g" "incoming w2 = []"
    "sent w2 = sent w1 @ fst (serve_messages app contents [] (store w1) (incoming w1))"
    "store w2 = snd (serve_messages app contents [] (store w1) (incoming w1))"
    using worker_loop_file [OF w1(3) refl g, of fd bufp] assms(4,5) w1(4) by auto
  obtain w3 where "px_close P fd w2 = Inr w3" "inv w3"
    "(store w3, sent w3, incoming w3, budget w3) = (store w2, sent w2, incoming w2, budget w2)"
    using close_law [OF w2(2)] by blast
  then show ?thesis
    using w1(1,4) w2 assms(3) by (simp add: connection_worker_def BUFFER_SIZE_def serving_def)
qed

lemma connection_worker_dev:
  assumes "inv w" and "use_dev g" and "linked_list_mutex g" and "list_all plain_chunk (incoming w)"
    and "length (incoming w) \<le> budget w"
  shows "\<exists>g' w'. connection_worker P fd bufp (g, w) = Inr (g', w') \<and> inv w' \<and>
    \<not> linked_list_mutex g' \<and> incoming w' = [] \<and>
    sent w' = sent w @ fst (serve_chunks app contents (store w) (incoming w)) \<and>
    store w' = snd (serve_chunks app contents (store w) (incoming w))"
proof -
  obtain blk w1 where w1: "px_malloc P 2000 w = (Some blk, w1)" "length blk = 2000" "inv w1"
    "(store w1, sent w1, incoming w1, budget w1) = (store w, sent w, incoming w, budget w)"
    using malloc_law [OF assms(1)] by blast
  let ?v = "\<lparr>wbuf = blk, buffer_size = 2000, available_buffer = 2000, total_bytes_received = 0,
    buffer_position = 0\<rparr>" and ?g = "g\<lparr>linked_list_mutex := False\<rparr>"
  obtain v' g' w2 where w2: "worker_loop P fd bufp ?v (?g, w1) = Some (Inr (v', g', w2))"
    "inv w2" "linked_list_mutex g' = linked_list_mutex ?g" "incoming w2 = []"
    "sent w2 = sent w1 @ fst (serve_chunks app contents (store w1) (incoming w1))"
    "store w2 = snd (serve_chunks app contents (store w1) (incoming w1))"
    using worker_loop_dev [OF w1(3) refl, of ?g ?v fd bufp] assms(2,4,5) w1(2,4) by auto
  obtain w3 where "px_close P fd w2 = Inr w3" "inv w3"
    "(store w3, sent w3, incoming w3, budget w3) = (store w2, sent w2, incoming w2, budget w2)"
    using close_law [OF w2(2)] by blast
  then show ?thesis
    using w1(1,4) w2 assms(3) by (simp add: connection_worker_def BUFFER_SIZE_def)
qed

end

section \<open>Properties\<close>

text \<open>
  A server that has just accepted a connection: the creating thread holds the list mutex. One
  keeps its data in a regular file, the other in the device.
\<close>

definition file_server :: globals where
  "file_server = \<lparr>use_dev = False, close_socket_when_receive_delim = False, should_quit = False,
     is_working = True, file_mutex = False, linked_list_mutex = True\<rparr>"

definition dev_server :: globals where
  "dev_server = file_server\<lparr>use_dev := True\<rparr>"

text \<open>
  C9: With a regular file, a connection whose messages fit the buffer appends every message to
  the file, whole and in order, and after each sends back the whole file; an unfinished message
  at the end is dropped. The thread ends when the peer closes, with both mutexes free.
\<close>

theorem file_connection_serves:
  assumes "\<not> use_dev g" and "\<not> should_quit g" and "\<not> file_mutex g"
    and "\<not> close_socket_when_receive_delim g" and "linked_list_mutex g" and "fits 0 (finbox w)"
  shows "\<exists>g' w'. connection_worker file_posix fd bufp (g, w) = Inr (g', w') \<and>
    \<not> linked_list_mutex g' \<and> \<not> file_mutex g' \<and>
    (fsent w', fdata w') = (fsent w @ fst (serve_messages (\<lambda>m f. f @ m) id [] (fdata w) (finbox w)),
      snd (serve_messages (\<lambda>m f. f @ m) id [] (fdata w) (finbox w)))"
  using regular.connection_worker_file [of g w "messages (finbox w)" fd bufp] assms
  by (auto simp: serving_def id_def)

theorem file_connection_serves_witness:
  "\<exists>g' w'. connection_worker file_posix 4 512 (file_server, \<lparr>fdata = [97, newline], fposn = 0, fsent = [],
      finbox = [[98], [99, newline], [100]]\<rparr>) = Inr (g', w') \<and>
    (fsent w', fdata w') = ([97, newline, 98, 99, newline], [97, newline, 98, 99, newline])"
proof -
  let ?w = "\<lparr>fdata = [97, newline], fposn = 0, fsent = [], finbox = [[98], [99, newline], [100]]\<rparr>"
  have "fits 0 (finbox ?w)" by (simp add: newline_def)
  moreover have "serve_messages (\<lambda>m f. f @ m) id [] (fdata ?w) (finbox ?w) =
    ([97, newline, 98, 99, newline], [97, newline, 98, 99, newline])"
    by (simp add: newline_def Let_def)
  ultimately show ?thesis
    using file_connection_serves [of file_server ?w 4 512] by (auto simp: file_server_def)
qed

text \<open>
  C8: With the device, every chunk of a connection that is not a seek command is written to the
  driver as it comes, and after each chunk with a newline the driver's contents, the last ten
  commands, are sent back. The kernel must have room for two blocks per chunk.
\<close>

theorem device_connection_serves:
  assumes "dev_inv K N obuf w" and "use_dev g" and "linked_list_mutex g"
    and "list_all plain_chunk (dinbox w)" and "length (dinbox w) \<le> dev_budget N w"
  shows "\<exists>g' w'. connection_worker (device_posix K ibuf obuf rbuf) fd bufp (g, w) = Inr (g', w') \<and>
    dev_inv K N obuf w' \<and> \<not> linked_list_mutex g' \<and>
    dsent w' = dsent w @ fst (serve_chunks write_spec (\<lambda>s. concat (fst s)) (dev_store (kst w)) (dinbox w)) \<and>
    dev_store (kst w') = snd (serve_chunks write_spec (\<lambda>s. concat (fst s)) (dev_store (kst w)) (dinbox w))"
  using char_device.connection_worker_dev [OF assms] by blast

lemma fresh_world_inv: "dev_inv first_fit_kernel 32 1024 (world_of fresh_device cs)"
  "dev_store (kst (world_of fresh_device cs)) = ([], [])" "dev_budget 32 (world_of fresh_device cs) = 15"
proof -
  show "dev_inv first_fit_kernel 32 1024 (world_of fresh_device cs)"
    and st: "dev_store (kst (world_of fresh_device cs)) = ([], [])"
    using world_of_inv [OF fresh_device_rep, of cs] by simp_all
  show "dev_budget 32 (world_of fresh_device cs) = 15"
    using st by (simp add: dev_budget_def) (simp add: world_of_def)
qed

theorem device_connection_serves_witness:
  "\<exists>g' w'. connection_worker (device_posix first_fit_kernel 2048 1024 4096) 4 512
      (dev_server, world_of fresh_device [[97], [98, newline]]) = Inr (g', w') \<and>
    dsent w' = [97, 98, newline] \<and> dev_store (kst w') = ([[97, 98, newline]], [])"
proof -
  have "list_all plain_chunk [[97], [98, newline]]"
    by (simp add: plain_chunk_def seek_text_def)
  moreover have "serve_chunks write_spec (\<lambda>s. concat (fst s)) ([], []) [[97], [98, newline]] =
    ([97, 98, newline], [[97, 98, newline]], [])"
    by (simp add: newline_def)
  moreover have "dinbox (world_of fresh_device cs) = cs" "dsent (world_of fresh_device cs) = []" for cs
    by (simp_all add: world_of_def)
  moreover have "use_dev dev_server" "linked_list_mutex dev_server"
    by (simp_all add: dev_server_def file_server_def)
  ultimately show ?thesis
    using device_connection_serves [OF fresh_world_inv(1), of dev_server "[[97], [98, newline]]" 2048 4096 4 512]
      fresh_world_inv(2,3) by auto
qed

lemma file_malloc: "px_malloc file_posix n w = (Some (replicate n 0), w)"
  by (simp add: file_posix_def)

text \<open>
  C38: The room that the thread announces to \<open>recv\<close> after a chunk is the size of the buffer less
  that chunk alone. A message that arrives in three parts, none with a newline in the first
  two, that are together longer than the buffer is written past its end.
\<close>

theorem long_message_overruns_buffer:
  assumes "\<not> use_dev g" and "\<not> should_quit g" and "\<not> file_mutex g"
    and "\<not> close_socket_when_receive_delim g" and "linked_list_mutex g"
    and "finbox w = c1 # c2 # c3 # cs" and "c1 \<noteq> []" and "newline \<notin> set c1" and "c2 \<noteq> []"
    and "newline \<notin> set c2" and "length c1 + length c2 < 2000" and "length c2 + length c3 \<le> 2000"
    and "2000 < length c1 + length c2 + length c3"
  shows "connection_worker file_posix fd bufp (g, w) = Inl OutOfBounds"
proof -
  let ?v = "\<lparr>wbuf = replicate 2000 0, buffer_size = 2000, available_buffer = 2000,
    total_bytes_received = 0, buffer_position = 0\<rparr>"
  have "gathered ?v []" by (simp add: gathered_def)
  then have "worker_loop file_posix fd bufp ?v (g\<lparr>linked_list_mutex := False\<rparr>, w) = Some (Inl OutOfBounds)"
    using assms by (intro regular.worker_loop_overruns) (simp_all add: serving_def)
  then show ?thesis
    using assms(5) file_malloc [of 2000 w] by (simp add: connection_worker_def BUFFER_SIZE_def)
qed

theorem long_message_overruns_buffer_witness:
  "connection_worker file_posix 4 512 (file_server, \<lparr>fdata = [], fposn = 0, fsent = [],
     finbox = [replicate 1000 97, replicate 500 97, replicate 1000 97]\<rparr>) = Inl OutOfBounds"
  using long_message_overruns_buffer [of file_server "\<lparr>fdata = [], fposn = 0, fsent = [],
      finbox = [replicate 1000 97, replicate 500 97, replicate 1000 97]\<rparr>" "replicate 1000 97"
      "replicate 500 97" "replicate 1000 97" "[]" 4 512]
  by (simp add: file_server_def newline_def)

end
