(* ===== verification/Device_Connections.thy ===== *)
theory Device_Connections
  imports Connection_Worker
begin

text \<open>
  Several connections of \<open>server/aesdsocket.c\<close> at once with the character device as the store,
  where \<open>connection_worker\<close> takes no mutex: the chunks are whole writes of the driver and seek
  commands whole calls of it, but an answer is sent in several reads, and writes of other
  connections come between them. A step relation over any schedule of whole system calls. A write
  and a seek command are whole because the driver holds its mutex; a read takes none, and one that
  overlaps a commit of another connection races with it: \<open>Driver_Races\<close> and \<open>Driver_Schedules\<close> have
  that at the level of the driver, and the schedules here are those in which no read does. Then the
  invariant of the device and of the order of the chunks; what is sent of an answer while no
  command is dropped; the steps of a connection that runs alone.
\<close>

section \<open>Connections and steps\<close>

text \<open>
  Where a connection is: before a receive; about to open the device for the answer; or in the
  loop of \<open>dump_file_to_socket\<close> with its descriptor and \<open>curr_file_offset\<close>. It has its receive
  buffer, which is at the address \<open>caddr\<close>.
\<close>

datatype round_phase = Receiving | Opening | Sending int int

record conn =
  cbuf :: "byte list"
  caddr :: ptr
  cfile :: struct_file
  csent :: "byte list"
  cinbox :: "byte list list"
  cphase :: round_phase

text \<open>
  The driver, the globals, and the connections. For the proofs: the chunks stored, with the
  connection that stored each, in the order of the writes.
\<close>

record dserver =
  kernel_st :: kstate
  shared :: globals
  conns :: "nat \<Rightarrow> conn"
  arrivals :: "(nat \<times> byte list) list"

text \<open>The world that the system calls of a connection work on, and the state after them.\<close>

definition world :: "dserver \<Rightarrow> nat \<Rightarrow> dev_world" where
  "world s t = \<lparr>kst = kernel_st s, dfile = cfile (conns s t), dsent = csent (conns s t),
     dinbox = cinbox (conns s t)\<rparr>"

definition put :: "dserver \<Rightarrow> nat \<Rightarrow> round_phase \<Rightarrow> globals \<Rightarrow> dev_world \<Rightarrow> dserver" where
  "put s t p g w = s\<lparr>kernel_st := kst w, shared := g, conns := (conns s)(t := (conns s t)
     \<lparr>cfile := dfile w, csent := dsent w, cinbox := dinbox w, cphase := p\<rparr>)\<rparr>"

definition put_buf :: "dserver \<Rightarrow> nat \<Rightarrow> byte list \<Rightarrow> dserver" where
  "put_buf s t buffer = s\<lparr>conns := (conns s)(t := (conns s t)\<lparr>cbuf := buffer\<rparr>)\<rparr>"

text \<open>
  One round of the loop: a chunk is received and tried as a seek command. When the driver has
  answered with more than one byte, they are sent; without any the round is over; otherwise what
  is in the buffer is stored by \<open>dump_buffer_to_file\<close>. After one with a newline the device is
  opened, and each round of the loop of \<open>dump_file_to_socket\<close> seeks, reads and sends. The driver's
  mutex makes each write and each seek command one step. It does not make a read one: that each
  read is one step here leaves out the schedules in which it overlaps a commit. The socket of
  connection \<open>t\<close> has the number \<open>t\<close>.
\<close>

inductive dev_step :: "dev_world posix \<Rightarrow> dserver \<Rightarrow> dserver \<Rightarrow> bool" for P where
  store_chunk: "cphase (conns s t) = Receiving \<Longrightarrow> px_recv P (int t) 2000 (world s t) = Inr (n, bs, w) \<Longrightarrow>
    fill (cbuf (conns s t)) 0 bs = Inr buffer \<Longrightarrow> 1 \<le> n \<Longrightarrow>
    handle_ioctl_commainds (px_ioctl P) (caddr (conns s t)) buffer n w = Inr (m, buffer', w') \<Longrightarrow>
    m \<le> 1 \<Longrightarrow> m \<noteq> 0 \<Longrightarrow> dump_buffer_to_file P n buffer' (shared s, w') = Inr (g, w'') \<Longrightarrow>
    find_delimter_position buffer' 0 n = Inr d \<Longrightarrow>
    dev_step P s ((put (put_buf s t buffer') t (if d \<noteq> - 1 then Opening else Receiving) g w'')
      \<lparr>arrivals := arrivals s @ [(t, take (nat n) buffer')]\<rparr>)"
| answer_seek: "cphase (conns s t) = Receiving \<Longrightarrow> px_recv P (int t) 2000 (world s t) = Inr (n, bs, w) \<Longrightarrow>
    fill (cbuf (conns s t)) 0 bs = Inr buffer \<Longrightarrow> 1 \<le> n \<Longrightarrow>
    handle_ioctl_commainds (px_ioctl P) (caddr (conns s t)) buffer n w = Inr (m, buffer', w') \<Longrightarrow>
    1 < m \<Longrightarrow> m \<le> int (length buffer') \<Longrightarrow> px_send P (int t) (take (nat m) buffer') w' = Inr w'' \<Longrightarrow>
    dev_step P s (put (put_buf s t buffer') t Receiving (shared s) w'')"
| blank_seek: "cphase (conns s t) = Receiving \<Longrightarrow> px_recv P (int t) 2000 (world s t) = Inr (n, bs, w) \<Longrightarrow>
    fill (cbuf (conns s t)) 0 bs = Inr buffer \<Longrightarrow> 1 \<le> n \<Longrightarrow>
    handle_ioctl_commainds (px_ioctl P) (caddr (conns s t)) buffer n w = Inr (0, buffer', w') \<Longrightarrow>
    dev_step P s (put (put_buf s t buffer') t Receiving (shared s) w')"
| open_device: "cphase (conns s t) = Opening \<Longrightarrow> lock_file (shared s) = Inr g \<Longrightarrow>
    px_open P ReadOnly (world s t) = Inr (fd, w) \<Longrightarrow> 1 \<le> fd \<Longrightarrow>
    dev_step P s (put s t (Sending fd 0) g w)"
| send_part: "cphase (conns s t) = Sending fd off \<Longrightarrow> px_lseek P fd off (world s t) = Inr w \<Longrightarrow>
    px_read P fd 100 w = Inr (n, bs, w') \<Longrightarrow> 0 < n \<Longrightarrow>
    px_send P (int t) (take (nat n) bs) w' = Inr w'' \<Longrightarrow>
    dev_step P s (put s t (Sending fd (off + n)) (shared s) w'')"
| send_done: "cphase (conns s t) = Sending fd off \<Longrightarrow> px_lseek P fd off (world s t) = Inr w \<Longrightarrow>
    px_read P fd 100 w = Inr (n, bs, w') \<Longrightarrow> n \<le> 0 \<Longrightarrow> px_close P fd w' = Inr w'' \<Longrightarrow>
    unlock_file ((shared s)\<lparr>is_working := False\<rparr>) = Inr g \<Longrightarrow>
    dev_step P s (put s t Receiving g w'')"

inductive_cases dev_stepE: "dev_step P s s'"

inductive dev_steps :: "dev_world posix \<Rightarrow> dserver \<Rightarrow> dserver \<Rightarrow> bool" for P s where
  dev_refl: "dev_steps P s s"
| dev_more: "dev_steps P s s' \<Longrightarrow> dev_step P s' s'' \<Longrightarrow> dev_steps P s s''"

text \<open>The buffers are at the addresses \<open>addr\<close>, as allocated.\<close>

definition dserver_start ::
  "kstate \<Rightarrow> globals \<Rightarrow> struct_file \<Rightarrow> (nat \<Rightarrow> ptr) \<Rightarrow> (nat \<Rightarrow> byte list list) \<Rightarrow> dserver" where
  "dserver_start k g f addr inbox = \<lparr>kernel_st = k, shared = g,
     conns = (\<lambda>t. \<lparr>cbuf = replicate 2000 0, caddr = addr t, cfile = f, csent = [], cinbox = inbox t, cphase = Receiving\<rparr>), arrivals = []\<rparr>"

section \<open>The invariant\<close>

definition stored :: "dserver \<Rightarrow> dev_spec" where
  "stored s = dev_store (kernel_st s)"

definition held :: "dserver \<Rightarrow> byte list" where
  "held s = concat (fst (stored s))"

text \<open>What a sequence of chunks makes of a store.\<close>

definition after_chunks :: "(nat \<times> byte list) list \<Rightarrow> dev_spec \<Rightarrow> dev_spec" where
  "after_chunks cs st = fold write_spec (map snd cs) st"

lemma after_chunks_simps [simp]:
  "after_chunks [] st = st" "after_chunks (cs @ [(t, c)]) st = write_spec c (after_chunks cs st)"
  by (simp_all add: after_chunks_def)

text \<open>
  A seek command with the numbers \<open>k\<close> and \<open>off\<close> that the program can take: one that ends with a
  newline makes \<open>handle_ioctl_commainds\<close> write outside its array, and one with a number above ten
  leaves the mutex of the driver locked, so that the next write hangs (\<open>newline_command_overruns\<close> and
  \<open>ioctl_einval_keeps_lock\<close>).
\<close>

definition is_seek :: "byte list \<Rightarrow> nat \<Rightarrow> nat \<Rightarrow> bool" where
  "is_seek c k off \<longleftrightarrow> (\<exists>ks ds x. c = seek_message ks ds x \<and> list_all is_digit ks \<and> ks \<noteq> [] \<and> length ks \<le> 3 \<and>
     list_all is_digit ds \<and> ds \<noteq> [] \<and> length ds \<le> 3 \<and> \<not> is_digit x \<and> x \<noteq> newline \<and>
     decimal ks = int k \<and> decimal ds = int off \<and> k \<le> 10)"

lemma digit_value: "is_digit c \<Longrightarrow> uint (c - 48) \<le> 9"
proof -
  assume c: "is_digit c"
  then have "48 \<le> c" by (simp add: is_digit_def)
  then have "uint (c - 48) = uint c - 48" by (simp add: uint_minus_simple_alt [THEN iffD1])
  then show "uint (c - 48) \<le> 9" using c by (simp add: is_digit_def word_le_def)
qed

lemma decimal_bound: "list_all is_digit ds \<Longrightarrow> decimal ds < 10 ^ length ds"
proof (induction ds rule: rev_induct)
  case (snoc c ds)
  then show ?case using digit_value [of c] by (simp add: decimal_def)
qed (simp add: decimal_def)

lemma decimal_small:
  assumes "list_all is_digit ds" and "length ds \<le> 3"
  shows "decimal ds < 1000"
proof -
  have "(10 :: int) ^ length ds \<le> 10 ^ 3" using assms(2) by (intro power_increasing) simp_all
  then show ?thesis using decimal_bound [OF assms(1)] by simp
qed

lemma is_seekD:
  assumes "is_seek c k off"
  shows "23 \<le> length c" and "length c \<le> 27" and "newline \<notin> set c" and "off < 2 ^ 32" and "\<not> plain_chunk c"
proof -
  obtain ks ds x where c: "c = seek_message ks ds x" "list_all is_digit ks" "ks \<noteq> []" "length ks \<le> 3"
    "list_all is_digit ds" "ds \<noteq> []" "length ds \<le> 3" "x \<noteq> newline" "decimal ds = int off"
    using assms unfolding is_seek_def by blast
  have "0 < length ks" "0 < length ds" using c by simp_all
  then show "23 \<le> length c" "length c \<le> 27" unfolding c(1) length_seek_message using c(4,7) by linarith+
  show "off < 2 ^ 32" using decimal_small [OF c(5,7)] c(9) by simp
  have "newline \<notin> set ks" "newline \<notin> set ds" using c(2,5) digit_no_sign by (auto simp: list_all_iff)
  moreover have "newline \<notin> set (bytes_of ''AESDCHAR_IOCSEEKTO:'')" "newline \<noteq> comma" by code_simp+
  ultimately show "newline \<notin> set c" using c(8) by (auto simp: c(1) seek_message_def)
  show "\<not> plain_chunk c"
    using seek_text_message [OF c(3,6,4,7), of x "[]"] by (simp add: plain_chunk_def c(1))
qed

lemma is_seek_short [simp]: "length c < 23 \<Longrightarrow> \<not> is_seek c k off"
  using is_seekD(1) by fastforce

definition device_chunk :: "byte list \<Rightarrow> bool" where
  "device_chunk c \<longleftrightarrow> plain_chunk c \<or> (\<exists>k off. is_seek c k off)"

text \<open>What the driver answers to a seek command.\<close>

definition seek_answer :: "dev_spec \<Rightarrow> nat \<Rightarrow> nat \<Rightarrow> byte list" where
  "seek_answer st k off = seek_spec (fst st) (k mod 10) off"

lemma device_chunkD: "device_chunk c \<Longrightarrow> c \<noteq> [] \<and> length c < 2000"
  using is_seekD(1,2) by (fastforce simp: device_chunk_def plain_chunk_def)

text \<open>
  The chunk that the store \<open>st\<close> makes of the chunk \<open>c\<close>: a seek command that is answered with one byte
  is stored, with that byte at its start.
\<close>

definition stored_as :: "dev_spec \<Rightarrow> byte list \<Rightarrow> byte list \<Rightarrow> bool" where
  "stored_as st c c' \<longleftrightarrow> plain_chunk c \<and> c' = c \<or>
     (\<exists>k off b. is_seek c k off \<and> seek_answer st k off = [b] \<and> c' = b # tl c)"

lemma stored_as_simps [simp]:
  "length c < 23 \<Longrightarrow> stored_as st c c' \<longleftrightarrow> plain_chunk c \<and> c' = c"
  "plain_chunk c \<Longrightarrow> stored_as st c c' \<longleftrightarrow> c' = c"
  using is_seekD(5) by (auto simp: stored_as_def)

lemma stored_asD: "stored_as st c c' \<Longrightarrow> c' \<noteq> [] \<and> length c' = length c \<and> length c < 2000"
  using is_seekD(1,2) by (fastforce simp: stored_as_def plain_chunk_def)

text \<open>
  What is stored of the chunks of a connection: all of a plain one, and nothing of a seek command;
  but of one that is answered with one byte that byte and the rest of its text.
\<close>

inductive kept :: "byte list list \<Rightarrow> byte list list \<Rightarrow> bool" where
  kept_start: "kept [] []"
| kept_plain: "kept cs as \<Longrightarrow> plain_chunk c \<Longrightarrow> kept (cs @ [c]) (as @ [c])"
| kept_seek: "kept cs as \<Longrightarrow> is_seek c k off \<Longrightarrow> kept (cs @ [c]) as"
| kept_rest: "kept cs as \<Longrightarrow> is_seek c k off \<Longrightarrow> kept (cs @ [c]) (as @ [b # tl c])"

lemma kept_all_plain: "kept cs as \<Longrightarrow> list_all plain_chunk cs \<Longrightarrow> as = cs"
proof (induction rule: kept.induct)
  case (kept_seek cs as c k off)
  then show ?case using is_seekD(5) by fastforce
next
  case (kept_rest cs as c k off b)
  then show ?case using is_seekD(5) by fastforce
qed auto

lemma kept_stored: "kept cs as \<Longrightarrow> stored_as st c c' \<Longrightarrow> kept (cs @ [c]) (as @ [c'])"
  by (auto simp: stored_as_def intro: kept.intros)

definition buffer_ok :: "ptr \<Rightarrow> conn \<Rightarrow> bool" where
  "buffer_ok rbuf c \<longleftrightarrow> length (cbuf c) = 2000 \<and> (\<forall>i < 2000. 24 \<le> unat (caddr c + of_nat i - rbuf))"

text \<open>The bytes that a store holds and \<open>W\<close> more chunks stay below the range of an offset.\<close>

definition fits :: "nat \<Rightarrow> dev_spec \<Rightarrow> bool" where
  "fits W st \<longleftrightarrow> length (concat (fst st)) + length (snd st) + 2000 * W < 2 ^ 32"

fun phase_ok :: "byte list \<Rightarrow> round_phase \<Rightarrow> bool" where
  "phase_ok out (Sending fd off) \<longleftrightarrow> 1 \<le> fd \<and> 0 \<le> off \<and> off < 2 ^ 40 \<and> off \<le> int (length out)"
| "phase_ok out p \<longleftrightarrow> True"

text \<open>
  \<open>st\<close> is the store at the start, \<open>inbox\<close> what the connections will receive, \<open>W\<close> the number of
  writes that the kernel has room for.
\<close>

definition conns_inv ::
  "kernel \<Rightarrow> nat \<Rightarrow> ptr \<Rightarrow> ptr \<Rightarrow> nat \<Rightarrow> dev_spec \<Rightarrow> (nat \<Rightarrow> byte list list) \<Rightarrow> dserver \<Rightarrow> bool" where
  "conns_inv K N obuf rbuf W st inbox s \<longleftrightarrow> use_dev (shared s) \<and>
     (\<forall>t. dev_inv K N obuf (world s t) \<and> phase_ok (csent (conns s t)) (cphase (conns s t)) \<and>
       W \<le> dev_budget N (world s t) + length (arrivals s) \<and> buffer_ok rbuf (conns s t) \<and>
       (\<exists>got. got @ cinbox (conns s t) = inbox t \<and> kept got (map snd (filter (\<lambda>a. fst a = t) (arrivals s))))) \<and>
     stored s = after_chunks (arrivals s) st \<and> (\<forall>a \<in> set (arrivals s). length (snd a) \<le> 2000) \<and> fits W st"

lemma world_simps [simp]:
  "kst (world s t) = kernel_st s" "dfile (world s t) = cfile (conns s t)"
  "dsent (world s t) = csent (conns s t)" "dinbox (world s t) = cinbox (conns s t)"
  by (simp_all add: world_def)

lemma put_simps [simp]:
  "kernel_st (put s t p g w) = kst w" "shared (put s t p g w) = g" "arrivals (put s t p g w) = arrivals s"
  "world (put s t p g w) t = w" "csent (conns (put s t p g w) t) = dsent w"
  "cinbox (conns (put s t p g w) t) = dinbox w" "cphase (conns (put s t p g w) t) = p"
  "u \<noteq> t \<Longrightarrow> conns (put s t p g w) u = conns s u"
  by (simp_all add: put_def world_def)

lemma arrivals_simps [simp]:
  "world (s\<lparr>arrivals := as\<rparr>) t = world s t" "conns (s\<lparr>arrivals := as\<rparr>) = conns s"
  "stored (s\<lparr>arrivals := as\<rparr>) = stored s" "held (s\<lparr>arrivals := as\<rparr>) = held s"
  by (simp_all add: world_def stored_def held_def)

lemma stored_put [simp]: "stored (put s t p g w) = dev_store (kst w)"
  by (simp add: stored_def)

text \<open>What another connection sees after a step: the driver of the one that made it.\<close>

lemma dev_inv_other:
  assumes "dev_inv K N obuf w" and "dev_inv K N obuf (world s u)" and "u \<noteq> t"
  shows "dev_inv K N obuf (world (put s t p g w) u)"
  using assms by (simp add: dev_inv_def)

lemma dev_budget_other: "u \<noteq> t \<Longrightarrow> dev_budget N (world (put s t p g w) u) = dev_budget N w"
  by (simp add: dev_budget_def)

lemma put_buf_simps [simp]:
  "world (put_buf s t b) u = world s u" "kernel_st (put_buf s t b) = kernel_st s" "shared (put_buf s t b) = shared s"
  "arrivals (put_buf s t b) = arrivals s" "u \<noteq> t \<Longrightarrow> conns (put_buf s t b) u = conns s u"
  "put_buf s t (cbuf (conns s t)) = s" "stored (put_buf s t b) = stored s"
  "cbuf (conns (put (put_buf s t b) t p g w) t) = b" "caddr (conns (put (put_buf s t b) t p g w) t) = caddr (conns s t)"
  by (simp_all add: put_buf_def put_def world_def stored_def fun_upd_idem)

lemma conns_inv_step:
  assumes inv: "conns_inv K N obuf rbuf W st inbox s" and w: "dev_inv K N obuf w" and g: "use_dev g"
    and p: "phase_ok (dsent w) p" and budget: "W \<le> dev_budget N w + length (arrivals s @ as)"
    and store: "dev_store (kst w) = after_chunks (arrivals s @ as) st"
    and mine: "used @ dinbox w = cinbox (conns s t)" "\<forall>a \<in> set as. fst a = t \<and> length (snd a) \<le> 2000"
      "\<And>got old. kept got old \<Longrightarrow> kept (got @ used) (old @ map snd as)"
    and b: "length b = 2000"
  shows "conns_inv K N obuf rbuf W st inbox ((put (put_buf s t b) t p g w)\<lparr>arrivals := arrivals s @ as\<rparr>)"
    (is "conns_inv _ _ _ _ _ _ _ ?s")
proof -
  have "dev_inv K N obuf (world ?s u) \<and> phase_ok (csent (conns ?s u)) (cphase (conns ?s u)) \<and>
      W \<le> dev_budget N (world ?s u) + length (arrivals ?s) \<and> buffer_ok rbuf (conns ?s u) \<and>
      (\<exists>got. got @ cinbox (conns ?s u) = inbox u \<and> kept got (map snd (filter (\<lambda>a. fst a = u) (arrivals ?s))))" for u
  proof -
    obtain got where old: "dev_inv K N obuf (world s u)" "phase_ok (csent (conns s u)) (cphase (conns s u))"
      "buffer_ok rbuf (conns s u)" "got @ cinbox (conns s u) = inbox u"
      "kept got (map snd (filter (\<lambda>a. fst a = u) (arrivals s)))"
      using inv unfolding conns_inv_def by blast
    show ?thesis
    proof (cases "u = t")
      case True
      have "filter (\<lambda>a. fst a = t) as = as" using mine(2) by (simp add: filter_id_conv)
      moreover have "(got @ used) @ dinbox w = inbox t" using mine(1) old(4) True by simp
      then have "\<exists>got. got @ dinbox w = inbox t \<and>
          kept got (map snd (filter (\<lambda>a. fst a = t) (arrivals s)) @ map snd as)"
        using mine(3) [OF old(5)] True by blast
      ultimately show ?thesis
        using True w p budget old(3) b by (simp add: buffer_ok_def)
    next
      case False
      have "filter (\<lambda>a. fst a = u) as = []" using mine(2) False by (auto simp: filter_empty_conv)
      moreover have "dev_inv K N obuf (world (put_buf s t b) u)" using old(1) by simp
      ultimately show ?thesis
        using False old budget dev_inv_other [OF w _ False] dev_budget_other [OF False] by auto
    qed
  qed
  moreover have "\<forall>a \<in> set (arrivals ?s). length (snd a) \<le> 2000"
    using inv mine(2) by (auto simp: conns_inv_def)
  moreover have "fits W st" using inv by (simp add: conns_inv_def)
  ultimately show ?thesis using g store by (simp add: conns_inv_def)
qed

text \<open>The store stays within the bound of \<open>fits\<close>.\<close>

lemma spec_grows:
  "length (concat (fst (write_spec c st))) + length (snd (write_spec c st)) \<le>
    length (concat (fst st)) + length (snd st) + length c"
proof -
  have "length (concat (lastn 10 xs)) \<le> length (concat xs)" for xs :: "byte list list"
    by (metis append_take_drop_id concat_append lastn_def le_add2 length_append)
  from this [of "fst st @ [snd st @ c]"] show ?thesis by (cases st) auto
qed

lemma chunks_grow:
  assumes "\<forall>a \<in> set as. length (snd a) \<le> 2000"
  shows "length (concat (fst (after_chunks as st))) + length (snd (after_chunks as st)) \<le>
    length (concat (fst st)) + length (snd st) + 2000 * length as"
  using assms
proof (induction as rule: rev_induct)
  case (snoc a as)
  then show ?case
    using spec_grows [of "snd a" "after_chunks as st"] by (cases a) (simp del: write_spec.simps)
qed simp

lemma stored_fits:
  assumes inv: "conns_inv K N obuf rbuf W st inbox s" and room: "length (arrivals s) \<le> W"
  shows "length (concat (fst (stored s))) < 2 ^ 32"
proof -
  have st: "stored s = after_chunks (arrivals s) st" "\<forall>a \<in> set (arrivals s). length (snd a) \<le> 2000" "fits W st"
    using inv unfolding conns_inv_def by blast+
  show ?thesis
    unfolding st(1) using chunks_grow [OF st(2), of st] st(3) room unfolding fits_def by linarith
qed

section \<open>The parts of a round\<close>

text \<open>What a read returns lies in the contents.\<close>

lemma read_spec_end: "read_spec cmds pos count \<noteq> [] \<Longrightarrow> pos + length (read_spec cmds pos count) \<le> length (concat cmds)"
proof -
  assume ne: "read_spec cmds pos count \<noteq> []"
  let ?n = "length (read_spec cmds pos count)"
  have "?n \<le> length (drop pos (concat cmds))"
    using read_spec_prefix [of cmds pos count] by (metis length_take min.cobounded1)
  then show ?thesis using ne by (cases "pos \<le> length (concat cmds)") auto
qed

lemma conns_invD:
  assumes "conns_inv K N obuf rbuf W st inbox s"
  shows "dev_inv K N obuf (world s t)" and "phase_ok (csent (conns s t)) (cphase (conns s t))"
    and "W \<le> dev_budget N (world s t) + length (arrivals s)" and "set (cinbox (conns s t)) \<subseteq> set (inbox t)"
    and "length (cbuf (conns s t)) = 2000" and "\<forall>i < 2000. 24 \<le> unat (caddr (conns s t) + of_nat i - rbuf)"
proof -
  obtain got where all: "dev_inv K N obuf (world s t)" "phase_ok (csent (conns s t)) (cphase (conns s t))"
      "W \<le> dev_budget N (world s t) + length (arrivals s)" "buffer_ok rbuf (conns s t)"
      "got @ cinbox (conns s t) = inbox t"
    using assms unfolding conns_inv_def by blast
  then show "dev_inv K N obuf (world s t)" "phase_ok (csent (conns s t)) (cphase (conns s t))"
    "W \<le> dev_budget N (world s t) + length (arrivals s)" "length (cbuf (conns s t)) = 2000"
    "\<forall>i < 2000. 24 \<le> unat (caddr (conns s t) + of_nat i - rbuf)"
    by (simp_all add: buffer_ok_def)
  show "set (cinbox (conns s t)) \<subseteq> set (inbox t)" using all(5) by (metis set_append sup_ge2)
qed

lemma conns_inv_shared:
  assumes "conns_inv K N obuf rbuf W st inbox s"
  shows "use_dev (shared s)" and "stored s = after_chunks (arrivals s) st"
  using assms unfolding conns_inv_def by blast+

text \<open>A step that stores nothing.\<close>

lemma conns_inv_same:
  assumes inv: "conns_inv K N obuf rbuf W st inbox s" and w: "dev_inv K N obuf w" and g: "use_dev g"
    and p: "phase_ok (dsent w) p" and same: "dev_store (kst w) = stored s" "used @ dinbox w = cinbox (conns s t)"
      "dev_budget N w = dev_budget N (world s t)"
    and kept: "\<And>got old. kept got old \<Longrightarrow> kept (got @ used) old" and b: "length b = 2000"
  shows "conns_inv K N obuf rbuf W st inbox (put (put_buf s t b) t p g w)"
proof -
  note d = conns_invD [OF inv, of t] and e = conns_inv_shared [OF inv]
  have "conns_inv K N obuf rbuf W st inbox ((put (put_buf s t b) t p g w)\<lparr>arrivals := arrivals s @ []\<rparr>)"
    by (rule conns_inv_step [OF inv w g p _ _ same(2) _ _ b]) (use d(3) e(2) same kept in auto)
  then show ?thesis by (simp add: put_def put_buf_def)
qed

lemma conns_inv_quiet:
  assumes "conns_inv K N obuf rbuf W st inbox s" and "dev_inv K N obuf w" and "use_dev g"
    and "phase_ok (dsent w) p" and "dev_store (kst w) = stored s" "dinbox w = cinbox (conns s t)"
      "dev_budget N w = dev_budget N (world s t)"
  shows "conns_inv K N obuf rbuf W st inbox (put s t p g w)"
  using conns_inv_same [OF assms(1-5) _ assms(7), of "[]" "cbuf (conns s t)"] assms(6)
    conns_invD(5) [OF assms(1)] by simp

lemma open_part:
  assumes inv: "conns_inv K N obuf rbuf W st inbox s"
  shows "\<exists>fd w. lock_file (shared s) = Inr (shared s) \<and>
    px_open (device_posix K ibuf obuf rbuf) ReadOnly (world s t) = Inr (fd, w) \<and> 1 \<le> fd \<and>
    dev_store (kst w) = stored s \<and> dsent w = csent (conns s t) \<and>
    conns_inv K N obuf rbuf W st inbox (put s t (Sending fd 0) (shared s) w)"
proof -
  note d = conns_invD [OF inv, of t] and e = conns_inv_shared [OF inv]
  obtain fd w where w: "px_open (device_posix K ibuf obuf rbuf) ReadOnly (world s t) = Inr (fd, w)" "1 \<le> fd"
    "dev_inv K N obuf w" "(dev_store (kst w), dsent w, dinbox w, dev_budget N w) =
      (dev_store (kst (world s t)), dsent (world s t), dinbox (world s t), dev_budget N (world s t))"
    using char_device.open_law [OF d(1), of ibuf rbuf ReadOnly] by blast
  have "conns_inv K N obuf rbuf W st inbox (put s t (Sending fd 0) (shared s) w)"
    by (rule conns_inv_quiet [OF inv w(3) e(1)]) (use w in \<open>simp_all add: stored_def\<close>)
  then show ?thesis using w e(1) by (auto simp: lock_file_def stored_def)
qed

lemma send_round:
  assumes inv: "conns_inv K N obuf rbuf W st inbox s" and t: "cphase (conns s t) = Sending fd off"
    and bs: "bs = read_spec (fst (stored s)) (nat off) 100"
  shows "\<exists>w w' w''. px_lseek (device_posix K ibuf obuf rbuf) fd off (world s t) = Inr w \<and>
    px_read (device_posix K ibuf obuf rbuf) fd 100 w = Inr (int (length bs), bs, w') \<and>
    (if bs = [] then px_close (device_posix K ibuf obuf rbuf) fd w' = Inr w'' \<and>
        unlock_file ((shared s)\<lparr>is_working := False\<rparr>) = Inr ((shared s)\<lparr>is_working := False\<rparr>) \<and>
        dsent w'' = csent (conns s t) \<and>
        conns_inv K N obuf rbuf W st inbox (put s t Receiving ((shared s)\<lparr>is_working := False\<rparr>) w'')
      else px_send (device_posix K ibuf obuf rbuf) (int t) bs w' = Inr w'' \<and>
        dsent w'' = csent (conns s t) @ bs \<and>
        conns_inv K N obuf rbuf W st inbox (put s t (Sending fd (off + int (length bs))) (shared s) w'')) \<and>
    dev_store (kst w'') = stored s"
proof -
  note d = conns_invD [OF inv, of t] and e = conns_inv_shared [OF inv]
  have off: "1 \<le> fd" "0 \<le> off" "off < 2 ^ 40" "off \<le> int (length (csent (conns s t)))"
    using d(2) t by simp_all
  have "nat off < 2 ^ 64" using off(3) by (simp add: nat_less_iff)
  then obtain w w' where w: "px_lseek (device_posix K ibuf obuf rbuf) fd off (world s t) = Inr w"
    "px_read (device_posix K ibuf obuf rbuf) fd 100 w = Inr (int (length bs), bs, w')"
    "dev_inv K N obuf w'" "dev_store (kst w') = stored s" "dsent w' = csent (conns s t)"
    "dinbox w' = cinbox (conns s t)" "dev_budget N w' = dev_budget N (world s t)"
    using dev_read_at [OF d(1) off(2), of bs ibuf rbuf fd] bs by (auto simp: stored_def)
  show ?thesis
  proof (cases "bs = []")
    case True
    obtain w'' where w'': "px_close (device_posix K ibuf obuf rbuf) fd w' = Inr w''" "dev_inv K N obuf w''"
      "(dev_store (kst w''), dsent w'', dinbox w'', dev_budget N w'') =
        (dev_store (kst w'), dsent w', dinbox w', dev_budget N w')"
      using char_device.close_law [OF w(3), of ibuf rbuf fd] by blast
    have "conns_inv K N obuf rbuf W st inbox (put s t Receiving ((shared s)\<lparr>is_working := False\<rparr>) w'')"
      by (rule conns_inv_quiet [OF inv w''(2)]) (use w w'' e(1) in simp_all)
    then show ?thesis using True w w'' e(1) by (auto simp: unlock_file_def)
  next
    case False
    obtain w'' where w'': "px_send (device_posix K ibuf obuf rbuf) (int t) bs w' = Inr w''" "dev_inv K N obuf w''"
      "(dev_store (kst w''), dsent w'', dinbox w'', dev_budget N w'') =
        (dev_store (kst w'), dsent w' @ bs, dinbox w', dev_budget N w')"
      using char_device.send_law [OF w(3), of ibuf rbuf "int t" bs] by blast
    have "length (held s) < 2 ^ 40" using d(1) by (auto elim!: dev_invE simp: held_def stored_def)
    moreover have "off + int (length bs) \<le> int (length (held s))"
      using off(2) False read_spec_end [of "fst (stored s)" "nat off" 100] unfolding bs held_def by linarith
    ultimately have "off + int (length bs) < 2 ^ 40" by simp
    then have "phase_ok (dsent w'') (Sending fd (off + int (length bs)))"
      using off w''(3) w(5) by simp
    then have "conns_inv K N obuf rbuf W st inbox (put s t (Sending fd (off + int (length bs))) (shared s) w'')"
      by (intro conns_inv_quiet [OF inv w''(2) e(1)]) (use w w'' in simp_all)
    then show ?thesis using False w w'' by auto
  qed
qed

section \<open>What a step does\<close>

text \<open>The effect of a step of connection \<open>t\<close> on the store, on what it has sent and on where it is.\<close>

inductive effect :: "dserver \<Rightarrow> nat \<Rightarrow> dserver \<Rightarrow> bool" for s t s' where
  stores: "cphase (conns s t) = Receiving \<Longrightarrow> cinbox (conns s t) = c # cs \<Longrightarrow> cinbox (conns s' t) = cs \<Longrightarrow>
    stored_as (stored s) c c' \<Longrightarrow> arrivals s' = arrivals s @ [(t, c')] \<Longrightarrow> stored s' = write_spec c' (stored s) \<Longrightarrow>
    csent (conns s' t) = csent (conns s t) \<Longrightarrow>
    cphase (conns s' t) = (if newline \<in> set c' then Opening else Receiving) \<Longrightarrow> effect s t s'"
| seeks: "cphase (conns s t) = Receiving \<Longrightarrow> cinbox (conns s t) = c # cs \<Longrightarrow> cinbox (conns s' t) = cs \<Longrightarrow>
    is_seek c k off \<Longrightarrow> out = seek_answer (stored s) k off \<Longrightarrow> length out \<noteq> 1 \<Longrightarrow>
    arrivals s' = arrivals s \<Longrightarrow> stored s' = stored s \<Longrightarrow> csent (conns s' t) = csent (conns s t) @ out \<Longrightarrow>
    cphase (conns s' t) = Receiving \<Longrightarrow> effect s t s'"
| opens: "cphase (conns s t) = Opening \<Longrightarrow> arrivals s' = arrivals s \<Longrightarrow> stored s' = stored s \<Longrightarrow>
    csent (conns s' t) = csent (conns s t) \<Longrightarrow> cphase (conns s' t) = Sending fd 0 \<Longrightarrow> effect s t s'"
| sends: "cphase (conns s t) = Sending fd off \<Longrightarrow> arrivals s' = arrivals s \<Longrightarrow> stored s' = stored s \<Longrightarrow>
    bs = read_spec (fst (stored s)) (nat off) 100 \<Longrightarrow> bs \<noteq> [] \<Longrightarrow>
    csent (conns s' t) = csent (conns s t) @ bs \<Longrightarrow>
    cphase (conns s' t) = Sending fd (off + int (length bs)) \<Longrightarrow> effect s t s'"
| ends: "cphase (conns s t) = Sending fd off \<Longrightarrow> arrivals s' = arrivals s \<Longrightarrow> stored s' = stored s \<Longrightarrow>
    read_spec (fst (stored s)) (nat off) 100 = [] \<Longrightarrow> csent (conns s' t) = csent (conns s t) \<Longrightarrow>
    cphase (conns s' t) = Receiving \<Longrightarrow> effect s t s'"

inductive_cases effectE: "effect s t s'"

section \<open>A chunk received\<close>

text \<open>The world of a connection that has received a chunk and has \<open>cs\<close> left.\<close>

definition received :: "kernel \<Rightarrow> nat \<Rightarrow> ptr \<Rightarrow> dserver \<Rightarrow> nat \<Rightarrow> byte list list \<Rightarrow> dev_world \<Rightarrow> bool" where
  "received K N obuf s t cs w \<longleftrightarrow> dev_inv K N obuf w \<and>
     (dev_store (kst w), dsent w, dinbox w, dev_budget N w) =
       (stored s, csent (conns s t), cs, dev_budget N (world s t))"

lemma receives_chunk:
  assumes inv: "conns_inv K N obuf rbuf W st inbox s" and t: "cinbox (conns s t) = c # cs"
    and c: "length c < 2000" and buffer: "buffer = c @ drop (length c) (cbuf (conns s t))"
  obtains w where "px_recv (device_posix K ibuf obuf rbuf) (int t) 2000 (world s t) = Inr (int (length c), c, w)"
    "fill (cbuf (conns s t)) 0 c = Inr buffer" "length buffer = 2000" "received K N obuf s t cs w"
proof -
  note d = conns_invD [OF inv, of t]
  obtain w where "px_recv (device_posix K ibuf obuf rbuf) (int t) 2000 (world s t) = Inr (int (length c), c, w)"
    "dev_inv K N obuf w" "(dev_store (kst w), dsent w, dinbox w, dev_budget N w) =
      (stored s, csent (conns s t), cs, dev_budget N (world s t))"
    using char_device.recv_law(2) [OF d(1), of c cs 2000 ibuf rbuf "int t"] t c by (auto simp: stored_def)
  then show thesis using that d(5) c buffer by (simp add: received_def fill_ok)
qed

text \<open>A seek command.\<close>

lemma seek_tried:
  assumes inv: "conns_inv K N obuf rbuf W st inbox s" and c: "is_seek c k off"
    and buffer: "buffer = c @ drop (length c) (cbuf (conns s t))" and w: "received K N obuf s t cs w"
    and room: "length (arrivals s) < W" and out: "out = seek_answer (stored s) k off"
  shows "if length out \<le> 500
    then \<exists>buffer' w'. handle_ioctl_commainds (px_ioctl (device_posix K ibuf obuf rbuf)) (caddr (conns s t)) buffer
        (int (length c)) w = Inr (int (length out), buffer', w') \<and> received K N obuf s t cs w' \<and>
      length buffer' = 2000 \<and> take (length out) buffer' = out \<and>
      (length out = 1 \<longrightarrow> stored_as (stored s) c (take (length c) buffer'))
    else handle_ioctl_commainds (px_ioctl (device_posix K ibuf obuf rbuf)) (caddr (conns s t)) buffer
        (int (length c)) w = Inl OutOfBounds"
proof -
  note d = conns_invD [OF inv, of t]
  obtain ks ds x where num: "c = seek_message ks ds x" "list_all is_digit ks" "ks \<noteq> []" "length ks \<le> 3"
    "list_all is_digit ds" "ds \<noteq> []" "length ds \<le> 3" "\<not> is_digit x" "x \<noteq> newline"
    "decimal ks = int k" "decimal ds = int off" "k \<le> 10"
    using c unfolding is_seek_def by blast
  have len: "23 \<le> length c" "length c \<le> 27" "off < 2 ^ 32" using is_seekD [OF c] by blast+
  obtain y R where R: "drop (length c) (cbuf (conns s t)) = y # R"
    using len(2) d(5) by (cases "drop (length c) (cbuf (conns s t))") auto
  have lenR: "length (c @ y # R) = 2000" unfolding R [symmetric] using len(2) d(5) by simp
  obtain cmds pend where st: "stored s = (cmds, pend)" by force
  have wst: "dev_store (kst w) = (cmds, pend)" and winv: "dev_inv K N obuf w"
    and wb: "dev_budget N w = dev_budget N (world s t)"
    using w st by (simp_all add: received_def)
  have "0 < dev_budget N w" using d(3) room wb by simp
  then have blocks: "card (dom (heap (kst w))) + 1 \<le> N" by (simp add: dev_budget_def) linarith
  have small: "length (concat cmds) < 2 ^ 32" using stored_fits [OF inv] room st by simp
  have out': "out = seek_spec cmds (k mod 10) off" using out st by (simp add: seek_answer_def)
  have apart: "\<forall>i < length (c @ y # R). 24 \<le> unat (caddr (conns s t) + of_nat i - rbuf)"
    unfolding lenR by (rule d(6))
  have bounds: "500 \<le> length (c @ y # R)" "length (c @ y # R) < 2 ^ 64" unfolding lenR by simp_all
  note law = dev_seek_law [OF winv blocks num(2-9) wst small num(10,12,11) len(3) out' num(1) bounds apart, of ibuf]
  have buf: "buffer = c @ y # R" using buffer R by simp
  show ?thesis
  proof (cases "length out \<le> 500")
    case True
    let ?b = "out @ drop (length out) (c @ 0 # R)"
    obtain w' where w': "handle_ioctl_commainds (px_ioctl (device_posix K ibuf obuf rbuf)) (caddr (conns s t)) buffer
        (int (length c)) w = Inr (int (length out), ?b, w')" "dev_inv K N obuf w'"
      "(dev_store (kst w'), dsent w', dinbox w', dev_budget N w') = (dev_store (kst w), dsent w, dinbox w, dev_budget N w)"
      using law True buf by auto
    have "received K N obuf s t cs w'" using w'(2,3) w by (simp add: received_def)
    moreover have "length ?b = 2000" using lenR True by simp
    moreover have "stored_as (stored s) c (take (length c) ?b)" if one: "length out = 1"
    proof -
      obtain b where b: "out = [b]" using one by (auto simp: length_Suc_conv)
      have "take (length c) ?b = b # tl c" using len(1) by (cases c) (simp_all add: b)
      then show ?thesis using c out b by (auto simp: stored_as_def)
    qed
    ultimately show ?thesis using True w'(1) by auto
  next
    case False
    then show ?thesis using law buf by simp
  qed
qed

text \<open>What the buffer holds is stored.\<close>

lemma store_rest:
  assumes inv: "conns_inv K N obuf rbuf W st inbox s" and t: "cphase (conns s t) = Receiving" "cinbox (conns s t) = c # cs"
    and w: "received K N obuf s t cs w" and b: "length b = 2000" "stored_as (stored s) c (take (length c) b)"
    and room: "length (arrivals s) < W"
  obtains d w' s' where "dump_buffer_to_file (device_posix K ibuf obuf rbuf) (int (length c)) b (shared s, w) = Inr (shared s, w')"
    "find_delimter_position b 0 (int (length c)) = Inr d"
    "s' = (put (put_buf s t b) t (if d \<noteq> - 1 then Opening else Receiving) (shared s) w')
      \<lparr>arrivals := arrivals s @ [(t, take (length c) b)]\<rparr>"
    "conns_inv K N obuf rbuf W st inbox s'" "effect s t s'"
proof -
  note d = conns_invD [OF inv, of t] and e = conns_inv_shared [OF inv]
  let ?c = "take (length c) b"
  have c: "?c \<noteq> []" "length c < 2000" using stored_asD [OF b(2)] by auto
  have "0 < dev_budget N w" using w d(3) room by (simp add: received_def)
  then obtain w' where w': "dump_buffer_to_file (device_posix K ibuf obuf rbuf) (int (length c)) b (shared s, w) =
      Inr (shared s, w')" "dev_inv K N obuf w'" "dev_budget N w \<le> Suc (dev_budget N w')"
    "(dev_store (kst w'), dsent w', dinbox w') = (write_spec ?c (dev_store (kst w)), dsent w, dinbox w)"
    using char_device.dump_buffer_stores [of K N obuf w "shared s" "length c" b ibuf rbuf] w e(1) c b(1)
    by (auto simp: received_def)
  obtain r where r: "find_delimter_position b 0 (int (length c)) = Inr r" "r = - 1 \<longleftrightarrow> newline \<notin> set ?c"
    using find_delim_filled [of "[]" ?c b] b(1) c(2) by auto
  let ?p = "if r \<noteq> - 1 then Opening else Receiving"
  let ?s = "(put (put_buf s t b) t ?p (shared s) w')\<lparr>arrivals := arrivals s @ [(t, ?c)]\<rparr>"
  have "conns_inv K N obuf rbuf W st inbox ?s"
  proof (rule conns_inv_step [OF inv w'(2) e(1), where used = "[c]"])
    show "dev_store (kst w') = after_chunks (arrivals s @ [(t, ?c)]) st"
      using w'(4) w e(2) by (simp add: received_def)
    show "kept (got @ [c]) (old @ map snd [(t, ?c)])" if "kept got old" for got old
      using kept_stored [OF that b(2)] by simp
  qed (use w w' d(3) t b c in \<open>auto simp: received_def\<close>)
  moreover have "effect s t ?s"
    by (rule stores [OF t _ b(2)]) (use w w' r(2) in \<open>simp_all add: received_def\<close>)
  ultimately show thesis using that w'(1) r(1) by blast
qed

text \<open>An answer is sent.\<close>

lemma answer_rest:
  assumes inv: "conns_inv K N obuf rbuf W st inbox s" and t: "cphase (conns s t) = Receiving" "cinbox (conns s t) = c # cs"
    and w: "received K N obuf s t cs w" and b: "length b = 2000" and c: "is_seek c k off"
    and out: "out = seek_answer (stored s) k off" "length out \<noteq> 1"
  obtains w' s' where "px_send (device_posix K ibuf obuf rbuf) (int t) out w = Inr w'" "out = [] \<Longrightarrow> w' = w"
    "s' = put (put_buf s t b) t Receiving (shared s) w'" "conns_inv K N obuf rbuf W st inbox s'" "effect s t s'"
proof -
  note e = conns_inv_shared [OF inv]
  obtain w' where w': "px_send (device_posix K ibuf obuf rbuf) (int t) out w = Inr w'" "dev_inv K N obuf w'"
    "(dev_store (kst w'), dsent w', dinbox w', dev_budget N w') =
        (dev_store (kst w), dsent w @ out, dinbox w, dev_budget N w)"
    using char_device.send_law [of K N obuf w ibuf rbuf "int t" out] w by (auto simp: received_def)
  let ?s = "put (put_buf s t b) t Receiving (shared s) w'"
  have "conns_inv K N obuf rbuf W st inbox ?s"
  proof (rule conns_inv_same [OF inv w'(2) e(1), where used = "[c]"])
    show "kept (got @ [c]) old" if "kept got old" for got old using that c by (rule kept_seek)
  qed (use w w' t b in \<open>auto simp: received_def\<close>)
  moreover have "effect s t ?s"
    by (rule seeks [OF t _ c out]) (use w w' in \<open>simp_all add: received_def\<close>)
  moreover have "out = [] \<Longrightarrow> w' = w" using w'(1) by (simp add: device_posix_def)
  ultimately show thesis using that w'(1) by blast
qed

section \<open>Every step has its effect\<close>

lemma receives_whole:
  assumes "px_recv (device_posix K ibuf obuf rbuf) fd 2000 w = Inr (n, bs, w')" and "1 \<le> n"
    and "list_all device_chunk (dinbox w)"
  shows "\<exists>cs. dinbox w = bs # cs \<and> n = int (length bs)"
  using assms
  by (cases "dinbox w") (auto simp: device_posix_def take_chunk_def dest: device_chunkD split: if_splits)

text \<open>What a connection can do that has not a chunk to receive.\<close>

lemma answering_effect:
  assumes step: "dev_step (device_posix K ibuf obuf rbuf) s s'" and inv: "conns_inv K N obuf rbuf W st inbox s"
    and busy: "cphase (conns s v) \<noteq> Receiving" "cphase (conns s' v) \<noteq> cphase (conns s v)"
  shows "conns_inv K N obuf rbuf W st inbox s' \<and> effect s v s' \<and> (\<forall>u. u \<noteq> v \<longrightarrow> conns s' u = conns s u)"
  using step
proof (cases rule: dev_step.cases)
  case (store_chunk t)
  then show ?thesis using busy by (cases "t = v") simp_all
next
  case (answer_seek t)
  then show ?thesis using busy by (cases "t = v") simp_all
next
  case (blank_seek t)
  then show ?thesis using busy by (cases "t = v") simp_all
next
  case (open_device t g fd w)
  have tv: "t = v" using busy(2) open_device(1) by (cases "t = v") simp_all
  obtain fd' w' where w: "lock_file (shared s) = Inr (shared s)"
    "px_open (device_posix K ibuf obuf rbuf) ReadOnly (world s t) = Inr (fd', w')"
    "dev_store (kst w') = stored s" "dsent w' = csent (conns s t)"
    "conns_inv K N obuf rbuf W st inbox (put s t (Sending fd' 0) (shared s) w')"
    using open_part [OF inv, of ibuf t] by blast
  then have eq: "g = shared s" "fd = fd'" "w = w'" using open_device(3,4) by simp_all
  have "effect s t s'" unfolding open_device(1)
    by (rule opens [OF open_device(2)]) (use eq w in simp_all)
  then show ?thesis using open_device(1) eq w(5) tv by auto
next
  case (send_part t fd off w n bs w' w'')
  have tv: "t = v" using busy(2) send_part(1) by (cases "t = v") simp_all
  obtain b v v' v'' where b: "b = read_spec (fst (stored s)) (nat off) 100"
    and v: "px_lseek (device_posix K ibuf obuf rbuf) fd off (world s t) = Inr v"
    "px_read (device_posix K ibuf obuf rbuf) fd 100 v = Inr (int (length b), b, v')"
    "b \<noteq> [] \<Longrightarrow> px_send (device_posix K ibuf obuf rbuf) (int t) b v' = Inr v'' \<and>
        dsent v'' = csent (conns s t) @ b \<and>
        conns_inv K N obuf rbuf W st inbox (put s t (Sending fd (off + int (length b))) (shared s) v'')"
    "dev_store (kst v'') = stored s"
    using send_round [OF inv send_part(2) refl, of ibuf] by metis
  have eq: "bs = b" "n = int (length b)" "b \<noteq> []" using send_part(3-5) v(1,2) by auto
  then have w'': "w'' = v''" using send_part(3,4,6) v by auto
  have "effect s t s'" unfolding send_part(1)
    by (rule sends [OF send_part(2) _ _ b eq(3)]) (use eq w'' v in simp_all)
  then show ?thesis using send_part(1) eq w'' v(3) tv by auto
next
  case (send_done t fd off w n bs w' w'' g)
  have tv: "t = v" using busy(2) send_done(1) by (cases "t = v") simp_all
  obtain b v v' v'' where b: "b = read_spec (fst (stored s)) (nat off) 100"
    and v: "px_lseek (device_posix K ibuf obuf rbuf) fd off (world s t) = Inr v"
    "px_read (device_posix K ibuf obuf rbuf) fd 100 v = Inr (int (length b), b, v')"
    "b = [] \<Longrightarrow> px_close (device_posix K ibuf obuf rbuf) fd v' = Inr v'' \<and>
        unlock_file ((shared s)\<lparr>is_working := False\<rparr>) = Inr ((shared s)\<lparr>is_working := False\<rparr>) \<and>
        dsent v'' = csent (conns s t) \<and>
        conns_inv K N obuf rbuf W st inbox (put s t Receiving ((shared s)\<lparr>is_working := False\<rparr>) v'')"
    "dev_store (kst v'') = stored s"
    using send_round [OF inv send_done(2) refl, of ibuf] by metis
  have eq: "b = []" using send_done(3-5) v(1,2) by auto
  then have w'': "w'' = v''" "g = (shared s)\<lparr>is_working := False\<rparr>" using send_done(3,4,6,7) v by auto
  have "effect s t s'" unfolding send_done(1)
    by (rule ends [OF send_done(2)]) (use eq b w'' v in simp_all)
  then show ?thesis using send_done(1) eq w'' v(3) tv by auto
qed

lemma received_tried:
  assumes inv: "conns_inv K N obuf rbuf W st inbox s" and chunks: "\<forall>t. list_all device_chunk (inbox t)"
    and room: "length (arrivals s) < W"
    and recv: "px_recv (device_posix K ibuf obuf rbuf) (int t) 2000 (world s t) = Inr (n, c, w)" "1 \<le> n"
    and buffer: "fill (cbuf (conns s t)) 0 c = Inr buffer"
    and tried: "handle_ioctl_commainds (px_ioctl (device_posix K ibuf obuf rbuf)) (caddr (conns s t)) buffer n w = Inr (m, b, w')"
  obtains cs where "cinbox (conns s t) = c # cs" "n = int (length c)" "received K N obuf s t cs w'" "length b = 2000"
    "m = - 1 \<and> plain_chunk c \<and> take (length c) b = c \<or>
      (\<exists>k off. is_seek c k off \<and> m = int (length (seek_answer (stored s) k off)) \<and>
        take (nat m) b = seek_answer (stored s) k off \<and> (m = 1 \<longrightarrow> stored_as (stored s) c (take (length c) b)))"
proof -
  let ?P = "device_posix K ibuf obuf rbuf"
  have all: "list_all device_chunk (dinbox (world s t))"
    using conns_invD(4) [OF inv, of t] chunks by (auto simp: list_all_iff)
  then obtain cs where cs: "cinbox (conns s t) = c # cs" "n = int (length c)"
    using receives_whole [OF recv] by auto
  then have c: "device_chunk c" using all by simp
  let ?b = "c @ drop (length c) (cbuf (conns s t))"
  obtain w0 where w0: "px_recv ?P (int t) 2000 (world s t) = Inr (int (length c), c, w0)"
    "fill (cbuf (conns s t)) 0 c = Inr ?b" "length ?b = 2000" "received K N obuf s t cs w0"
    using receives_chunk [OF inv cs(1) _ refl, of ibuf] device_chunkD [OF c] by blast
  have eq: "w = w0" "buffer = ?b" using recv(1) buffer w0(1,2) by simp_all
  show thesis
  proof (cases "plain_chunk c")
    case True
    then have "\<not> seek_text c (int (length c))" "length c < 2000" by (simp_all add: plain_chunk_def)
    then have "handle_ioctl_commainds (px_ioctl ?P) (caddr (conns s t)) buffer n w = Inr (- 1, buffer, w)"
      using w0(3) seek_text_prefix [of c buffer] by (intro not_a_seek) (simp_all add: eq(2) cs(2))
    then have "m = - 1" "b = ?b" "w' = w0" using tried eq by simp_all
    then show thesis using that [OF cs] w0(3,4) True by simp
  next
    case False
    then obtain k off where k: "is_seek c k off" using c by (auto simp: device_chunk_def)
    note law = seek_tried [OF inv k eq(2) w0(4) room refl, of ibuf]
    have "length (seek_answer (stored s) k off) \<le> 500"
      using law tried by (auto simp: eq(1) cs(2) split: if_splits)
    then show thesis using that [OF cs] law tried k by (auto simp: eq(1) cs(2))
  qed
qed

lemma dev_step_effect:
  assumes step: "dev_step (device_posix K ibuf obuf rbuf) s s'" and inv: "conns_inv K N obuf rbuf W st inbox s"
    and chunks: "\<forall>t. list_all device_chunk (inbox t)" and room: "length (arrivals s) < W"
  shows "conns_inv K N obuf rbuf W st inbox s' \<and> (\<exists>t. effect s t s' \<and> (\<forall>u. u \<noteq> t \<longrightarrow> conns s' u = conns s u))"
proof -
  let ?P = "device_posix K ibuf obuf rbuf"
  show ?thesis
    using step
  proof (cases rule: dev_step.cases)
    case (store_chunk t n c w buffer m b w1 g w2 d)
    note r = received_tried [OF inv chunks room store_chunk(3,5,4,6)]
    obtain cs where cs: "cinbox (conns s t) = c # cs" "n = int (length c)" "received K N obuf s t cs w1"
      "length b = 2000" "stored_as (stored s) c (take (length c) b)"
      by (rule r) (use store_chunk(7,8) in \<open>auto simp: le_Suc_eq\<close>)
    obtain d' w' s1 where rest: "dump_buffer_to_file ?P (int (length c)) b (shared s, w1) = Inr (shared s, w')"
      "find_delimter_position b 0 (int (length c)) = Inr d'"
      "s1 = (put (put_buf s t b) t (if d' \<noteq> - 1 then Opening else Receiving) (shared s) w')
        \<lparr>arrivals := arrivals s @ [(t, take (length c) b)]\<rparr>"
      "conns_inv K N obuf rbuf W st inbox s1" "effect s t s1"
      using store_rest [OF inv store_chunk(2) cs(1,3-5) room, of ibuf] by blast
    have "s' = s1" using store_chunk(1,9,10) rest(1-3) cs(2) by simp
    then show ?thesis using rest(3-5) by auto
  next
    case (answer_seek t n c w buffer m b w1 w2)
    note r = received_tried [OF inv chunks room answer_seek(3,5,4,6)]
    obtain cs k off where cs: "cinbox (conns s t) = c # cs" "received K N obuf s t cs w1"
      "length b = 2000" "is_seek c k off" "m = int (length (seek_answer (stored s) k off))"
      "take (nat m) b = seek_answer (stored s) k off"
      by (rule r) (use answer_seek(7) in auto)
    have ne: "length (seek_answer (stored s) k off) \<noteq> 1" using answer_seek(7) cs(5) by simp
    obtain w' s1 where rest: "px_send ?P (int t) (seek_answer (stored s) k off) w1 = Inr w'"
      "s1 = put (put_buf s t b) t Receiving (shared s) w'" "conns_inv K N obuf rbuf W st inbox s1" "effect s t s1"
      using answer_rest [OF inv answer_seek(2) cs(1-4) refl ne, of ibuf] by blast
    have "s' = s1" using answer_seek(1,9) rest(1,2) cs(6) by simp
    then show ?thesis using rest(2-4) by auto
  next
    case (blank_seek t n c w buffer b w1)
    note r = received_tried [OF inv chunks room blank_seek(3,5,4,6)]
    obtain cs k off where cs: "cinbox (conns s t) = c # cs" "received K N obuf s t cs w1"
      "length b = 2000" "is_seek c k off" "seek_answer (stored s) k off = []"
      by (rule r) auto
    have ne: "length (seek_answer (stored s) k off) \<noteq> 1" using cs(5) by simp
    obtain w' s1 where rest: "w' = w1" "s1 = put (put_buf s t b) t Receiving (shared s) w'"
      "conns_inv K N obuf rbuf W st inbox s1" "effect s t s1"
      using answer_rest [OF inv blank_seek(2) cs(1-4) refl ne, of ibuf] cs(5) by blast
    have "s' = s1" using blank_seek(1) rest(1,2) by simp
    then show ?thesis using rest(2-4) by auto
  next
    case (open_device t)
    then show ?thesis using answering_effect [OF step inv, of t] by auto
  next
    case (send_part t)
    then show ?thesis using answering_effect [OF step inv, of t] by auto
  next
    case (send_done t)
    then show ?thesis using answering_effect [OF step inv, of t] by auto
  qed
qed

section \<open>Runs\<close>

text \<open>
  A run of a server that starts with the driver in the state \<open>k\<close>: every chunk that arrives is
  shorter than the buffer, and a seek command among them well formed; the buffers are apart from
  the request of a seek command, at \<open>rbuf\<close>; the kernel has room for the writes made and one more.
\<close>

definition device_run ::
  "kernel \<Rightarrow> nat \<Rightarrow> ptr \<Rightarrow> ptr \<Rightarrow> ptr \<Rightarrow> kstate \<Rightarrow> (nat \<Rightarrow> byte list list) \<Rightarrow> dserver \<Rightarrow> bool" where
  "device_run K N ibuf obuf rbuf k inbox s \<longleftrightarrow> (\<exists>g f addr. use_dev g \<and> (\<forall>t. list_all device_chunk (inbox t)) \<and>
     (\<forall>t. \<forall>i < 2000. 24 \<le> unat (addr t + of_nat i - rbuf)) \<and> length (concat (fst (dev_store k))) \<le> 2147483647 \<and>
     dev_inv K N obuf (world (dserver_start k g f addr inbox) 0) \<and>
     dev_steps (device_posix K ibuf obuf rbuf) (dserver_start k g f addr inbox) s \<and>
     length (arrivals s) < dev_budget N (world (dserver_start k g f addr inbox) 0))"

lemma arrivals_grow: "dev_step P s s' \<Longrightarrow> length (arrivals s) \<le> length (arrivals s')"
  by (induction rule: dev_step.induct) simp_all

lemma fits_budget:
  assumes "length (concat (fst (dev_store k))) \<le> 2147483647"
    and "W = dev_budget N (world (dserver_start k g f addr inbox) 0)" and "0 < W"
  shows "fits W (dev_store k)"
proof -
  have "W \<le> (2147483647 - length (snd (dev_store k))) div 2000"
    using assms(2) by (simp add: dev_budget_def dserver_start_def)
  then show ?thesis using assms(1,3) by (simp add: fits_def)
qed

lemma conns_inv_start:
  assumes "use_dev g" and "dev_inv K N obuf (world (dserver_start k g f addr inbox) 0)"
    and "\<forall>t. \<forall>i < 2000. 24 \<le> unat (addr t + of_nat i - rbuf)" and "fits W (dev_store k)"
    and "W = dev_budget N (world (dserver_start k g f addr inbox) 0)"
  shows "conns_inv K N obuf rbuf W (dev_store k) inbox (dserver_start k g f addr inbox)"
  using assms
  by (simp add: conns_inv_def dserver_start_def stored_def dev_inv_def dev_budget_def world_def buffer_ok_def kept_start)

text \<open>Induction over a run, with the invariant at hand.\<close>

lemma device_run_induct [consumes 1, case_names start step]:
  assumes run: "device_run K N ibuf obuf rbuf k inbox s"
    and start: "\<And>g f addr. Q (dserver_start k g f addr inbox)"
    and step: "\<And>W s t s'. conns_inv K N obuf rbuf W (dev_store k) inbox s \<Longrightarrow>
      conns_inv K N obuf rbuf W (dev_store k) inbox s' \<Longrightarrow> Q s \<Longrightarrow> effect s t s' \<Longrightarrow>
      (\<forall>u. u \<noteq> t \<longrightarrow> conns s' u = conns s u) \<Longrightarrow> Q s'"
  shows "(\<exists>W. conns_inv K N obuf rbuf W (dev_store k) inbox s \<and> length (arrivals s) < W) \<and> Q s"
proof -
  obtain g f addr where g: "use_dev g" "\<forall>t. list_all device_chunk (inbox t)"
    "\<forall>t. \<forall>i < 2000. 24 \<le> unat (addr t + of_nat i - rbuf)" "length (concat (fst (dev_store k))) \<le> 2147483647"
    "dev_inv K N obuf (world (dserver_start k g f addr inbox) 0)"
    and steps: "dev_steps (device_posix K ibuf obuf rbuf) (dserver_start k g f addr inbox) s"
    and room: "length (arrivals s) < dev_budget N (world (dserver_start k g f addr inbox) 0)"
    using run unfolding device_run_def by blast
  define W where "W = dev_budget N (world (dserver_start k g f addr inbox) 0)"
  have fits: "fits W (dev_store k)" using fits_budget [OF g(4) W_def] room W_def by simp
  have "conns_inv K N obuf rbuf W (dev_store k) inbox s \<and> Q s"
    using steps room [folded W_def]
  proof induction
    case dev_refl
    show ?case using conns_inv_start [OF g(1,5,3) fits W_def] start by blast
  next
    case (dev_more s' s'')
    have less: "length (arrivals s') < W" using arrivals_grow [OF dev_more.hyps(2)] dev_more.prems by simp
    then have s': "conns_inv K N obuf rbuf W (dev_store k) inbox s'" "Q s'" using dev_more.IH by simp_all
    obtain t where "conns_inv K N obuf rbuf W (dev_store k) inbox s''" "effect s' t s''"
      "\<forall>u. u \<noteq> t \<longrightarrow> conns s'' u = conns s' u"
      using dev_step_effect [OF dev_more.hyps(2) s'(1) g(2) less] by blast
    then show ?case using step [OF s'(1) _ s'(2)] by blast
  qed
  then show ?thesis using room by (auto simp: W_def)
qed

lemma device_run_inv:
  assumes "device_run K N ibuf obuf rbuf k inbox s"
  obtains W where "conns_inv K N obuf rbuf W (dev_store k) inbox s" and "length (arrivals s) < W"
  using device_run_induct [OF assms, of "\<lambda>s. True"] by blast

lemma device_run_chunks: "device_run K N ibuf obuf rbuf k inbox s \<Longrightarrow> list_all device_chunk (inbox t)"
  unfolding device_run_def by blast

section \<open>Answers\<close>

text \<open>The number of commands completed, and the contents while none is dropped.\<close>

definition commands :: "(nat \<times> byte list) list \<Rightarrow> nat" where
  "commands as = length (filter (\<lambda>a. newline \<in> set (snd a)) as)"

lemma held_grows:
  assumes "length (fst st) + commands (as @ [(t, c)]) \<le> 10"
    and "length (fst (after_chunks as st)) = length (fst st) + commands as"
  shows "length (fst (write_spec c (after_chunks as st))) = length (fst st) + commands (as @ [(t, c)])"
    and "\<exists>x. concat (fst (write_spec c (after_chunks as st))) = concat (fst (after_chunks as st)) @ x"
  using assms by (cases "after_chunks as st"; auto simp: commands_def)+

text \<open>
  While no command is dropped, what a connection has sent of an answer is the beginning of the
  contents.
\<close>

definition answers_ok :: "dserver \<Rightarrow> bool" where
  "answers_ok s \<longleftrightarrow> (\<forall>t fd off. cphase (conns s t) = Sending fd off \<longrightarrow>
     nat off \<le> length (held s) \<and> lastn (nat off) (csent (conns s t)) = take (nat off) (held s))"

lemma answers_ok_effect:
  assumes ok: "answers_ok s" and inv: "conns_inv K N obuf rbuf W st inbox s" and step: "effect s t s'"
    and others: "\<forall>u. u \<noteq> t \<longrightarrow> conns s' u = conns s u"
    and grows: "\<exists>x. held s' = held s @ x"
  shows "answers_ok s'"
proof -
  obtain x where x: "held s' = held s @ x" using grows by blast
  have "nat off \<le> length (held s') \<and> lastn (nat off) (csent (conns s' u)) = take (nat off) (held s')"
    if u: "cphase (conns s' u) = Sending fd off" for u fd off
  proof (cases "u = t \<and> (\<forall>fd off. cphase (conns s t) \<noteq> Sending fd off)")
    case True
    have "off = 0" using step u True by (cases rule: effect.cases) (auto split: if_splits)
    then show ?thesis by (simp add: lastn_def)
  next
    case False
    then obtain fd0 off0 where old: "cphase (conns s u) = Sending fd0 off0"
      using others u by (cases "u = t") auto
    then have ok0: "nat off0 \<le> length (held s)" "lastn (nat off0) (csent (conns s u)) = take (nat off0) (held s)"
      "0 \<le> off0" "off0 \<le> int (length (csent (conns s u)))"
      using ok conns_invD(2) [OF inv, of u] by (auto simp: answers_ok_def)
    show ?thesis
    proof (cases "u = t")
      case False
      then have "conns s' u = conns s u" using others by simp
      then show ?thesis using ok0 old u by (simp add: x)
    next
      case True
      obtain bs where bs: "bs = read_spec (fst (stored s)) (nat off0) 100" "bs \<noteq> []" "stored s' = stored s"
        "csent (conns s' u) = csent (conns s u) @ bs" "off = off0 + int (length bs)"
        using step old u True by (cases rule: effect.cases) auto
      have n: "nat off = nat off0 + length bs" using bs(5) ok0(3) by simp
      have held: "held s' = held s" using bs(3) by (simp add: held_def)
      have slice: "bs = take (length bs) (drop (nat off0) (held s))"
        unfolding held_def bs(1) by (rule read_spec_prefix)
      have "nat off0 + length bs \<le> length (held s)"
        using read_spec_end [of "fst (stored s)" "nat off0" 100] bs(1,2) by (simp add: held_def)
      moreover have "lastn (nat off) (csent (conns s' u)) = lastn (nat off0) (csent (conns s u)) @ bs"
        using ok0(3,4) by (simp add: bs(4) n lastn_def)
      moreover have "\<dots> = take (nat off) (held s)"
        unfolding ok0(2) n take_add using slice by simp
      ultimately show ?thesis by (simp add: held n)
    qed
  qed
  then show ?thesis by (simp add: answers_ok_def)
qed

lemma answers_while_kept:
  assumes "device_run K N ibuf obuf rbuf k inbox s"
  shows "length (fst (dev_store k)) + commands (arrivals s) \<le> 10 \<longrightarrow>
    length (fst (stored s)) = length (fst (dev_store k)) + commands (arrivals s) \<and> answers_ok s"
proof -
  let ?Q = "\<lambda>s. length (fst (dev_store k)) + commands (arrivals s) \<le> 10 \<longrightarrow>
    length (fst (stored s)) = length (fst (dev_store k)) + commands (arrivals s) \<and> answers_ok s"
  have "(\<exists>W. conns_inv K N obuf rbuf W (dev_store k) inbox s \<and> length (arrivals s) < W) \<and> ?Q s"
    using assms
  proof (induction rule: device_run_induct)
    case (start g f)
    show ?case by (simp add: dserver_start_def stored_def commands_def answers_ok_def)
  next
    case (step W s t s')
    note e = conns_inv_shared(2) [OF step.hyps(1)]
    have mono: "commands (arrivals s) \<le> commands (arrivals s')"
      using step.hyps(3) by (cases rule: effect.cases) (simp_all add: commands_def)
    show ?case
    proof
      assume le: "length (fst (dev_store k)) + commands (arrivals s') \<le> 10"
      then have old: "length (fst (stored s)) = length (fst (dev_store k)) + commands (arrivals s)" "answers_ok s"
        using step.IH mono by simp_all
      have "length (fst (stored s')) = length (fst (dev_store k)) + commands (arrivals s') \<and>
          (\<exists>x. held s' = held s @ x)"
        using step.hyps(3)
      proof (cases rule: effect.cases)
        case (stores c cs c1)
        then show ?thesis
          using held_grows [of "dev_store k" "arrivals s" t c1] le old(1) e by (simp add: held_def)
      qed (use old(1) in \<open>simp_all add: held_def\<close>)
      then show "length (fst (stored s')) = length (fst (dev_store k)) + commands (arrivals s') \<and> answers_ok s'"
        using answers_ok_effect [OF old(2) step.hyps(1,3,4)] by blast
    qed
  qed
  then show ?thesis by blast
qed

section \<open>Alone\<close>

lemma dev_steps_trans:
  assumes "dev_steps P s' s''" and "dev_steps P s s'"
  shows "dev_steps P s s''"
  using assms by induction (auto intro: dev_more)

lemma put_put [simp]: "put (put s t p g w) t p' g' w' = put s t p' g' w'"
  by (simp add: put_def)

text \<open>The loop of \<open>dump_file_to_socket\<close> with no other connection in between.\<close>

lemma dump_loop_steps_aux:
  assumes call: "dump_loop P fd sock off w = Some r" and unlock: "unlock_file (g\<lparr>is_working := False\<rparr>) = Inr g'"
  shows "\<forall>u v. r = Inr u \<longrightarrow> sock = int t \<longrightarrow> px_close P fd u = Inr v \<longrightarrow>
    dev_steps P (put s t (Sending fd off) g w) (put s t Receiving g' v)"
proof -
  define Q where "Q P fd sock off w r \<longleftrightarrow> (\<forall>u v. r = Inr u \<longrightarrow> sock = int t \<longrightarrow> px_close P fd u = Inr v \<longrightarrow>
    dev_steps P (put s t (Sending fd off) g w) (put s t Receiving g' v))" for P fd sock off w and r :: "dev_world res"
  have "Q P fd sock off w r"
  proof (rule dump_loop.raw_induct [of "\<lambda>((((P, fd), sock), off), w). Q P fd sock off w",
      OF _ call, unfolded prod.case], goal_cases)
    case (1 loop P fd sock off w r)
    show ?case unfolding Q_def
    proof (intro allI impI)
      fix u v assume r: "r = Inr u" "sock = int t" "px_close P fd u = Inr v"
      obtain w1 n bs w2 where w1: "px_lseek P fd off w = Inr w1" "px_read P fd 100 w1 = Inr (n, bs, w2)"
        using 1(2) r(1) by (auto split: sum.splits)
      show "dev_steps P (put s t (Sending fd off) g w) (put s t Receiving g' v)"
      proof (cases "0 < n")
        case True
        then obtain w3 where w3: "px_send P sock (take (nat n) bs) w2 = Inr w3" "loop P fd sock (off + n) w3 = Some r"
          using 1(2) r(1) w1 by (auto split: sum.splits)
        have "dev_step P (put s t (Sending fd off) g w) (put s t (Sending fd (off + n)) g w3)"
          using dev_step.send_part [of "put s t (Sending fd off) g w" t fd off P w1 n bs w2 w3] w1 w3(1) r(2) True
          by simp
        then have "dev_steps P (put s t (Sending fd off) g w) (put s t (Sending fd (off + n)) g w3)"
          by (rule dev_more [OF dev_refl])
        then show ?thesis using dev_steps_trans 1(1) [OF w3(2)] r unfolding Q_def by blast
      next
        case False
        then have "u = w2" using 1(2) r(1) w1 by simp
        then have "dev_step P (put s t (Sending fd off) g w) (put s t Receiving g' v)"
          using dev_step.send_done [of "put s t (Sending fd off) g w" t fd off P w1 n bs w2 v g'] w1 r(3) False unlock
          by simp
        then show ?thesis by (rule dev_more [OF dev_refl])
      qed
    qed
  qed
  then show ?thesis by (simp add: Q_def)
qed

lemma dump_loop_steps:
  assumes "dump_loop P fd (int t) off w = Some (Inr w')" and "px_close P fd w' = Inr w''"
    and "unlock_file (g\<lparr>is_working := False\<rparr>) = Inr g'"
  shows "dev_steps P (put s t (Sending fd off) g w) (put s t Receiving g' w'')"
  using dump_loop_steps_aux [OF assms(1,3), of t s] assms(2) by blast

lemma put_arrivals: "(put s t p g w)\<lparr>arrivals := as\<rparr> = put (s\<lparr>arrivals := as\<rparr>) t p g w"
  by (simp add: put_def)

lemma dump_file_steps:
  assumes dump: "dump_file_to_socket (device_posix K ibuf obuf rbuf) (int t) (g, w) = Inr (g', w')" and g: "use_dev g"
  shows "dev_steps (device_posix K ibuf obuf rbuf) (put s t Opening g w) (put s t Receiving g' w')"
proof -
  let ?P = "device_posix K ibuf obuf rbuf"
  obtain fd w1 w2 where w: "px_open ?P ReadOnly w = Inr (fd, w1)" "dump_loop ?P fd (int t) 0 w1 = Some (Inr w2)"
    "px_close ?P fd w2 = Inr w'" "unlock_file (g\<lparr>is_working := False\<rparr>) = Inr g'"
    using dump g by (auto simp: dump_file_to_socket_def lock_file_def unlock_file_def res_simps returned_def Let_def
        split: if_splits option.splits)
  have "1 \<le> fd" using w(1) by (auto simp: device_posix_def)
  then have "dev_step ?P (put s t Opening g w) (put s t (Sending fd 0) g w1)"
    using dev_step.open_device [of "put s t Opening g w" t g ?P fd w1] w(1) g by (simp add: lock_file_def)
  then show ?thesis using dev_steps_trans [OF dump_loop_steps [OF w(2-4)] dev_more [OF dev_refl]] by simp
qed

text \<open>The three ways of a round that goes on.\<close>

lemma dev_round_cases [consumes 1, case_names answer blank store]:
  assumes "dev_round P fd bufp v (g, w) = Inr (True, v', g', w')"
  obtains n c w1 buffer m b w2 where "px_recv P fd (nat (available_buffer v)) w = Inr (n, c, w1)"
    "fill (wbuf v) 0 c = Inr buffer" "1 \<le> n" "handle_ioctl_commainds (px_ioctl P) bufp buffer n w1 = Inr (m, b, w2)"
    "1 < m" "m \<le> int (length b)" "px_send P fd (take (nat m) b) w2 = Inr w'" "wbuf v' = b" "g' = g"
  | n c w1 buffer b where "px_recv P fd (nat (available_buffer v)) w = Inr (n, c, w1)"
    "fill (wbuf v) 0 c = Inr buffer" "1 \<le> n" "handle_ioctl_commainds (px_ioctl P) bufp buffer n w1 = Inr (0, b, w')"
    "wbuf v' = b" "g' = g"
  | n c w1 buffer m b w2 g1 w3 d where "px_recv P fd (nat (available_buffer v)) w = Inr (n, c, w1)"
    "fill (wbuf v) 0 c = Inr buffer" "1 \<le> n" "handle_ioctl_commainds (px_ioctl P) bufp buffer n w1 = Inr (m, b, w2)"
    "m \<le> 1 \<and> m \<noteq> 0" "dump_buffer_to_file P n b (g, w2) = Inr (g1, w3)" "find_delimter_position b 0 n = Inr d"
    "(if d \<noteq> - 1 then dump_file_to_socket P fd (g1, w3) else Inr (g1, w3)) = Inr (g', w')" "wbuf v' = b"
proof -
  obtain n c w1 buffer where recv: "px_recv P fd (nat (available_buffer v)) w = Inr (n, c, w1)"
    "fill (wbuf v) 0 c = Inr buffer" "1 \<le> n"
    using assms by (auto simp: dev_round_def Let_def res_simps split: if_splits)
  obtain m b w2 where tried: "handle_ioctl_commainds (px_ioctl P) bufp buffer n w1 = Inr (m, b, w2)"
    using assms recv by (auto simp: dev_round_def Let_def res_simps)
  consider "1 < m" | "m = 0" | "m \<le> 1" "m \<noteq> 0" by linarith
  then show thesis
  proof cases
    case 1
    then show thesis using that(1) [OF recv tried] assms recv tried
      by (auto simp: dev_round_def Let_def res_simps)
  next
    case 2
    then show thesis using that(2) [OF recv, of b] assms recv tried
      by (auto simp: dev_round_def Let_def res_simps)
  next
    case 3
    then show thesis using that(3) [OF recv tried] assms recv tried
      by (auto simp: dev_round_def Let_def res_simps)
  qed
qed

section \<open>Every next step exists\<close>

text \<open>A chunk that is stored, and a seek command that is answered.\<close>

lemma store_exists:
  assumes inv: "conns_inv K N obuf rbuf W st inbox s" and t: "cphase (conns s t) = Receiving" "cinbox (conns s t) = c # cs"
    and recv: "px_recv (device_posix K ibuf obuf rbuf) (int t) 2000 (world s t) = Inr (int (length c), c, w)"
      "fill (cbuf (conns s t)) 0 c = Inr buffer"
    and tried: "handle_ioctl_commainds (px_ioctl (device_posix K ibuf obuf rbuf)) (caddr (conns s t)) buffer
      (int (length c)) w = Inr (m, b, w')" "m \<le> 1" "m \<noteq> 0"
    and w: "received K N obuf s t cs w'" and b: "length b = 2000" "stored_as (stored s) c (take (length c) b)"
    and room: "length (arrivals s) < W"
  shows "\<exists>s'. dev_step (device_posix K ibuf obuf rbuf) s s' \<and> conns_inv K N obuf rbuf W st inbox s' \<and>
    effect s t s' \<and> arrivals s' = arrivals s @ [(t, take (length c) b)] \<and> (\<forall>u. u \<noteq> t \<longrightarrow> conns s' u = conns s u)"
proof -
  have n: "1 \<le> int (length c)" using stored_asD [OF b(2)] by (cases c) auto
  obtain d w'' s' where rest: "dump_buffer_to_file (device_posix K ibuf obuf rbuf) (int (length c)) b (shared s, w') =
      Inr (shared s, w'')"
    "find_delimter_position b 0 (int (length c)) = Inr d"
    "s' = (put (put_buf s t b) t (if d \<noteq> - 1 then Opening else Receiving) (shared s) w'')
      \<lparr>arrivals := arrivals s @ [(t, take (length c) b)]\<rparr>"
    "conns_inv K N obuf rbuf W st inbox s'" "effect s t s'"
    using store_rest [OF inv t w b room, of ibuf] by blast
  have "dev_step (device_posix K ibuf obuf rbuf) s s'"
    using dev_step.store_chunk [OF t(1) recv n tried rest(1,2)] rest(3) by simp
  then show ?thesis using rest(3-5) by (intro exI [of _ s']) simp
qed

lemma can_store:
  assumes inv: "conns_inv K N obuf rbuf W st inbox s" and t: "cphase (conns s t) = Receiving" "cinbox (conns s t) = c # cs"
    and plain: "plain_chunk c" and room: "length (arrivals s) < W"
  shows "\<exists>s'. dev_step (device_posix K ibuf obuf rbuf) s s' \<and> conns_inv K N obuf rbuf W st inbox s' \<and>
    effect s t s' \<and> arrivals s' = arrivals s @ [(t, c)] \<and> (\<forall>u. u \<noteq> t \<longrightarrow> conns s' u = conns s u)"
proof -
  let ?P = "device_posix K ibuf obuf rbuf" and ?b = "c @ drop (length c) (cbuf (conns s t))"
  have c: "length c < 2000" "\<not> seek_text c (int (length c))" using plain by (simp_all add: plain_chunk_def)
  obtain w where w: "px_recv ?P (int t) 2000 (world s t) = Inr (int (length c), c, w)"
    "fill (cbuf (conns s t)) 0 c = Inr ?b" "length ?b = 2000" "received K N obuf s t cs w"
    using receives_chunk [OF inv t(2) c(1) refl] by blast
  have "handle_ioctl_commainds (px_ioctl ?P) (caddr (conns s t)) ?b (int (length c)) w = Inr (- 1, ?b, w)"
    using c w(3) seek_text_prefix [of c ?b] by (intro not_a_seek) simp_all
  then show ?thesis using store_exists [OF inv t w(1,2) _ _ _ w(4,3) _ room, of "- 1"] plain by simp
qed

lemma can_seek:
  assumes inv: "conns_inv K N obuf rbuf W st inbox s" and t: "cphase (conns s t) = Receiving" "cinbox (conns s t) = c # cs"
    and c: "is_seek c k off" and out: "out = seek_answer (stored s) k off" "length out \<le> 500"
    and room: "length (arrivals s) < W"
  shows "\<exists>s'. dev_step (device_posix K ibuf obuf rbuf) s s' \<and> conns_inv K N obuf rbuf W st inbox s' \<and>
    effect s t s' \<and> arrivals s' = arrivals s @ (if length out = 1 then [(t, hd out # tl c)] else []) \<and>
    (length out \<noteq> 1 \<longrightarrow> stored s' = stored s \<and> csent (conns s' t) = csent (conns s t) @ out) \<and>
    (\<forall>u. u \<noteq> t \<longrightarrow> conns s' u = conns s u)"
proof -
  let ?P = "device_posix K ibuf obuf rbuf" and ?b = "c @ drop (length c) (cbuf (conns s t))"
  have len: "length c < 2000" "1 \<le> int (length c)" using is_seekD(1,2) [OF c] by simp_all
  obtain w where w: "px_recv ?P (int t) 2000 (world s t) = Inr (int (length c), c, w)"
    "fill (cbuf (conns s t)) 0 c = Inr ?b" "length ?b = 2000" "received K N obuf s t cs w"
    using receives_chunk [OF inv t(2) len(1) refl] by blast
  obtain b w' where b: "handle_ioctl_commainds (px_ioctl ?P) (caddr (conns s t)) ?b (int (length c)) w =
      Inr (int (length out), b, w')"
    "received K N obuf s t cs w'" "length b = 2000" "take (length out) b = out"
    "length out = 1 \<longrightarrow> stored_as (stored s) c (take (length c) b)"
    using seek_tried [OF inv c refl w(4) room out(1), of ibuf] out(2) by auto
  show ?thesis
  proof (cases "length out = 1")
    case True
    have "take (length c) b = hd out # tl c"
    proof -
      obtain x where x: "out = [x]" using True by (auto simp: length_Suc_conv)
      then obtain b' where b': "b = x # b'" using b(4) by (cases b) auto
      obtain y where "take (length c) b = y # tl c"
        using b(5) True is_seekD(5) [OF c] by (auto simp: stored_as_def)
      then show ?thesis using b' x len(2) by (cases c) auto
    qed
    then show ?thesis
      using store_exists [OF inv t w(1,2) b(1) _ _ b(2,3) _ room] b(5) True by simp
  next
    case False
    obtain w'' s' where rest: "px_send ?P (int t) out w' = Inr w''" "out = [] \<Longrightarrow> w'' = w'"
      "s' = put (put_buf s t b) t Receiving (shared s) w''" "conns_inv K N obuf rbuf W st inbox s'" "effect s t s'"
      using answer_rest [OF inv t b(2,3) c out(1) False, of ibuf] by blast
    have step: "dev_step ?P s s'"
    proof (cases "out = []")
      case True
      then show ?thesis
        using dev_step.blank_seek [OF t(1) w(1,2) len(2), of b w'] b(1) rest(2,3) by simp
    next
      case ne: False
      then have "1 < length out" using False by (cases out) auto
      then show ?thesis
        using dev_step.answer_seek [OF t(1) w(1,2) len(2) b(1)] b(3,4) out(2) rest(1,3) by simp
    qed
    have "stored s' = stored s \<and> csent (conns s' t) = csent (conns s t) @ out"
      using b(2) rest(1,3) by (auto simp: device_posix_def received_def)
    then show ?thesis using step rest(3-5) False by (intro exI [of _ s']) simp
  qed
qed

lemma can_open:
  assumes inv: "conns_inv K N obuf rbuf W st inbox s" and t: "cphase (conns s t) = Opening"
  shows "\<exists>s'. dev_step (device_posix K ibuf obuf rbuf) s s' \<and> conns_inv K N obuf rbuf W st inbox s' \<and>
    effect s t s' \<and> (\<forall>u. u \<noteq> t \<longrightarrow> conns s' u = conns s u)"
proof -
  let ?P = "device_posix K ibuf obuf rbuf"
  obtain fd w where w: "lock_file (shared s) = Inr (shared s)" "px_open ?P ReadOnly (world s t) = Inr (fd, w)" "1 \<le> fd"
    "dev_store (kst w) = stored s" "dsent w = csent (conns s t)"
    "conns_inv K N obuf rbuf W st inbox (put s t (Sending fd 0) (shared s) w)"
    using open_part [OF inv, of ibuf t] by blast
  let ?s = "put s t (Sending fd 0) (shared s) w"
  have "dev_step ?P s ?s" by (rule dev_step.open_device [OF t w(1-3)])
  moreover have "effect s t ?s" by (rule opens [OF t]) (use w(4,5) in simp_all)
  ultimately show ?thesis using w(6) by (intro exI [of _ ?s]) simp
qed

lemma can_send:
  assumes inv: "conns_inv K N obuf rbuf W st inbox s" and t: "cphase (conns s t) = Sending fd off"
  shows "\<exists>s'. dev_step (device_posix K ibuf obuf rbuf) s s' \<and> conns_inv K N obuf rbuf W st inbox s' \<and>
    effect s t s' \<and> (\<forall>u. u \<noteq> t \<longrightarrow> conns s' u = conns s u)"
proof -
  let ?P = "device_posix K ibuf obuf rbuf" and ?bs = "read_spec (fst (stored s)) (nat off) 100"
  let ?g = "(shared s)\<lparr>is_working := False\<rparr>"
  obtain w w' w'' where w: "px_lseek ?P fd off (world s t) = Inr w" "px_read ?P fd 100 w = Inr (int (length ?bs), ?bs, w')"
    "if ?bs = [] then px_close ?P fd w' = Inr w'' \<and> unlock_file ?g = Inr ?g \<and> dsent w'' = csent (conns s t) \<and>
        conns_inv K N obuf rbuf W st inbox (put s t Receiving ?g w'')
      else px_send ?P (int t) ?bs w' = Inr w'' \<and> dsent w'' = csent (conns s t) @ ?bs \<and>
        conns_inv K N obuf rbuf W st inbox (put s t (Sending fd (off + int (length ?bs))) (shared s) w'')"
    "dev_store (kst w'') = stored s"
    using send_round [OF inv t refl, of ibuf] by blast
  show ?thesis
  proof (cases "?bs = []")
    case True
    let ?s = "put s t Receiving ?g w''"
    have "dev_step ?P s ?s"
      by (rule dev_step.send_done [OF t w(1,2)]) (use w(3) True in simp_all)
    moreover have "effect s t ?s" by (rule ends [OF t]) (use w(3,4) True in simp_all)
    ultimately show ?thesis using w(3) True by (intro exI [of _ ?s]) simp
  next
    case False
    let ?s = "put s t (Sending fd (off + int (length ?bs))) (shared s) w''"
    have "dev_step ?P s ?s"
      by (rule dev_step.send_part [OF t w(1,2)]) (use w(3) False in simp_all)
    moreover have "effect s t ?s" by (rule sends [OF t _ _ refl False]) (use w(3,4) False in simp_all)
    ultimately show ?thesis using w(3) False by (intro exI [of _ ?s]) simp
  qed
qed

end
