(* ===== verification/Device_Schedules.thy ===== *)
theory Device_Schedules
  imports Device_Connections Driver_Races
begin

text \<open>
  What holds for every schedule of connections with the character device as the store, where a
  schedule is one of whole system calls and of the chunks of \<open>device_chunk\<close> (see \<open>Device_Connections\<close>):
  the chunks are stored whole and in order, an answer is the contents while no command is dropped,
  and what it skips otherwise; a seek command is answered from the log of its moment.
\<close>

section \<open>An example\<close>

text \<open>Two connections with one chunk each and one with a seek command, on a device with \<open>k\<close>.\<close>

definition two_inboxes :: "nat \<Rightarrow> byte list list" where
  "two_inboxes t = (if t = 1 then [[98, newline]] else if t = 2 then [[99, newline]]
     else if t = 3 then [seek_message [48] [49] 0] else [])"

definition two_buffers :: "nat \<Rightarrow> ptr" where
  "two_buffers t = (if t = 1 then 16384 else if t = 2 then 20480 else 24576)"

definition device_globals :: globals where
  "device_globals = \<lparr>use_dev = True, close_socket_when_receive_delim = False, should_quit = False,
     is_working = False, file_mutex = False, linked_list_mutex = False\<rparr>"

definition two_start :: "kstate \<Rightarrow> dserver" where
  "two_start k = dserver_start k device_globals opened_file two_buffers two_inboxes"

definition two_run :: "kstate \<Rightarrow> dserver \<Rightarrow> bool" where
  "two_run k s \<longleftrightarrow> dev_steps (device_posix first_fit_kernel 2048 1024 4096) (two_start k) s \<and>
     conns_inv first_fit_kernel 32 1024 4096 (dev_budget 32 (world (two_start k) 0)) (dev_store k) two_inboxes s"

lemma two_seek: "is_seek (seek_message [48] [49] 0) 0 1"
proof -
  have "list_all is_digit [48]" "list_all is_digit [49]" "\<not> is_digit 0" "(0 :: byte) \<noteq> newline"
    "decimal [48] = int 0" "decimal [49] = int 1"
    by code_simp+
  then show ?thesis unfolding is_seek_def by (intro exI [of _ "[48]"] exI [of _ "[49]"] exI [of _ 0]) simp
qed

lemma two_plain: "plain_chunk [98, newline]" "plain_chunk [99, newline]"
  by (simp_all add: plain_chunk_def seek_text_def)

lemma two_chunks: "\<forall>t. list_all device_chunk (two_inboxes t)"
  using two_seek two_plain by (auto simp: two_inboxes_def device_chunk_def)

lemma two_apart: "\<forall>t. \<forall>i < 2000. 24 \<le> unat (two_buffers t + of_nat i - 4096)"
proof (intro allI impI)
  fix t i assume i: "(i :: nat) < 2000"
  then have n: "unat (of_nat i :: size_t) = i" by (intro unat_of_nat_small) simp
  have "24 \<le> unat (a + of_nat i :: size_t)" if "a \<in> {12288, 16384, 20480}" for a
    using that n i by (auto simp: unat_add_small)
  then have "24 \<le> unat (12288 + of_nat i :: size_t)" "24 \<le> unat (16384 + of_nat i :: size_t)"
    "24 \<le> unat (20480 + of_nat i :: size_t)" by blast+
  then show "24 \<le> unat (two_buffers t + of_nat i - 4096)" by (simp add: two_buffers_def)
qed

lemma two_start_run:
  assumes "dev_inv first_fit_kernel 32 1024 (world_of k [])" and "0 < dev_budget 32 (world_of k [])"
    and "length (concat (fst (dev_store (kst (world_of k []))))) \<le> 2147483647"
  shows "two_run (kst (world_of k [])) (two_start (kst (world_of k [])))"
proof -
  let ?k = "kst (world_of k [])" and ?W = "dev_budget 32 (world (two_start (kst (world_of k []))) 0)"
  have inv: "dev_inv first_fit_kernel 32 1024 (world (two_start ?k) 0)"
    using assms(1) by (simp add: two_start_def dserver_start_def dev_inv_def world_def world_of_def)
  have "?W = dev_budget 32 (world_of k [])"
    by (simp add: dev_budget_def two_start_def dserver_start_def world_def)
  then have "fits ?W (dev_store ?k)"
    using fits_budget [OF assms(3), of ?W 32 device_globals opened_file two_buffers two_inboxes] assms(2)
    by (simp add: two_start_def)
  then show ?thesis
    using conns_inv_start [OF _ inv [unfolded two_start_def] two_apart _ refl] dev_refl
    by (simp add: two_run_def two_start_def device_globals_def)
qed

lemma two_run_run:
  assumes "two_run k s" and "length (arrivals s) < dev_budget 32 (world (two_start k) 0)"
    and "dev_inv first_fit_kernel 32 1024 (world (two_start k) 0)" and "length (concat (fst (dev_store k))) \<le> 2147483647"
  shows "device_run first_fit_kernel 32 2048 1024 4096 k two_inboxes s"
  unfolding device_run_def
  using assms two_chunks two_apart
  by (intro exI [of _ device_globals] exI [of _ opened_file] exI [of _ two_buffers])
    (simp add: two_run_def two_start_def device_globals_def)

text \<open>The next step of a connection in such a run.\<close>

lemma two_run_step:
  assumes "two_run k s" and "dev_step (device_posix first_fit_kernel 2048 1024 4096) s s'"
    and "conns_inv first_fit_kernel 32 1024 4096 (dev_budget 32 (world (two_start k) 0)) (dev_store k) two_inboxes s'"
  shows "two_run k s'"
  using assms dev_more unfolding two_run_def by blast

lemma effect_plain:
  assumes "effect s t s'" and "cphase (conns s t) = Receiving" and "cinbox (conns s t) = c # cs" and "plain_chunk c"
  shows "stored s' = write_spec c (stored s)" and "csent (conns s' t) = csent (conns s t)"
    and "cphase (conns s' t) = (if newline \<in> set c then Opening else Receiving)"
  using assms is_seekD(5) by (induction rule: effect.induct) auto

lemma two_store:
  assumes run: "two_run k s" and t: "cphase (conns s t) = Receiving" "cinbox (conns s t) = c # cs"
    and room: "length (arrivals s) < dev_budget 32 (world (two_start k) 0)" and plain: "plain_chunk c"
  shows "\<exists>s'. two_run k s' \<and> dev_step (device_posix first_fit_kernel 2048 1024 4096) s s' \<and> effect s t s' \<and> arrivals s' = arrivals s @ [(t, c)] \<and>
    (\<forall>u. u \<noteq> t \<longrightarrow> conns s' u = conns s u)"
proof -
  have inv: "conns_inv first_fit_kernel 32 1024 4096 (dev_budget 32 (world (two_start k) 0)) (dev_store k) two_inboxes s"
    using run by (simp add: two_run_def)
  show ?thesis using can_store [OF inv t plain room, of 2048] two_run_step [OF run] by blast
qed

lemma two_open:
  assumes run: "two_run k s" and t: "cphase (conns s t) = Opening"
  shows "\<exists>s'. two_run k s' \<and> dev_step (device_posix first_fit_kernel 2048 1024 4096) s s' \<and> effect s t s' \<and> (\<forall>u. u \<noteq> t \<longrightarrow> conns s' u = conns s u)"
proof -
  have inv: "conns_inv first_fit_kernel 32 1024 4096 (dev_budget 32 (world (two_start k) 0)) (dev_store k) two_inboxes s"
    using run by (simp add: two_run_def)
  show ?thesis using can_open [OF inv t, of 2048] two_run_step [OF run] by blast
qed

lemma two_send:
  assumes run: "two_run k s" and t: "cphase (conns s t) = Sending fd off"
  shows "\<exists>s'. two_run k s' \<and> dev_step (device_posix first_fit_kernel 2048 1024 4096) s s' \<and> effect s t s' \<and> (\<forall>u. u \<noteq> t \<longrightarrow> conns s' u = conns s u)"
proof -
  have inv: "conns_inv first_fit_kernel 32 1024 4096 (dev_budget 32 (world (two_start k) 0)) (dev_store k) two_inboxes s"
    using run by (simp add: two_run_def)
  show ?thesis using can_send [OF inv t, of 2048] two_run_step [OF run] by blast
qed

text \<open>
  The first connection has stored its chunk and sent the first part of its answer; the second
  one has not yet stored its chunk.
\<close>

lemma two_sending:
  assumes inv: "dev_inv first_fit_kernel 32 1024 (world_of k [])" and room: "1 \<le> dev_budget 32 (world_of k [])"
    and st: "dev_store (kst (world_of k [])) = (cmds, pend)" "length (concat cmds) \<le> 2147483647"
    and part: "bs = read_spec (fst (write_spec [98, newline] (cmds, pend))) 0 100" "bs \<noteq> []"
  shows "\<exists>s fd. two_run (kst (world_of k [])) s \<and> arrivals s = [(1, [98, newline])] \<and>
    stored s = write_spec [98, newline] (cmds, pend) \<and> cphase (conns s 1) = Sending fd (int (length bs)) \<and>
    csent (conns s 1) = bs \<and> cphase (conns s 2) = Receiving \<and> cinbox (conns s 2) = [[99, newline]]"
proof -
  let ?k = "kst (world_of k [])" and ?s0 = "two_start (kst (world_of k []))"
  have s0: "cphase (conns ?s0 t) = Receiving" "csent (conns ?s0 t) = []" "cinbox (conns ?s0 t) = two_inboxes t"
    "arrivals ?s0 = []" "stored ?s0 = (cmds, pend)" for t
    by (simp_all add: two_start_def dserver_start_def stored_def st)
  have "dev_budget 32 (world ?s0 0) = dev_budget 32 (world_of k [])"
    by (simp add: dev_budget_def two_start_def dserver_start_def world_def)
  then have small: "length (arrivals ?s0) < dev_budget 32 (world ?s0 0)" using room by (simp add: s0)
  have start: "two_run ?k ?s0" using two_start_run [OF inv] room st by simp
  have box: "cinbox (conns ?s0 1) = [[98, newline]]" by (simp add: s0(3) two_inboxes_def)
  obtain s1 where s1: "two_run ?k s1" "effect ?s0 1 s1" "arrivals s1 = arrivals ?s0 @ [(1, [98, newline])]"
    "\<forall>u. u \<noteq> 1 \<longrightarrow> conns s1 u = conns ?s0 u"
    using two_store [OF start s0(1) box small two_plain(1)] by blast
  have a1: "arrivals s1 = [(1, [98, newline])]" "conns s1 2 = conns ?s0 2" using s1(3,4) s0(4) by simp_all
  have f1: "cphase (conns s1 1) = Opening" "csent (conns s1 1) = []" "stored s1 = write_spec [98, newline] (cmds, pend)"
    using effect_plain [OF s1(2) s0(1) box two_plain(1)] s0(2,5) by simp_all
  obtain s2 where s2: "two_run ?k s2" "effect s1 1 s2" "conns s2 2 = conns s1 2"
    using two_open [OF s1(1) f1(1)] by auto
  have "\<exists>fd. cphase (conns s2 1) = Sending fd 0 \<and> csent (conns s2 1) = [] \<and> stored s2 = stored s1 \<and> arrivals s2 = arrivals s1"
    using s2(2) f1(1,2) by (cases rule: effect.cases) auto
  then obtain fd where f2: "cphase (conns s2 1) = Sending fd 0" "csent (conns s2 1) = []" "stored s2 = stored s1"
    "arrivals s2 = arrivals s1"
    by blast
  obtain s3 where s3: "two_run ?k s3" "effect s2 1 s3" "conns s3 2 = conns s2 2"
    using two_send [OF s2(1) f2(1)] by auto
  have "cphase (conns s3 1) = Sending fd (int (length bs)) \<and> csent (conns s3 1) = bs \<and> stored s3 = stored s2 \<and>
      arrivals s3 = arrivals s2"
    using s3(2) f2 part f1(3) by (cases rule: effect.cases) auto
  then show ?thesis
    using s3(1,3) s2(3) a1 f2 f1(3) s0(1,3) [of 2] by (intro exI [of _ s3] exI [of _ fd]) (simp add: two_inboxes_def)
qed

text \<open>The two starts: an empty device, and one with ten commands and one that is not complete.\<close>

lemma empty_start:
  "dev_inv first_fit_kernel 32 1024 (world_of fresh_device [])"
  "dev_store (kst (world_of fresh_device [])) = ([], [])"
  "dev_budget 32 (world_of fresh_device []) = 15"
  by (rule fresh_world_inv)+

lemma full_start:
  "dev_inv first_fit_kernel 32 1024 (world_of full_device [])"
  "dev_store (kst (world_of full_device [])) = (replicate 10 [97, newline], [97, newline])"
  "2 \<le> dev_budget 32 (world_of full_device [])"
  "length (concat (replicate 10 [97, newline])) \<le> 2147483647"
proof -
  have rep: "device full_device (replicate 10 [97, newline]) [97, newline]"
    using full_device_collecting by (simp add: device_def numeral_2_eq_2)
  have free: "\<not> lock (dev full_device)" by (simp add: full_device_def)
  have short: "\<forall>c \<in> set (replicate 10 [97, newline]). length c \<le> 2147483647" by simp
  note world = world_of_inv [OF rep free short, of "[]"]
  show "dev_inv first_fit_kernel 32 1024 (world_of full_device [])" by (rule world(1))
  show st: "dev_store (kst (world_of full_device [])) = (replicate 10 [97, newline], [97, newline])"
    by (rule world(2))
  define ps :: "ptr list" where "ps = [4096, 8192, 100, 101, 102, 103, 104, 105, 106, 107, 108, 109, 200]"
  have "dom (heap full_device) \<subseteq> set ps"
    by (auto simp: full_device_def ps_def split: if_splits)
  then have "card (dom (heap full_device)) \<le> card (set ps)" by (rule card_mono [rotated]) simp
  also have "\<dots> \<le> length ps" by (rule card_length)
  finally have "card (dom (heap full_device)) \<le> 13" by (simp add: ps_def)
  then show "2 \<le> dev_budget 32 (world_of full_device [])"
    using st by (simp add: dev_budget_def) (simp add: world_of_def)
  show "length (concat (replicate 10 [97, newline])) \<le> 2147483647"
    by (simp add: length_concat sum_list_replicate)
qed

lemma two_budget: "dev_budget 32 (world (two_start (kst (world_of k []))) 0) = dev_budget 32 (world_of k [])"
  by (simp add: dev_budget_def two_start_def dserver_start_def world_def)

lemma two_device_run:
  assumes "two_run (kst (world_of k [])) s" and "length (arrivals s) < dev_budget 32 (world_of k [])"
    and "dev_inv first_fit_kernel 32 1024 (world_of k [])"
    and "dev_store (kst (world_of k [])) = (cmds, pend)" "length (concat cmds) \<le> 2147483647"
  shows "device_run first_fit_kernel 32 2048 1024 4096 (kst (world_of k [])) two_inboxes s"
proof (rule two_run_run [OF assms(1)])
  show "length (concat (fst (dev_store (kst (world_of k []))))) \<le> 2147483647" using assms(4,5) by simp
  show "length (arrivals s) < dev_budget 32 (world (two_start (kst (world_of k []))) 0)"
    using assms(2) by (simp only: two_budget)
  show "dev_inv first_fit_kernel 32 1024 (world (two_start (kst (world_of k []))) 0)"
    using assms(3) by (simp add: two_start_def dserver_start_def dev_inv_def world_def world_of_def)
qed

lemma empty_run: "device_run first_fit_kernel 32 2048 1024 4096 (kst (world_of fresh_device [])) two_inboxes
    (two_start (kst (world_of fresh_device [])))"
  by (rule two_device_run [OF two_start_run [OF empty_start(1)] _ empty_start(1,2)])
    (simp_all add: empty_start(2,3), simp add: two_start_def dserver_start_def)

lemma full_run: "device_run first_fit_kernel 32 2048 1024 4096 (kst (world_of full_device [])) two_inboxes
    (two_start (kst (world_of full_device [])))"
proof (rule two_device_run [OF two_start_run [OF full_start(1)] _ full_start(1,2,4)])
  show "length (arrivals (two_start (kst (world_of full_device [])))) < dev_budget 32 (world_of full_device [])"
    using full_start(3) by (simp add: two_start_def dserver_start_def)
qed (use full_start(2-4) in simp_all)

lemma arrivals_same: "(put (put_buf s t b) t p g w)\<lparr>arrivals := arrivals s\<rparr> = put (put_buf s t b) t p g w"
  by (simp add: put_def put_buf_def)

lemma first_answer: "read_spec (fst (write_spec [98, newline] ([], []))) 0 100 = [98, newline]"
  by (simp add: read_spec_def)

text \<open>A step in which a connection that sends moves is its own.\<close>

lemma device_own_step:
  assumes "dev_step (device_posix K ibuf obuf rbuf) s s'" and "conns_inv K N obuf rbuf W st inbox s"
    and "cphase (conns s t) = Sending fd off" "cphase (conns s' t) \<noteq> Sending fd off"
  shows "effect s t s'"
  using answering_effect [OF assms(1,2)] assms(3,4) by auto

section \<open>Properties\<close>



text \<open>
  C15: While at most ten commands have been completed, an answer that ends is the whole
  contents of the device at that moment, whatever other connections stored while it was sent. (No
  single read of it falls into a commit: that would be the race of \<open>Driver_Races\<close>.)
\<close>

theorem device_answer_is_contents:
  assumes "device_run K N ibuf obuf rbuf k inbox s" and "dev_step (device_posix K ibuf obuf rbuf) s s'"
    and "length (fst (dev_store k)) + commands (arrivals s) \<le> 10"
    and "cphase (conns s t) = Sending fd off" and "cphase (conns s' t) = Receiving"
  shows "lastn (nat off) (csent (conns s' t)) = concat (fst (dev_store (kernel_st s')))"
proof -
  have ok: "nat off \<le> length (held s)" "lastn (nat off) (csent (conns s t)) = take (nat off) (held s)"
    using answers_while_kept [OF assms(1)] assms(3,4) by (simp_all add: answers_ok_def)
  obtain W where inv: "conns_inv K N obuf rbuf W (dev_store k) inbox s" "length (arrivals s) < W"
    using assms(1) by (rule device_run_inv)
  have "effect s t s'" using device_own_step [OF assms(2) inv(1)] assms(4,5) by auto
  then have "stored s' = stored s \<and> csent (conns s' t) = csent (conns s t) \<and>
      read_spec (fst (stored s)) (nat off) 100 = []"
    using assms(4,5) by (cases rule: effect.cases) auto
  then show ?thesis using ok by (simp add: read_spec_Nil_iff held_def stored_def)
qed

theorem device_answer_is_contents_witness:
  "\<exists>s s'. device_run first_fit_kernel 32 2048 1024 4096 (kst (world_of fresh_device [])) two_inboxes s \<and>
    dev_step (device_posix first_fit_kernel 2048 1024 4096) s s' \<and> lastn 2 (csent (conns s' 1)) = concat (fst (dev_store (kernel_st s')))"
proof -
  obtain s fd where s: "two_run (kst (world_of fresh_device [])) s" "arrivals s = [(1, [98, newline])]"
    "cphase (conns s 1) = Sending fd 2" "stored s = ([[98, newline]], [])"
    using two_sending [OF empty_start(1) _ empty_start(2) _ first_answer [symmetric]] empty_start(3) by auto
  have run: "device_run first_fit_kernel 32 2048 1024 4096 (kst (world_of fresh_device [])) two_inboxes s"
    using two_device_run [OF s(1) _ empty_start(1,2)] empty_start(3) s(2) by simp
  obtain s' where s': "effect s 1 s'" "dev_step (device_posix first_fit_kernel 2048 1024 4096) s s'"
    using two_send [OF s(1,3)] by blast
  have "cphase (conns s' 1) = Receiving"
    using s'(1) s(3,4) by (cases rule: effect.cases) (auto simp: read_spec_def)
  then show ?thesis
    using device_answer_is_contents [OF run s'(2) _ s(3)] run s' by (auto simp: s(2) empty_start(2) commands_def)
qed

text \<open>
  C20: With ten commands held, a command that another connection completes while an answer is
  being sent makes the answer skip bytes: the oldest command is dropped, the offset stays, and
  the next part starts so many bytes later in the sequence of everything stored as that command
  was long. (The commit falls between two reads of the answer, not into one.)
\<close>

theorem device_answer_skips_dropped_bytes:
  assumes "device_run K N ibuf obuf rbuf k inbox s"
    and "dev_store (kernel_st s) = (d # cmds, pend)" and "length cmds = 9"
    and "dev_step (device_posix K ibuf obuf rbuf) s s'" and "arrivals s' = arrivals s @ [(u, c)]" and "newline \<in> set c"
    and "cphase (conns s' t) = Sending fd off"
    and "dev_step (device_posix K ibuf obuf rbuf) s' s''" and "cphase (conns s'' t) = Sending fd off'" and "off' \<noteq> off"
  shows "\<exists>bs. csent (conns s'' t) = csent (conns s' t) @ bs \<and> off' = off + int (length bs) \<and>
    bs = take (length bs) (drop (length d + nat off) (concat ((d # cmds) @ [pend @ c])))"
proof -
  obtain W where inv: "conns_inv K N obuf rbuf W (dev_store k) inbox s" and room: "length (arrivals s) < W"
    using assms(1) by (rule device_run_inv)
  have "\<forall>t. list_all device_chunk (inbox t)" using device_run_chunks [OF assms(1)] by blast
  then obtain v where inv': "conns_inv K N obuf rbuf W (dev_store k) inbox s'" and v: "effect s v s'"
    using dev_step_effect [OF assms(4) inv _ room] by blast
  have "stored s' = write_spec c (d # cmds, pend)"
    using v assms(2,5) by (cases rule: effect.cases) (auto simp: stored_def)
  then have held: "concat (fst (stored s')) = concat (cmds @ [pend @ c])"
    using assms(3,6) by (simp add: lastn_snoc_full [of "d # cmds" 10, simplified])
  have "effect s' t s''" using device_own_step [OF assms(8) inv'] assms(7,9,10) by auto
  then obtain bs where bs: "csent (conns s'' t) = csent (conns s' t) @ bs" "off' = off + int (length bs)"
    "bs = read_spec (fst (stored s')) (nat off) 100"
    using assms(7,9) by (cases rule: effect.cases) auto
  have "bs = take (length bs) (drop (nat off) (concat (cmds @ [pend @ c])))"
    using read_spec_prefix [of "fst (stored s')" "nat off" 100] by (simp only: bs(3) held)
  then show ?thesis using bs by auto
qed

theorem device_answer_skips_dropped_bytes_witness:
  "\<exists>s s' s'' bs. device_run first_fit_kernel 32 2048 1024 4096 (kst (world_of full_device [])) two_inboxes s \<and>
    dev_step (device_posix first_fit_kernel 2048 1024 4096) s s' \<and>
    dev_step (device_posix first_fit_kernel 2048 1024 4096) s' s'' \<and> csent (conns s' 1) = [97, newline] \<and> bs \<noteq> [] \<and>
    csent (conns s'' 1) = [97, newline] @ bs \<and>
    bs = take (length bs) (drop 4 (concat (replicate 9 [97, newline] @ [[97, newline, 98, newline], [99, newline]])))"
proof -
  let ?cmds = "replicate 8 [97, newline] @ [[97, newline, 98, newline]]"
  have ten: "write_spec [98, newline] (replicate 10 [97, newline], [97, newline]) = ([97, newline] # ?cmds, [])"
    by (simp add: lastn_def numeral_eq_Suc)
  have part: "[97, newline] = read_spec (fst (write_spec [98, newline] (replicate 10 [97, newline], [97, newline]))) 0 100"
    unfolding ten by (simp add: read_spec_def)
  obtain s fd where s: "two_run (kst (world_of full_device [])) s" "arrivals s = [(1, [98, newline])]"
    "stored s = ([97, newline] # ?cmds, [])" "cphase (conns s 1) = Sending fd (int (length [97, newline]))"
    "csent (conns s 1) = [97, newline]"
    "cphase (conns s 2) = Receiving" "cinbox (conns s 2) = [[99, newline]]"
    using two_sending [OF full_start(1) _ full_start(2,4) part] full_start(3) unfolding ten by fastforce
  have run: "device_run first_fit_kernel 32 2048 1024 4096 (kst (world_of full_device [])) two_inboxes s"
    using two_device_run [OF s(1) _ full_start(1,2,4)] full_start(3) s(2) by simp
  have "length (arrivals s) < dev_budget 32 (world (two_start (kst (world_of full_device []))) 0)"
    using full_start(3) s(2) by (simp only: two_budget) simp
  then obtain s' where s': "two_run (kst (world_of full_device [])) s'" "effect s 2 s'" "conns s' 1 = conns s 1"
    "dev_step (device_posix first_fit_kernel 2048 1024 4096) s s'" "arrivals s' = arrivals s @ [(2, [99, newline])]"
    using two_store [OF s(1,6,7) _ two_plain(2)] by auto
  have ph: "cphase (conns s' 1) = Sending fd 2" using s'(3) s(4) by simp
  obtain s'' where s'': "effect s' 1 s''" and step: "dev_step (device_posix first_fit_kernel 2048 1024 4096) s' s''"
    using two_send [OF s'(1) ph] by blast
  have "stored s' = write_spec [99, newline] ([97, newline] # ?cmds, [])"
    using s'(2) s(3,6,7) by (cases rule: effect.cases) auto
  then have st: "stored s' = (?cmds @ [[99, newline]], [])" by (simp add: lastn_def numeral_eq_Suc)
  have "\<exists>bs. cphase (conns s'' 1) = Sending fd (2 + int (length bs)) \<and> bs \<noteq> [] \<and> csent (conns s'' 1) = csent (conns s' 1) @ bs"
    using s'' ph st by (cases rule: effect.cases) (auto simp: read_spec_def numeral_eq_Suc)
  then obtain bs0 where b0: "cphase (conns s'' 1) = Sending fd (2 + int (length bs0))" "bs0 \<noteq> []"
    "csent (conns s'' 1) = csent (conns s' 1) @ bs0"
    by blast
  have "dev_store (kernel_st s) = ([97, newline] # ?cmds, [])" using s(3) by (simp add: stored_def)
  moreover have "length ?cmds = 9" "newline \<in> set [99, newline]" "2 + int (length bs0) \<noteq> 2" using b0(2) by simp_all
  ultimately obtain bs where bs: "csent (conns s'' 1) = csent (conns s' 1) @ bs"
    "bs = take (length bs) (drop (length [97, newline] + nat 2) (concat (([97, newline] # ?cmds) @ [[] @ [99, newline]])))"
    using device_answer_skips_dropped_bytes [OF run _ _ s'(4,5) _ ph step b0(1)] by blast
  have four: "length [97, newline] + nat 2 = 4" by simp
  have all: "([97, newline] # ?cmds) @ [[] @ [99, newline]] =
      replicate 9 [97, newline] @ [[97, newline, 98, newline], [99, newline]]"
    by (simp add: numeral_eq_Suc)
  have "csent (conns s' 1) = [97, newline]" using s'(3) s(5) by simp
  moreover have "bs \<noteq> []" using bs(1) b0(2,3) by simp
  ultimately show ?thesis using run s'(4) step bs(1) bs(2) [unfolded four all] by metis
qed

text \<open>
  C22: The steps are those of the code: a connection that makes a round of its loop with no
  other connection in between gets, step by step, the buffer, the globals and the world that the
  round of \<open>connection_worker\<close> gives, also when the chunk is a seek command.
\<close>

theorem device_steps_are_rounds:
  assumes "cphase (conns s t) = Receiving" and "use_dev (shared s)" and "wbuf v = cbuf (conns s t)"
    and "available_buffer v = 2000" and "dev_round (device_posix K ibuf obuf rbuf) (int t) (caddr (conns s t)) v
      (shared s, world s t) = Inr (True, v', g, w)"
  shows "\<exists>as. dev_steps (device_posix K ibuf obuf rbuf) s
    ((put (put_buf s t (wbuf v')) t Receiving g w)\<lparr>arrivals := arrivals s @ as\<rparr>)"
  using assms(5)
proof (cases rule: dev_round_cases)
  case (answer n c w1 buffer m b w2)
  then have "dev_step (device_posix K ibuf obuf rbuf) s (put (put_buf s t (wbuf v')) t Receiving g w)"
    using dev_step.answer_seek [OF assms(1), of _ n c w1 buffer m b w2 w] assms(3,4) by simp
  then show ?thesis by (intro exI [of _ "[]"]) (simp add: arrivals_same dev_more [OF dev_refl])
next
  case (blank n c w1 buffer b)
  then have "dev_step (device_posix K ibuf obuf rbuf) s (put (put_buf s t (wbuf v')) t Receiving g w)"
    using dev_step.blank_seek [OF assms(1), of _ n c w1 buffer b w] assms(3,4) by simp
  then show ?thesis by (intro exI [of _ "[]"]) (simp add: arrivals_same dev_more [OF dev_refl])
next
  case (store n c w1 buffer m b w2 g1 w3 d)
  let ?P = "device_posix K ibuf obuf rbuf" and ?as = "[(t, take (nat n) b)]"
  let ?s = "(put_buf s t b)\<lparr>arrivals := arrivals s @ ?as\<rparr>"
  have "dev_step ?P s ((put (put_buf s t b) t (if d \<noteq> - 1 then Opening else Receiving) g1 w3)
      \<lparr>arrivals := arrivals s @ ?as\<rparr>)"
    using dev_step.store_chunk [OF assms(1), of _ n c w1 buffer m b w2 g1 w3 d] store(1-8) assms(3,4) by simp
  then have step: "dev_steps ?P s (put ?s t (if d \<noteq> - 1 then Opening else Receiving) g1 w3)"
    unfolding put_arrivals by (rule dev_more [OF dev_refl])
  have g1: "use_dev g1" using store(6) assms(2)
    by (auto simp: dump_buffer_to_file_def lock_file_def unlock_file_def res_simps split: if_splits)
  have "dev_steps ?P s (put ?s t Receiving g w)"
  proof (cases "d = - 1")
    case True
    then show ?thesis using step store(8) by simp
  next
    case False
    then have "dev_steps ?P s (put ?s t Opening g1 w3)" using step by simp
    then show ?thesis using dev_steps_trans [OF dump_file_steps [OF _ g1]] store(8) False by simp
  qed
  then show ?thesis using store(9) by (intro exI [of _ ?as]) (simp add: put_arrivals)
qed

theorem device_steps_are_rounds_witness:
  "\<exists>s b g w as. device_run first_fit_kernel 32 2048 1024 4096 (kst (world_of fresh_device [])) two_inboxes s \<and>
    dev_steps (device_posix first_fit_kernel 2048 1024 4096) s
      ((put (put_buf s 1 b) 1 Receiving g w)\<lparr>arrivals := arrivals s @ as\<rparr>) \<and> fst (dev_store (kst w)) = [[98, newline]]"
proof -
  let ?s = "two_start (kst (world_of fresh_device []))" and ?P = "device_posix first_fit_kernel 2048 1024 4096"
  let ?v = "\<lparr>wbuf = replicate 2000 0, buffer_size = 2000, available_buffer = 2000, total_bytes_received = 0,
    buffer_position = 0\<rparr>"
  have s: "cinbox (conns ?s 1) = [[98, newline]]" "cphase (conns ?s 1) = Receiving" "use_dev (shared ?s)"
    "wbuf ?v = cbuf (conns ?s 1)" "available_buffer ?v = 2000" "length (wbuf ?v) = 2000" "stored ?s = ([], [])"
    by (simp_all add: two_start_def dserver_start_def two_inboxes_def device_globals_def stored_def empty_start(2))
  have run: "device_run first_fit_kernel 32 2048 1024 4096 (kst (world_of fresh_device [])) two_inboxes ?s"
    by (rule empty_run)
  have inv: "dev_inv first_fit_kernel 32 1024 (world ?s 1)" by (rule device_run_inv [OF run]) (rule conns_invD(1))
  have "0 < dev_budget 32 (world ?s 1)"
    using empty_start(3) by (simp add: dev_budget_def two_start_def dserver_start_def world_def)
  then obtain v' g' w' where "dev_round ?P (int 1) (caddr (conns ?s 1)) ?v (shared ?s, world ?s 1) = Inr (True, v', g', w')"
    "dev_store (kst w') = write_spec [98, newline] ([], [])"
    using char_device.dev_round_stores [OF inv _ s(3) _ two_plain(1), of "[]" ?v 2048 4096 "int 1" "caddr (conns ?s 1)"]
      s(1,5-7) by (auto simp: stored_def)
  moreover from this obtain as where "dev_steps ?P ?s
      ((put (put_buf ?s 1 (wbuf v')) 1 Receiving g' w')\<lparr>arrivals := arrivals ?s @ as\<rparr>)"
    using device_steps_are_rounds [OF s(2-5)] by blast
  ultimately show ?thesis
    using run by (intro exI [of _ ?s] exI [of _ "wbuf v'"] exI [of _ g'] exI [of _ w'] exI [of _ as]) simp
qed

text \<open>
  In a schedule of whole system calls, with the chunks of \<open>device_chunk\<close>, a connection that answers has
  its next step, and one that waits for a chunk takes the next chunk whenever it has arrived, but
  for a seek command whose answer is longer than the 500 bytes of the driver's scratch buffer. (Of
  the program this is not all: a read can meet a commit, and other seek commands fault or hang.)
\<close>

theorem device_connections_go_on:
  assumes "device_run K N ibuf obuf rbuf k inbox s"
    and "cphase (conns s t) \<noteq> Receiving \<or> cinbox (conns s t) \<noteq> []"
    and "\<forall>c cs j off. cphase (conns s t) = Receiving \<and> cinbox (conns s t) = c # cs \<and> is_seek c j off \<longrightarrow>
      length (seek_answer (dev_store (kernel_st s)) j off) \<le> 500"
  shows "\<exists>s'. dev_step (device_posix K ibuf obuf rbuf) s s' \<and> effect s t s'"
proof -
  obtain W where inv: "conns_inv K N obuf rbuf W (dev_store k) inbox s" and room: "length (arrivals s) < W"
    using assms(1) by (rule device_run_inv)
  show ?thesis
  proof (cases "cphase (conns s t)")
    case Receiving
    then obtain c cs where c: "cinbox (conns s t) = c # cs" using assms(2) by (cases "cinbox (conns s t)") auto
    have "device_chunk c"
      using device_run_chunks [OF assms(1), of t] conns_invD(4) [OF inv, of t] c by (auto simp: list_all_iff)
    then consider "plain_chunk c" | j off where "is_seek c j off" by (auto simp: device_chunk_def)
    then show ?thesis
    proof cases
      case 1
      then show ?thesis using can_store [OF inv Receiving c _ room] by blast
    next
      case 2
      then have "length (seek_answer (stored s) j off) \<le> 500" using assms(3) Receiving c by (auto simp: stored_def)
      then show ?thesis using can_seek [OF inv Receiving c 2 refl _ room] by blast
    qed
  next
    case Opening
    then show ?thesis using can_open [OF inv] by blast
  next
    case (Sending fd off)
    then show ?thesis using can_send [OF inv] by blast
  qed
qed

theorem device_connections_go_on_witness:
  "\<exists>s s' s''. device_run first_fit_kernel 32 2048 1024 4096 (kst (world_of full_device [])) two_inboxes s \<and>
    dev_step (device_posix first_fit_kernel 2048 1024 4096) s s' \<and> effect s 1 s' \<and>
    dev_step (device_posix first_fit_kernel 2048 1024 4096) s s'' \<and> effect s 2 s''"
proof -
  let ?s = "two_start (kst (world_of full_device []))"
  have box: "cinbox (conns ?s 1) = [[98, newline]]" "cinbox (conns ?s 2) = [[99, newline]]"
    by (simp_all add: two_start_def dserver_start_def two_inboxes_def)
  have next_step: "\<exists>s'. dev_step (device_posix first_fit_kernel 2048 1024 4096) ?s s' \<and> effect ?s t s'"
    if "cinbox (conns ?s t) = [c]" "length c < 23" for t c
    by (rule device_connections_go_on [OF full_run]) (use that in auto)
  obtain s' s'' where "dev_step (device_posix first_fit_kernel 2048 1024 4096) ?s s'" "effect ?s 1 s'"
    "dev_step (device_posix first_fit_kernel 2048 1024 4096) ?s s''" "effect ?s 2 s''"
    using next_step [OF box(1)] next_step [OF box(2)] by auto
  then show ?thesis using full_run by blast
qed




end
