(* ===== verification/Server_Threads.thy ===== *)
theory Server_Threads
  imports Server_Files Tail_Queue
begin

text \<open>
  The threads of the server of \<open>server/aesdsocket.c\<close> as its main thread sees them: the list of
  connections (\<open>create_node\<close>, \<open>cleanup\<close>), the signal handler, and the start of the program
  with its accept loop (\<open>main\<close>, \<open>open_socket\<close>).
\<close>

section \<open>The list of connections\<close>

definition REMOTE_IP_SIZE :: nat where
  "REMOTE_IP_SIZE = 100"

text \<open>\<open>struct node\<close> without its links, which are in the store of the tail queue.\<close>

record node =
  node_id :: int
  node_fd :: int
  mythread_returnval :: int
  mythread :: "nat option" \<comment> \<open>\<open>None\<close> if \<open>pthread_create\<close> failed and did not write it\<close>
  ip_addr :: "byte list option" \<comment> \<open>\<open>None\<close> before it is written\<close>

text \<open>
  What becomes of the thread of a connection after the quit flag is set: \<open>recv\<close> returns 0 because the
  other side has closed the connection; or the loop of \<open>connection_worker\<close> comes to the test of the
  flag, which it has on a regular file only; or the thread stays in \<open>recv\<close>. The closes of the
  socket by the thread: one behind the loop, and one more in the branch that has seen the flag.
\<close>

datatype worker_end = Hung_up | At_flag | In_recv

definition worker_exit :: "bool \<Rightarrow> int \<Rightarrow> worker_end \<Rightarrow> int list option" where
  "worker_exit dev_mode fd w = (case w of Hung_up \<Rightarrow> Some [fd]
     | At_flag \<Rightarrow> (if dev_mode then None else Some [fd, fd])
     | In_recv \<Rightarrow> None)"

text \<open>
  The main thread: the list, the nodes, the threads with their sockets, the counter, the list mutex
  and the quit flag, and what was done so far: the threads joined, the descriptors they had closed
  and those that the main thread closed, the nodes it freed, and whether it listens with a timer
  running.
\<close>

record main_thread =
  links :: tailq_store
  nodes :: "ptr \<Rightarrow> node option"
  threads :: "nat \<Rightarrow> (int \<times> worker_end) option"
  thread_id_counter :: int
  list_mutex :: bool
  quitting :: bool
  parent_fd :: int
  joined :: "nat list"
  worker_closed :: "int list"
  closed :: "int list"
  freed_nodes :: "ptr list"
  timer_set :: bool
  listening :: bool
  outfile_removed :: bool \<comment> \<open>the data file of an earlier run was unlinked\<close>

definition head :: ptr where
  "head = 64"

text \<open>
  What the system gives to one connection: the socket, the address text, the node that
  \<open>malloc\<close> finds with its stale links, the result of \<open>pthread_create\<close> with the thread if this is
  0, and the end of the thread.
\<close>

record connection =
  conn_fd :: int
  remote_ip :: "byte list"
  conn_node :: ptr
  conn_junk :: "ptr \<times> link"
  conn_thread :: nat
  conn_result :: int
  conn_end :: worker_end

definition lock_list :: "main_thread \<Rightarrow> main_thread res" where
  "lock_list s = (if list_mutex s then Inl Blocked else Inr (s\<lparr>list_mutex := True\<rparr>))"

text \<open>
  \<open>create_node\<close>. The address text is copied with its terminating zero. The mutex stays locked:
  the new thread releases it. If \<open>pthread_create\<close> fails there is none, and the node goes on the list
  all the same: the result is stored and never read.
\<close>

definition create_node :: "connection \<Rightarrow> main_thread \<Rightarrow> main_thread res" where
  "create_node c s =
     bindE (lock_list s) (\<lambda>s.
     bindE (guardE BadPointer (conn_node c \<noteq> NULL)) (\<lambda>_.
     bindE (guardE IntOverflow (thread_id_counter s < 2147483647)) (\<lambda>_.
     let e = conn_node c;
         s = s\<lparr>links := alloc_elem (links s) e (conn_junk c), thread_id_counter := thread_id_counter s + 1\<rparr>;
         n = \<lparr>node_id = thread_id_counter s, node_fd = conn_fd c, mythread_returnval = conn_result c,
              mythread = (if conn_result c = 0 then Some (conn_thread c) else None), ip_addr = None\<rparr>;
         s = (if conn_result c = 0 then s\<lparr>threads := (threads s)(conn_thread c \<mapsto> (conn_fd c, conn_end c))\<rparr> else s)
     in bindE (guardE OutOfBounds (length (remote_ip c) + 1 \<le> REMOTE_IP_SIZE)) (\<lambda>_.
        bindE (TAILQ_INSERT_TAIL (links s) head e) (\<lambda>m.
        Inr (s\<lparr>links := m, nodes := (nodes s)(e \<mapsto> n\<lparr>ip_addr := Some (remote_ip c)\<rparr>)\<rparr>))))))"

text \<open>What the new thread does to the list mutex when it starts.\<close>

definition worker_starts :: "main_thread \<Rightarrow> main_thread res" where
  "worker_starts s = (if list_mutex s then Inr (s\<lparr>list_mutex := False\<rparr>) else Inl BadUnlock)"

text \<open>
  The body of the first loop of \<open>cleanup\<close>: join the thread, which waits until it has ended, and
  close the socket once more.
\<close>

definition join_and_close :: "bool \<Rightarrow> ptr \<Rightarrow> main_thread \<Rightarrow> main_thread res" where
  "join_and_close dev_mode e s = (case nodes s e of None \<Rightarrow> Inl BadPointer
     | Some n \<Rightarrow> (case mythread n of None \<Rightarrow> Inl Uninitialised
       | Some t \<Rightarrow> (case threads s t of None \<Rightarrow> Inl BadPointer
         | Some (fd, w) \<Rightarrow> (case worker_exit dev_mode fd w of None \<Rightarrow> Inl Blocked
           | Some fds \<Rightarrow> Inr (s\<lparr>joined := joined s @ [t], worker_closed := worker_closed s @ fds,
               closed := closed s @ [node_fd n]\<rparr>)))))"

definition cleanup :: "bool \<Rightarrow> main_thread \<Rightarrow> main_thread res" where
  "cleanup dev_mode s =
     bindE (TAILQ_FOREACH (links s) head (join_and_close dev_mode) s) (\<lambda>s.
     let s = s\<lparr>closed := closed s @ [parent_fd s]\<rparr>
     in bindE (returned (drain_loop (\<lambda>m. TAILQ_EMPTY m head) (\<lambda>m. TAILQ_FIRST m head)
          (\<lambda>m. TAILQ_REMOVE m head) free_elem (links s) [])) (\<lambda>(m, es).
        Inr (s\<lparr>links := m, nodes := (\<lambda>p. if p \<in> set es then None else nodes s p),
               freed_nodes := freed_nodes s @ es\<rparr>)))"

definition SIGINT :: int where "SIGINT = 2"
definition SIGTERM :: int where "SIGTERM = 15"

text \<open>\<open>sigint_handler\<close>; its log messages depend on the signal, its effect does not.\<close>

definition sigint_handler :: "bool \<Rightarrow> int \<Rightarrow> main_thread \<Rightarrow> main_thread res" where
  "sigint_handler dev_mode sig s = cleanup dev_mode (s\<lparr>quitting := True\<rparr>)"

section \<open>Start and accept loop\<close>

text \<open>
  What \<open>accept\<close> waits for: a connection, whose thread starts at once if it could be created, or a
  signal, which is delivered to the main thread. The outcome of the program: it still waits, or it
  ended with an exit status.
\<close>

datatype event = Accepted connection | Signal int

datatype outcome = Waiting | Exited int

fun accept_loop :: "bool \<Rightarrow> event list \<Rightarrow> main_thread \<Rightarrow> (outcome \<times> main_thread) res" where
  "accept_loop dev_mode [] s = (if quitting s then Inr (Exited 0, s) else Inr (Waiting, s))"
| "accept_loop dev_mode (ev # evs) s =
     (if quitting s then Inr (Exited 0, s)
      else case ev of
          Signal sig \<Rightarrow> bindE (sigint_handler dev_mode sig s) (\<lambda>s. Inr (Exited 0, s))
        | Accepted c \<Rightarrow>
            bindE (create_node c s) (\<lambda>s.
            bindE (if conn_result c = 0 then worker_starts s else Inr s) (accept_loop dev_mode evs)))"

text \<open>
  \<open>open_socket\<close>: \<open>bound\<close> is what \<open>bind\<close> returns, \<open>pid\<close> what \<open>fork\<close> returns. The parent
  returns; the child listens.
\<close>

definition open_socket ::
  "bool \<Rightarrow> int \<Rightarrow> int \<Rightarrow> int \<Rightarrow> event list \<Rightarrow> main_thread \<Rightarrow> (outcome \<times> main_thread) res" where
  "open_socket dev_mode sock bound pid evs s =
     (let s = s\<lparr>parent_fd := sock\<rparr> in
      if bound \<noteq> 0 then Inr (Exited 1, s)
      else if pid > 0 then Inr (Exited 0, s)
      else
        let s = (if \<not> dev_mode then s\<lparr>timer_set := True\<rparr> else s);
            s = s\<lparr>listening := True\<rparr>
        in accept_loop dev_mode evs s)"

text \<open>\<open>delete_file\<close> unlinks the data file; the result of \<open>unlink\<close> is ignored.\<close>

definition delete_file :: "main_thread \<Rightarrow> main_thread" where
  "delete_file s = s\<lparr>outfile_removed := True\<rparr>"

text \<open>
  \<open>main\<close>: the old data file is removed unless the store is the device, the list is initialised and traversed, the socket opened. The result of
  \<open>open_socket\<close> is not used: \<open>main\<close> ends with status 0 when it returns.
\<close>

definition main_program ::
  "bool \<Rightarrow> int \<Rightarrow> int \<Rightarrow> int \<Rightarrow> event list \<Rightarrow> main_thread \<Rightarrow> (outcome \<times> main_thread) res" where
  "main_program dev_mode sock bound pid evs s0 =
     (let s = (if \<not> dev_mode then delete_file s0 else s0) in
     bindE (TAILQ_INIT (links s) head) (\<lambda>m.
     let s = s\<lparr>links := m\<rparr>
     in bindE (TAILQ_FOREACH (links s) head (\<lambda>e u. Inr u) ()) (\<lambda>_.
        bindE (open_socket dev_mode sock bound pid evs s) (\<lambda>(out, s).
        Inr (case out of Waiting \<Rightarrow> Waiting | Exited n \<Rightarrow> Exited 0, s)))))"

section \<open>Connections represented by the list\<close>

text \<open>
  The list holds the nodes of the connections \<open>cs\<close>, in the order of their creation, and each has its
  thread.
\<close>

definition node_of :: "int \<Rightarrow> connection \<Rightarrow> node" where
  "node_of i c = \<lparr>node_id = i, node_fd = conn_fd c, mythread_returnval = conn_result c,
     mythread = Some (conn_thread c), ip_addr = Some (remote_ip c)\<rparr>"

definition registered :: "main_thread \<Rightarrow> connection list \<Rightarrow> bool" where
  "registered s cs \<longleftrightarrow> tailq (links s) head (map conn_node cs) \<and>
     (\<forall>c \<in> set cs. \<exists>i. nodes s (conn_node c) = Some (node_of i c)) \<and>
     (\<forall>c \<in> set cs. threads s (conn_thread c) = Some (conn_fd c, conn_end c)) \<and>
     thread_id_counter s = int (length cs)"

definition good_connection :: "connection \<Rightarrow> bool" where
  "good_connection c \<longleftrightarrow> conn_node c \<noteq> NULL \<and> length (remote_ip c) < 100 \<and> conn_result c = 0"

lemma create_node_registers:
  assumes reg: "registered s cs" and c: "good_connection c" "conn_node c \<notin> conn_node ` set cs" "conn_thread c \<notin> conn_thread ` set cs"
    and free: "\<not> list_mutex s" and few: "length cs < 2147483647"
  shows "\<exists>t. create_node c s = Inr t \<and> registered t (cs @ [c]) \<and> list_mutex t \<and>
    nodes t (conn_node c) = Some (node_of (int (length cs) + 1) c) \<and>
    (quitting t, parent_fd t, joined t, worker_closed t, closed t, freed_nodes t, outfile_removed t) =
      (quitting s, parent_fd s, joined s, worker_closed s, closed s, freed_nodes s, outfile_removed s)"
proof -
  have q: "tailq (links s) head (map conn_node cs)" using reg by (simp add: registered_def)
  obtain m where m: "TAILQ_INSERT_TAIL (alloc_elem (links s) (conn_node c) (conn_junk c)) head (conn_node c) = Inr m"
    "tailq m head (map conn_node cs @ [conn_node c])"
    using tailq.append_law [OF q, of "conn_node c" "conn_junk c"] c by (auto simp: good_connection_def)
  have "\<forall>d \<in> set cs. conn_node d \<noteq> conn_node c \<and> conn_thread d \<noteq> conn_thread c" using c(2,3) by (metis imageI)
  then show ?thesis
    using m c(1) reg free few
    by (auto simp: create_node_def lock_list_def good_connection_def REMOTE_IP_SIZE_def registered_def
        node_of_def Let_def)
qed

text \<open>The traversal of \<open>cleanup\<close>.\<close>

definition exits :: "bool \<Rightarrow> connection \<Rightarrow> int list option" where
  "exits dev_mode c = worker_exit dev_mode (conn_fd c) (conn_end c)"

lemma fold_join:
  assumes "\<forall>c \<in> set cs. \<exists>i. nodes s (conn_node c) = Some (node_of i c)"
    and "\<forall>c \<in> set cs. threads s (conn_thread c) = Some (conn_fd c, conn_end c)"
  shows "fold_res (join_and_close dev_mode) (map conn_node cs) s =
    (if \<forall>c \<in> set cs. exits dev_mode c \<noteq> None
     then Inr (s\<lparr>joined := joined s @ map conn_thread cs,
       worker_closed := worker_closed s @ concat (map (\<lambda>c. the (exits dev_mode c)) cs),
       closed := closed s @ map conn_fd cs\<rparr>)
     else Inl Blocked)"
  using assms
proof (induction cs arbitrary: s)
  case (Cons c cs)
  show ?case
  proof (cases "exits dev_mode c")
    case None
    then show ?thesis using Cons.prems by (auto simp: join_and_close_def node_of_def exits_def)
  next
    case (Some fds)
    then have "join_and_close dev_mode (conn_node c) s = Inr (s\<lparr>joined := joined s @ [conn_thread c],
        worker_closed := worker_closed s @ fds, closed := closed s @ [conn_fd c]\<rparr>)"
      using Cons.prems by (auto simp: join_and_close_def node_of_def exits_def)
    then show ?thesis using Some Cons.prems Cons.IH by simp
  qed
qed simp

lemma cleanup_ok:
  assumes reg: "registered s cs" and ends: "\<forall>c \<in> set cs. exits dev_mode c \<noteq> None"
  shows "\<exists>t. cleanup dev_mode s = Inr t \<and> tailq (links t) head [] \<and>
    (\<forall>c \<in> set cs. nodes t (conn_node c) = None) \<and>
    (quitting t, joined t, worker_closed t, closed t, freed_nodes t, outfile_removed t) =
      (quitting s, joined s @ map conn_thread cs, worker_closed s @ concat (map (\<lambda>c. the (exits dev_mode c)) cs),
       closed s @ map conn_fd cs @ [parent_fd s], freed_nodes s @ map conn_node cs, outfile_removed s)"
proof -
  have q: "tailq (links s) head (map conn_node cs)"
    and ns: "\<forall>c \<in> set cs. \<exists>i. nodes s (conn_node c) = Some (node_of i c)"
      "\<forall>c \<in> set cs. threads s (conn_thread c) = Some (conn_fd c, conn_end c)"
    using reg by (simp_all add: registered_def)
  obtain m where m: "drain_loop (\<lambda>m. TAILQ_EMPTY m head) (\<lambda>m. TAILQ_FIRST m head)
      (\<lambda>m. TAILQ_REMOVE m head) free_elem (links s) [] = Some (Inr (m, map conn_node cs))"
    "tailq m head []"
    using tailq.drain_all [OF q, of "[]"] by auto
  then show ?thesis
    using ends by (simp add: cleanup_def tailq_FOREACH [OF q] fold_join [OF ns] Let_def)
qed

lemma cleanup_waits:
  assumes reg: "registered s cs" and c: "c \<in> set cs" "exits dev_mode c = None"
  shows "cleanup dev_mode s = Inl Blocked"
proof -
  have q: "tailq (links s) head (map conn_node cs)" using reg by (simp add: registered_def)
  have "fold_res (join_and_close dev_mode) (map conn_node cs) s = Inl Blocked"
    using fold_join [of cs s dev_mode] reg c by (auto simp: registered_def)
  then show ?thesis by (simp add: cleanup_def tailq_FOREACH [OF q])
qed

lemma accept_loop_registers:
  assumes "registered s cs" and "list_all good_connection ds" and "distinct (map conn_node (cs @ ds))"
    and "distinct (map conn_thread (cs @ ds))" and "\<not> list_mutex s" and "\<not> quitting s" and "length cs + length ds \<le> 2147483647"
  shows "\<exists>t. accept_loop dev_mode (map Accepted ds @ evs) s = accept_loop dev_mode evs t \<and> registered t (cs @ ds) \<and>
    \<not> list_mutex t \<and> (quitting t, parent_fd t, joined t, worker_closed t, closed t, freed_nodes t, outfile_removed t) =
      (quitting s, parent_fd s, joined s, worker_closed s, closed s, freed_nodes s, outfile_removed s)"
  using assms
proof (induction ds arbitrary: s cs)
  case (Cons d ds)
  obtain t where t: "create_node d s = Inr t" "registered t (cs @ [d])" "list_mutex t"
    "(quitting t, parent_fd t, joined t, worker_closed t, closed t, freed_nodes t, outfile_removed t) =
      (quitting s, parent_fd s, joined s, worker_closed s, closed s, freed_nodes s, outfile_removed s)"
    using create_node_registers [OF Cons.prems(1), of d] Cons.prems by auto
  let ?t = "t\<lparr>list_mutex := False\<rparr>"
  have "registered ?t (cs @ [d])" using t(2) by (simp add: registered_def)
  moreover have "accept_loop dev_mode (map Accepted (d # ds) @ evs) s = accept_loop dev_mode (map Accepted ds @ evs) ?t"
    using t(1,3) Cons.prems(2,6) by (simp add: worker_starts_def good_connection_def)
  ultimately show ?case
    using Cons.IH [of ?t "cs @ [d]"] Cons.prems t(4) by simp
qed auto

section \<open>Properties\<close>

text \<open>A program that starts: the head of the list exists, nothing was done yet.\<close>

definition starting :: "main_thread \<Rightarrow> bool" where
  "starting s \<longleftrightarrow> cell (links s) (FirstOf head) \<noteq> None \<and> tqh_last (links s) head \<noteq> None \<and>
     thread_id_counter s = 0 \<and> \<not> list_mutex s \<and> \<not> quitting s \<and> joined s = [] \<and> worker_closed s = [] \<and>
     closed s = [] \<and> freed_nodes s = []"

lemma program_accepts:
  assumes "starting s" and "list_all good_connection cs" and "distinct (map conn_node cs)"
    and "distinct (map conn_thread cs)" and "length cs \<le> 2147483647"
  obtains t where "main_program dev_mode sock 0 0 (map Accepted cs @ [Signal sig]) s =
      bindE (cleanup dev_mode t) (\<lambda>t. Inr (Exited 0, t))"
    and "registered t cs" and "(parent_fd t, joined t, worker_closed t, closed t, freed_nodes t, outfile_removed t) =
      (sock, [], [], [], [], outfile_removed s \<or> \<not> dev_mode)"
proof -
  obtain m where m: "TAILQ_INIT (links s) head = Inr m" "tailq m head []"
    using tailq_init [of "links s" head] assms(1) by (auto simp: starting_def)
  define s1 where "s1 = s\<lparr>links := m, parent_fd := sock, timer_set := (timer_set s \<or> \<not> dev_mode),
    listening := True, outfile_removed := (outfile_removed s \<or> \<not> dev_mode)\<rparr>"
  have "registered s1 []" using m(2) assms(1) by (simp add: registered_def s1_def starting_def)
  moreover have "\<not> list_mutex s1" "\<not> quitting s1"
    "(parent_fd s1, joined s1, worker_closed s1, closed s1, freed_nodes s1) = (sock, [], [], [], [])"
    using assms(1) by (simp_all add: s1_def starting_def)
  ultimately obtain s2 where s2: "accept_loop dev_mode (map Accepted cs @ [Signal sig]) s1 =
      accept_loop dev_mode [Signal sig] s2" "registered s2 cs"
    "(quitting s2, parent_fd s2, joined s2, worker_closed s2, closed s2, freed_nodes s2, outfile_removed s2) =
      (False, sock, [], [], [], [], outfile_removed s1)"
    using accept_loop_registers [of s1 "[]" cs dev_mode "[Signal sig]"] assms(2-5)
    by (simp del: accept_loop.simps) metis
  let ?s = "if \<not> dev_mode then delete_file s else s"
  have links: "links ?s = links s" by (simp add: delete_file_def)
  have "open_socket dev_mode sock 0 0 (map Accepted cs @ [Signal sig]) (?s\<lparr>links := m\<rparr>) =
      accept_loop dev_mode (map Accepted cs @ [Signal sig]) s1"
    by (cases s) (simp add: open_socket_def s1_def delete_file_def Let_def)
  then have "main_program dev_mode sock 0 0 (map Accepted cs @ [Signal sig]) s =
      bindE (cleanup dev_mode (s2\<lparr>quitting := True\<rparr>)) (\<lambda>t. Inr (Exited 0, t))"
    using m s2(1,3)
    by (simp add: main_program_def links tailq_FOREACH [OF m(2)] sigint_handler_def Let_def bindE_assoc)
  moreover have "registered (s2\<lparr>quitting := True\<rparr>) cs" using s2(2) by (simp add: registered_def)
  ultimately show thesis by (rule that) (use s2(3) in \<open>simp add: s1_def\<close>)
qed

text \<open>
  C25: A server that accepts connections, each with a thread of its own, until its main thread gets
  the signal in \<open>accept\<close>. If every thread ends, the server ends with status 0 after it has joined the
  threads, closed every socket again that the thread had closed, and then the listening one, and
  freed every node of the list, in the order of the connections; only a server on a regular file
  has removed the data file of an earlier run. A thread whose client keeps the connection open and
  silent never ends, and on the device none does whose client keeps it open: then the handler waits
  in \<open>pthread_join\<close> for ever, and the server does not end.
\<close>

theorem server_shuts_down:
  assumes "starting s" and "list_all good_connection cs" and "distinct (map conn_node cs)"
    and "distinct (map conn_thread cs)" and "length cs \<le> 2147483647"
  shows "if \<forall>c \<in> set cs. worker_exit dev_mode (conn_fd c) (conn_end c) \<noteq> None
    then \<exists>t. main_program dev_mode sock 0 0 (map Accepted cs @ [Signal sig]) s = Inr (Exited 0, t) \<and>
      joined t = map conn_thread cs \<and>
      worker_closed t = concat (map (\<lambda>c. the (worker_exit dev_mode (conn_fd c) (conn_end c))) cs) \<and>
      closed t = map conn_fd cs @ [sock] \<and> freed_nodes t = map conn_node cs \<and> tailq (links t) head [] \<and>
      outfile_removed t = (outfile_removed s \<or> \<not> dev_mode) \<and>
      (\<forall>c \<in> set cs. nodes t (conn_node c) = None)
    else main_program dev_mode sock 0 0 (map Accepted cs @ [Signal sig]) s = Inl Blocked"
proof -
  obtain t where t: "main_program dev_mode sock 0 0 (map Accepted cs @ [Signal sig]) s =
      bindE (cleanup dev_mode t) (\<lambda>t. Inr (Exited 0, t))" "registered t cs"
    "(parent_fd t, joined t, worker_closed t, closed t, freed_nodes t, outfile_removed t) =
      (sock, [], [], [], [], outfile_removed s \<or> \<not> dev_mode)"
    using program_accepts [OF assms, of dev_mode sock sig] by metis
  show ?thesis
  proof (cases "\<forall>c \<in> set cs. worker_exit dev_mode (conn_fd c) (conn_end c) \<noteq> None")
    case True
    then have "\<forall>c \<in> set cs. exits dev_mode c \<noteq> None" by (simp add: exits_def)
    from cleanup_ok [OF t(2) this] obtain u where "cleanup dev_mode t = Inr u" "tailq (links u) head []"
      "\<forall>c \<in> set cs. nodes u (conn_node c) = None"
      "(quitting u, joined u, worker_closed u, closed u, freed_nodes u, outfile_removed u) =
        (quitting t, joined t @ map conn_thread cs, worker_closed t @ concat (map (\<lambda>c. the (exits dev_mode c)) cs),
         closed t @ map conn_fd cs @ [parent_fd t], freed_nodes t @ map conn_node cs, outfile_removed t)"
      by blast
    then show ?thesis using True t(1,3) by (auto simp: exits_def)
  next
    case False
    then obtain c where "c \<in> set cs" "exits dev_mode c = None" by (auto simp: exits_def)
    from cleanup_waits [OF t(2) this] show ?thesis using False t(1) by simp
  qed
qed

definition start_state :: main_thread where
  "start_state = \<lparr>links = \<lparr>cell = [FirstOf head \<mapsto> 5], tqe_prev = Map.empty, tqh_last = [head \<mapsto> NextOf 9]\<rparr>,
     nodes = Map.empty, threads = Map.empty, thread_id_counter = 0, list_mutex = False, quitting = False,
     parent_fd = 0, joined = [], worker_closed = [], closed = [], freed_nodes = [], timer_set = False,
     listening = False, outfile_removed = False\<rparr>"

definition some_connection :: "int \<Rightarrow> ptr \<Rightarrow> nat \<Rightarrow> worker_end \<Rightarrow> connection" where
  "some_connection fd e t w = \<lparr>conn_fd = fd, remote_ip = [49, 46, 49], conn_node = e,
     conn_junk = (7, FirstOf 7), conn_thread = t, conn_result = 0, conn_end = w\<rparr>"

theorem server_shuts_down_witness:
  "(\<exists>t. main_program False 3 0 0 (map Accepted [some_connection 4 128 1 Hung_up, some_connection 5 256 2 At_flag] @
      [Signal SIGINT]) start_state = Inr (Exited 0, t) \<and>
    joined t = [1, 2] \<and> worker_closed t = [4, 5, 5] \<and> closed t = [4, 5, 3] \<and> freed_nodes t = [128, 256]) \<and>
   main_program True 3 0 0 (map Accepted [some_connection 4 128 1 Hung_up, some_connection 5 256 2 At_flag] @
      [Signal SIGINT]) start_state = Inl Blocked"
proof -
  let ?cs = "[some_connection 4 128 1 Hung_up, some_connection 5 256 2 At_flag]"
  have "starting start_state" "list_all good_connection ?cs" "distinct (map conn_node ?cs)"
    "distinct (map conn_thread ?cs)" "length ?cs \<le> 2147483647"
    by (simp_all add: starting_def start_state_def some_connection_def good_connection_def)
  note run = server_shuts_down [OF this, of _ 3 SIGINT]
  have ends: "map conn_fd ?cs = [4, 5]" "map conn_end ?cs = [Hung_up, At_flag]" "map conn_thread ?cs = [1, 2]"
    "map conn_node ?cs = [128, 256]"
    by (simp_all add: some_connection_def)
  then show ?thesis
    using run [of False] run [of True] by (auto simp: some_connection_def worker_exit_def)
qed

text \<open>
  After a \<open>pthread_create\<close> that failed the list mutex stays locked: the next connection blocks the
  main thread, and a signal makes it join a thread identifier that was never written.
\<close>

theorem failed_creation_blocks:
  assumes "registered s cs" and "\<not> list_mutex s" and "\<not> quitting s" and "length cs < 2147483647"
    and "conn_node c \<noteq> NULL" and "length (remote_ip c) < 100" and "conn_node c \<notin> conn_node ` set cs"
    and "conn_result c \<noteq> 0"
  shows "accept_loop dev_mode (Accepted c # Accepted d # evs) s = Inl Blocked"
proof -
  have "tailq (links s) head (map conn_node cs)" using assms(1) by (simp add: registered_def)
  from tailq.append_law [OF this, of "conn_node c" "conn_junk c"] obtain m where
    "TAILQ_INSERT_TAIL (alloc_elem (links s) (conn_node c) (conn_junk c)) head (conn_node c) = Inr m"
    using assms(5,7) by auto
  then show ?thesis
    using assms by (simp add: create_node_def lock_list_def REMOTE_IP_SIZE_def registered_def Let_def)
qed

text \<open>
  A server that cannot bind its socket does not listen, and still ends with status 0: the
  error that \<open>open_socket\<close> returns is not looked at.
\<close>

theorem bind_failure_is_silent:
  assumes "starting s" and "bound \<noteq> 0"
  shows "\<exists>t. main_program dev_mode sock bound pid evs s = Inr (Exited 0, t) \<and> listening t = listening s \<and>
    joined t = []"
proof -
  obtain m where "TAILQ_INIT (links s) head = Inr m" "tailq m head []"
    using tailq_init [of "links s" head] assms(1) by (auto simp: starting_def)
  then show ?thesis
    using assms by (simp add: main_program_def tailq_FOREACH open_socket_def starting_def delete_file_def Let_def)
qed

theorem bind_failure_is_silent_witness:
  "\<exists>t. main_program False 3 (- 1) 0 [] start_state = Inr (Exited 0, t) \<and> \<not> listening t"
proof -
  have "starting start_state" "(- 1 :: int) \<noteq> 0" "\<not> listening start_state"
    by (simp_all add: starting_def start_state_def)
  then show ?thesis using bind_failure_is_silent [of start_state "- 1" False 3 0 "[]"] by auto
qed

end
