(* ===== verification/Server_Interleaving.thy ===== *)
theory Server_Interleaving
  imports Server_Files "HOL-Library.Sublist"
begin

text \<open>
  The connection threads of \<open>server/aesdsocket.c\<close> and the timer's signal handler that share the
  file under the file mutex, as a step relation: its invariants over all schedules, the
  agreement of its steps with \<open>dump_buffer_to_file\<close> and \<open>dump_file_to_socket\<close>, what can always
  be finished, and what a signal can block.
\<close>

section \<open>The shared file\<close>

text \<open>
  Where a connection thread is with a message: between messages, inside \<open>dump_buffer_to_file\<close>
  before and after the write, between the two functions, and inside \<open>dump_file_to_socket\<close> at an
  offset of the file.
\<close>

datatype phase = Idle | Writing "byte list" | Written | Answering | Reading nat

text \<open>
  Where \<open>print_time_to_file\<close> is, the handler of \<open>SIGALRM\<close> that runs on top of some thread:
  not running, before it has the mutex, before and after the write of the stamp, and after the
  write of the newline.
\<close>

datatype alarm = NoAlarm | WantLock | Stamping | Stamped "byte list" | StampDone

text \<open>
  The file, the whole messages written so far with the threads that wrote them (\<open>None\<close> for a
  time stamp), the owner of the file mutex, and for each thread its phase, the handler on top of
  it, the messages to come, what it sent, and how many messages the file had at each answer.
\<close>

record shared =
  sfile :: "byte list"
  slog :: "(nat option \<times> byte list) list"
  owner :: "nat option"
  phase_of :: "nat \<Rightarrow> phase"
  alarm_of :: "nat \<Rightarrow> alarm"
  todo :: "nat \<Rightarrow> byte list list"
  sent_to :: "nat \<Rightarrow> byte list"
  answers :: "nat \<Rightarrow> nat list"

definition critical :: "phase \<Rightarrow> bool" where
  "critical p = (case p of Writing m \<Rightarrow> True | Written \<Rightarrow> True | Reading n \<Rightarrow> True | _ \<Rightarrow> False)"

definition stamping :: "alarm \<Rightarrow> bool" where
  "stamping a = (case a of Stamping \<Rightarrow> True | Stamped m \<Rightarrow> True | StampDone \<Rightarrow> True | _ \<Rightarrow> False)"

text \<open>
  One step. A thread \<open>t\<close> goes on only while no handler runs on top of it. A read takes between 1
  and 100 bytes until the file ends. The signal can be delivered to any thread at any moment.
\<close>

inductive server_step :: "shared \<Rightarrow> shared \<Rightarrow> bool" where
  lock_write: "alarm_of s t = NoAlarm \<Longrightarrow> phase_of s t = Idle \<Longrightarrow> todo s t = m # ms \<Longrightarrow> owner s = None \<Longrightarrow>
    server_step s (s\<lparr>owner := Some t, phase_of := (phase_of s)(t := Writing m), todo := (todo s)(t := ms)\<rparr>)"
| write_message: "alarm_of s t = NoAlarm \<Longrightarrow> phase_of s t = Writing m \<Longrightarrow>
    server_step s (s\<lparr>sfile := sfile s @ m, slog := slog s @ [(Some t, m)], phase_of := (phase_of s)(t := Written)\<rparr>)"
| unlock_write: "alarm_of s t = NoAlarm \<Longrightarrow> phase_of s t = Written \<Longrightarrow>
    server_step s (s\<lparr>owner := None, phase_of := (phase_of s)(t := Answering)\<rparr>)"
| lock_read: "alarm_of s t = NoAlarm \<Longrightarrow> phase_of s t = Answering \<Longrightarrow> owner s = None \<Longrightarrow>
    server_step s (s\<lparr>owner := Some t, phase_of := (phase_of s)(t := Reading 0)\<rparr>)"
| read_send: "alarm_of s t = NoAlarm \<Longrightarrow> phase_of s t = Reading off \<Longrightarrow> 0 < n \<Longrightarrow> n \<le> 100 \<Longrightarrow>
    off + n \<le> length (sfile s) \<Longrightarrow>
    server_step s (s\<lparr>sent_to := (sent_to s)(t := sent_to s t @ take n (drop off (sfile s))),
      phase_of := (phase_of s)(t := Reading (off + n))\<rparr>)"
| unlock_read: "alarm_of s t = NoAlarm \<Longrightarrow> phase_of s t = Reading off \<Longrightarrow> length (sfile s) \<le> off \<Longrightarrow>
    server_step s (s\<lparr>owner := None, phase_of := (phase_of s)(t := Idle),
      answers := (answers s)(t := answers s t @ [length (slog s)])\<rparr>)"
| deliver: "alarm_of s t = NoAlarm \<Longrightarrow> server_step s (s\<lparr>alarm_of := (alarm_of s)(t := WantLock)\<rparr>)"
| lock_stamp: "alarm_of s t = WantLock \<Longrightarrow> owner s = None \<Longrightarrow>
    server_step s (s\<lparr>owner := Some t, alarm_of := (alarm_of s)(t := Stamping)\<rparr>)"
| write_stamp: "alarm_of s t = Stamping \<Longrightarrow>
    server_step s (s\<lparr>sfile := sfile s @ stamp, alarm_of := (alarm_of s)(t := Stamped stamp)\<rparr>)"
| write_newline: "alarm_of s t = Stamped stamp \<Longrightarrow>
    server_step s (s\<lparr>sfile := sfile s @ [newline], slog := slog s @ [(None, stamp @ [newline])],
      alarm_of := (alarm_of s)(t := StampDone)\<rparr>)"
| unlock_stamp: "alarm_of s t = StampDone \<Longrightarrow>
    server_step s (s\<lparr>owner := None, alarm_of := (alarm_of s)(t := NoAlarm)\<rparr>)"

inductive_cases server_stepE: "server_step s s'"

definition server_start :: "(nat \<Rightarrow> byte list list) \<Rightarrow> shared" where
  "server_start msgs = \<lparr>sfile = [], slog = [], owner = None, phase_of = (\<lambda>t. Idle),
     alarm_of = (\<lambda>t. NoAlarm), todo = msgs, sent_to = (\<lambda>t. []), answers = (\<lambda>t. [])\<rparr>"

inductive server_steps :: "shared \<Rightarrow> shared \<Rightarrow> bool" for s where
  refl: "server_steps s s"
| step: "server_steps s s' \<Longrightarrow> server_step s' s'' \<Longrightarrow> server_steps s s''"

section \<open>Invariants\<close>

text \<open>The mutex is held exactly by the thread in a critical section, its own or the handler's.\<close>

definition excl_inv :: "shared \<Rightarrow> bool" where
  "excl_inv s \<longleftrightarrow> (\<forall>t. (owner s = Some t \<longleftrightarrow> critical (phase_of s t) \<or> stamping (alarm_of s t)) \<and>
     \<not> (critical (phase_of s t) \<and> stamping (alarm_of s t)))"

text \<open>A stamp whose newline is not yet written.\<close>

definition half_stamp :: "shared \<Rightarrow> byte list" where
  "half_stamp s = (case owner s of None \<Rightarrow> []
     | Some t \<Rightarrow> (case alarm_of s t of Stamped stamp \<Rightarrow> stamp | _ \<Rightarrow> []))"

text \<open>The messages of one thread, written or about to be.\<close>

definition written_by :: "nat \<Rightarrow> (nat option \<times> byte list) list \<Rightarrow> byte list list" where
  "written_by t log = map snd (filter (\<lambda>um. fst um = Some t) log)"

definition pending :: "phase \<Rightarrow> byte list list" where
  "pending p = (case p of Writing m \<Rightarrow> [m] | _ \<Rightarrow> [])"

definition log_inv :: "(nat \<Rightarrow> byte list list) \<Rightarrow> shared \<Rightarrow> bool" where
  "log_inv msgs s \<longleftrightarrow> sfile s = concat (map snd (slog s)) @ half_stamp s \<and>
     (\<forall>t. written_by t (slog s) @ pending (phase_of s t) @ todo s t = msgs t)"

text \<open>Every finished answer is the file as it was after some number of messages.\<close>

definition snapshots :: "(nat option \<times> byte list) list \<Rightarrow> nat list \<Rightarrow> byte list" where
  "snapshots log ks = concat (map (\<lambda>k. concat (map snd (take k log))) ks)"

definition so_far :: "phase \<Rightarrow> byte list \<Rightarrow> byte list" where
  "so_far p f = (case p of Reading off \<Rightarrow> take off f | _ \<Rightarrow> [])"

definition answer_inv :: "shared \<Rightarrow> bool" where
  "answer_inv s \<longleftrightarrow> (\<forall>t. (\<forall>k \<in> set (answers s t). k \<le> length (slog s)) \<and>
     sent_to s t = snapshots (slog s) (answers s t) @ so_far (phase_of s t) (sfile s) \<and>
     (\<forall>off. phase_of s t = Reading off \<longrightarrow> off \<le> length (sfile s)))"

lemma critical_simps [simp]:
  "critical (Writing m)" "critical Written" "critical (Reading n)" "\<not> critical Idle" "\<not> critical Answering"
  by (simp_all add: critical_def)

lemma stamping_simps [simp]:
  "\<not> stamping NoAlarm" "\<not> stamping WantLock" "stamping Stamping" "stamping (Stamped m)" "stamping StampDone"
  by (simp_all add: stamping_def)

lemma pending_simps [simp]:
  "pending (Writing m) = [m]" "pending Written = []" "pending (Reading n) = []" "pending Idle = []"
  "pending Answering = []"
  by (simp_all add: pending_def)

lemma so_far_simps [simp]:
  "so_far (Writing m) f = []" "so_far Written f = []" "so_far (Reading n) f = take n f"
  "so_far Idle f = []" "so_far Answering f = []"
  by (simp_all add: so_far_def)

lemma so_far_not_reading: "(\<And>off. p \<noteq> Reading off) \<Longrightarrow> so_far p f = []"
  by (cases p) auto

lemma written_by_simps [simp]:
  "written_by t [] = []"
  "written_by t (log @ [(u, m)]) = written_by t log @ (if u = Some t then [m] else [])"
  by (simp_all add: written_by_def)

lemma snapshots_append [simp]:
  "snapshots log [] = []" "snapshots log (ks @ ls) = snapshots log ks @ snapshots log ls"
  "snapshots log [k] = concat (map snd (take k log))"
  by (simp_all add: snapshots_def)

lemma snapshots_extend:
  "\<forall>k \<in> set ks. k \<le> length log \<Longrightarrow> snapshots (log @ ms) ks = snapshots log ks"
  by (auto simp: snapshots_def intro!: arg_cong [where f = concat] map_cong)

lemma excl_owner:
  "excl_inv s \<Longrightarrow> critical (phase_of s t) \<Longrightarrow> owner s = Some t"
  "excl_inv s \<Longrightarrow> stamping (alarm_of s t) \<Longrightarrow> owner s = Some t"
  by (simp_all add: excl_inv_def)

lemma excl_alone:
  "excl_inv s \<Longrightarrow> critical (phase_of s t) \<or> stamping (alarm_of s t) \<Longrightarrow>
   critical (phase_of s u) \<or> stamping (alarm_of s u) \<Longrightarrow> u = t"
  by (metis excl_inv_def option.inject)

lemma excl_step:
  assumes "server_step s s'" and "excl_inv s"
  shows "excl_inv s'"
proof -
  have own: "\<And>u. owner s = Some u \<longleftrightarrow> critical (phase_of s u) \<or> stamping (alarm_of s u)"
    and one: "\<And>u. \<not> (critical (phase_of s u) \<and> stamping (alarm_of s u))"
    using assms(2) by (simp_all add: excl_inv_def)
  have free: "owner s = None \<longleftrightarrow> (\<forall>u. \<not> critical (phase_of s u) \<and> \<not> stamping (alarm_of s u))"
    using own by (cases "owner s") auto
  have others: "\<lbrakk>critical (phase_of s t) \<or> stamping (alarm_of s t); u \<noteq> t\<rbrakk> \<Longrightarrow>
      \<not> critical (phase_of s u) \<and> \<not> stamping (alarm_of s u)" for t u
    using own [of t] own [of u] by auto
  show ?thesis
    using assms(1)
    by (rule server_stepE; auto simp: excl_inv_def own one free;
        metis critical_simps(1-3) stamping_simps(3-5) one others)
qed

lemma half_stamp_cases:
  "owner s = None \<Longrightarrow> half_stamp s = []"
  "owner s = Some t \<Longrightarrow> half_stamp s = (case alarm_of s t of Stamped stamp \<Rightarrow> stamp | _ \<Rightarrow> [])"
  by (simp_all add: half_stamp_def)

lemma half_stamp_critical:
  assumes "excl_inv s" and "critical (phase_of s t)" and "alarm_of s t = NoAlarm"
  shows "half_stamp s = []"
  using excl_owner(1) [OF assms(1,2)] assms(3) by (simp add: half_stamp_def)

lemma log_step:
  assumes "server_step s s'" and "excl_inv s" and "log_inv msgs s"
  shows "log_inv msgs s'"
proof -
  note own = excl_owner [OF assms(2)]
  have f: "sfile s = concat (map snd (slog s)) @ half_stamp s"
    and ms: "\<And>t. msgs t = written_by t (slog s) @ pending (phase_of s t) @ todo s t"
    using assms(3) by (simp_all add: log_inv_def)
  show ?thesis
    using assms(1)
  proof (rule server_stepE)
    fix t m
    assume a: "alarm_of s t = NoAlarm" and w: "phase_of s t = Writing m"
      and s': "s' = s\<lparr>sfile := sfile s @ m, slog := slog s @ [(Some t, m)], phase_of := (phase_of s)(t := Written)\<rparr>"
    have "owner s = Some t" using own(1) [of t] w by simp
    then show ?thesis using a w f ms by (auto simp: s' log_inv_def half_stamp_def)
  next
    fix t
    assume "s' = s\<lparr>alarm_of := (alarm_of s)(t := WantLock)\<rparr>" "alarm_of s t = NoAlarm"
    then show ?thesis
      using f ms by (auto simp: log_inv_def half_stamp_def split: option.splits)
  next
    fix t stamp
    assume w: "alarm_of s t = Stamping"
      and s': "s' = s\<lparr>sfile := sfile s @ stamp, alarm_of := (alarm_of s)(t := Stamped stamp)\<rparr>"
    have "owner s = Some t" using own(2) [of t] w by simp
    then show ?thesis using w f ms by (auto simp: s' log_inv_def half_stamp_def)
  next
    fix t stamp
    assume w: "alarm_of s t = Stamped stamp"
      and s': "s' = s\<lparr>sfile := sfile s @ [newline], slog := slog s @ [(None, stamp @ [newline])],
        alarm_of := (alarm_of s)(t := StampDone)\<rparr>"
    have "owner s = Some t" using own(2) [of t] w by simp
    then show ?thesis using w f ms by (auto simp: s' log_inv_def half_stamp_def)
  next
    fix t
    assume w: "alarm_of s t = StampDone"
      and s': "s' = s\<lparr>owner := None, alarm_of := (alarm_of s)(t := NoAlarm)\<rparr>"
    have "owner s = Some t" using own(2) [of t] w by simp
    then show ?thesis using w f ms by (auto simp: s' log_inv_def half_stamp_def)
  next
    fix t
    assume a: "alarm_of s t = NoAlarm" and w: "phase_of s t = Written"
      and s': "s' = s\<lparr>owner := None, phase_of := (phase_of s)(t := Answering)\<rparr>"
    show ?thesis
      using half_stamp_critical [OF assms(2) _ a] w f ms by (auto simp: s' log_inv_def half_stamp_cases)
  next
    fix t off n
    assume r: "phase_of s t = Reading off" and a: "alarm_of s t = NoAlarm"
      and s': "s' = s\<lparr>sent_to := (sent_to s)(t := sent_to s t @ take n (drop off (sfile s))),
        phase_of := (phase_of s)(t := Reading (off + n))\<rparr>"
    have "half_stamp s' = half_stamp s" by (simp add: s' half_stamp_def cong: option.case_cong alarm.case_cong)
    then show ?thesis using r f ms by (auto simp: s' log_inv_def)
  next
    fix t off
    assume a: "alarm_of s t = NoAlarm" and r: "phase_of s t = Reading off"
      and s': "s' = s\<lparr>owner := None, phase_of := (phase_of s)(t := Idle),
        answers := (answers s)(t := answers s t @ [length (slog s)])\<rparr>"
    show ?thesis
      using half_stamp_critical [OF assms(2) _ a] r f ms by (auto simp: s' log_inv_def half_stamp_cases)
  qed (use f ms in \<open>auto simp: log_inv_def half_stamp_def\<close>)
qed

lemma not_reading:
  assumes "excl_inv s" and "(\<exists>m. phase_of s t = Writing m) \<or> stamping (alarm_of s t)"
  shows "phase_of s u \<noteq> Reading off"
proof
  assume r: "phase_of s u = Reading off"
  then have "u = t" using excl_alone [OF assms(1), of t u] assms(2) by auto
  then show False using assms r by (auto simp: excl_inv_def)
qed

lemma answer_step:
  assumes "server_step s s'" and "excl_inv s" and "log_inv msgs s" and "answer_inv s"
  shows "answer_inv s'"
proof -
  have f: "sfile s = concat (map snd (slog s)) @ half_stamp s" using assms(3) by (simp add: log_inv_def)
  have le: "\<And>t. \<forall>k \<in> set (answers s t). k \<le> length (slog s)"
    and sent: "\<And>t. sent_to s t = snapshots (slog s) (answers s t) @ so_far (phase_of s t) (sfile s)"
    and within: "\<And>t off. phase_of s t = Reading off \<Longrightarrow> off \<le> length (sfile s)"
    using assms(4) by (simp_all add: answer_inv_def)
  show ?thesis
    using assms(1)
  proof (rule server_stepE)
    fix t m
    assume w: "phase_of s t = Writing m"
      and s': "s' = s\<lparr>sfile := sfile s @ m, slog := slog s @ [(Some t, m)], phase_of := (phase_of s)(t := Written)\<rparr>"
    have "phase_of s u \<noteq> Reading off" for u off using not_reading [OF assms(2), of t u off] w by blast
    then show ?thesis
      using le sent by (auto simp: s' answer_inv_def snapshots_extend le_SucI so_far_not_reading)
  next
    fix t off n
    assume r: "phase_of s t = Reading off" and n: "off + n \<le> length (sfile s)"
      and s': "s' = s\<lparr>sent_to := (sent_to s)(t := sent_to s t @ take n (drop off (sfile s))),
        phase_of := (phase_of s)(t := Reading (off + n))\<rparr>"
    have "take off (sfile s) @ take n (drop off (sfile s)) = take (off + n) (sfile s)"
      by (simp add: take_add)
    then show ?thesis
      using n le sent within r by (auto simp: s' answer_inv_def)
  next
    fix t off
    assume a: "alarm_of s t = NoAlarm" and r: "phase_of s t = Reading off" and off: "length (sfile s) \<le> off"
      and s': "s' = s\<lparr>owner := None, phase_of := (phase_of s)(t := Idle),
        answers := (answers s)(t := answers s t @ [length (slog s)])\<rparr>"
    have "sent_to s t = snapshots (slog s) (answers s t) @ concat (map snd (slog s))"
      using sent [of t] r off f half_stamp_critical [OF assms(2) _ a] r by simp
    then show ?thesis
      using le sent within by (auto simp: s' answer_inv_def)
  next
    fix t stamp
    assume w: "alarm_of s t = Stamping"
      and s': "s' = s\<lparr>sfile := sfile s @ stamp, alarm_of := (alarm_of s)(t := Stamped stamp)\<rparr>"
    have "phase_of s u \<noteq> Reading off" for u off using not_reading [OF assms(2), of t u off] w by simp
    then show ?thesis
      using le sent by (auto simp: s' answer_inv_def so_far_not_reading)
  next
    fix t stamp
    assume w: "alarm_of s t = Stamped stamp"
      and s': "s' = s\<lparr>sfile := sfile s @ [newline], slog := slog s @ [(None, stamp @ [newline])],
        alarm_of := (alarm_of s)(t := StampDone)\<rparr>"
    have "phase_of s u \<noteq> Reading off" for u off using not_reading [OF assms(2), of t u off] w by simp
    then show ?thesis
      using le sent by (auto simp: s' answer_inv_def snapshots_extend le_SucI so_far_not_reading)
  qed (use le sent within in \<open>auto simp: answer_inv_def\<close>)
qed

text \<open>
  A thread answers each of its messages once, and the answer to its message number \<open>j\<close> is a
  snapshot that holds exactly its messages up to \<open>j\<close>.
\<close>

definition answering :: "phase \<Rightarrow> bool" where
  "answering p = (case p of Written \<Rightarrow> True | Answering \<Rightarrow> True | Reading n \<Rightarrow> True | _ \<Rightarrow> False)"

lemma answering_simps [simp]:
  "answering Written" "answering Answering" "answering (Reading n)" "\<not> answering Idle"
  "\<not> answering (Writing m)"
  by (simp_all add: answering_def)

definition own_inv :: "shared \<Rightarrow> bool" where
  "own_inv s \<longleftrightarrow> (\<forall>t. length (written_by t (slog s)) =
       length (answers s t) + (if answering (phase_of s t) then 1 else 0) \<and>
     (\<forall>j < length (answers s t). length (written_by t (take (answers s t ! j) (slog s))) = Suc j))"

lemma own_step:
  assumes "server_step s s'" and "answer_inv s" and "own_inv s"
  shows "own_inv s'"
proof -
  have le: "\<And>t j. j < length (answers s t) \<Longrightarrow> answers s t ! j \<le> length (slog s)"
    using assms(2) by (metis answer_inv_def nth_mem)
  have num: "\<And>t. length (written_by t (slog s)) =
      length (answers s t) + (if answering (phase_of s t) then 1 else 0)"
    and snap: "\<And>t j. j < length (answers s t) \<Longrightarrow>
      length (written_by t (take (answers s t ! j) (slog s))) = Suc j"
    using assms(3) by (simp_all add: own_inv_def)
  show ?thesis
    using assms(1) by (rule server_stepE; auto simp: own_inv_def num snap le nth_append less_Suc_eq)
qed

lemma server_invariants:
  "server_steps (server_start msgs) s \<Longrightarrow> excl_inv s \<and> log_inv msgs s \<and> answer_inv s \<and> own_inv s"
proof (induction rule: server_steps.induct)
  case refl
  show ?case
    by (simp add: server_start_def excl_inv_def log_inv_def answer_inv_def own_inv_def half_stamp_def)
next
  case (step s s')
  then show ?case using excl_step log_step answer_step own_step by blast
qed

section \<open>A thread that runs alone\<close>

text \<open>
  The steps of one thread, without others in between, have the effect of the two functions that
  they stand for.
\<close>

lemma server_steps_trans: "server_steps s t \<Longrightarrow> server_steps r s \<Longrightarrow> server_steps r t"
  by (induction rule: server_steps.induct) (auto intro: server_steps.step)

lemma server_steps_first: "server_step s t \<Longrightarrow> server_steps t u \<Longrightarrow> server_steps s u"
  using server_steps_trans server_steps.step [OF server_steps.refl] by blast

text \<open>What a step of \<open>t\<close> leaves to the other threads.\<close>

definition others_kept :: "nat \<Rightarrow> shared \<Rightarrow> shared \<Rightarrow> bool" where
  "others_kept t s s' \<longleftrightarrow> alarm_of s' = alarm_of s \<and>
     (\<forall>u. u \<noteq> t \<longrightarrow> phase_of s' u = phase_of s u \<and> todo s' u = todo s u \<and> sent_to s' u = sent_to s u \<and>
       answers s' u = answers s u)"

lemma read_alone:
  assumes "alarm_of s t = NoAlarm" and "phase_of s t = Reading off" and "off \<le> length (sfile s)"
    and "owner s = Some t"
  shows "\<exists>s'. server_steps s s' \<and> phase_of s' t = Idle \<and> owner s' = None \<and> sfile s' = sfile s \<and>
    slog s' = slog s \<and> todo s' t = todo s t \<and> sent_to s' t = sent_to s t @ drop off (sfile s) \<and>
    others_kept t s s'"
  using assms
proof (induction "length (sfile s) - off" arbitrary: s off rule: less_induct)
  case less
  show ?case
  proof (cases "off = length (sfile s)")
    case True
    let ?s = "s\<lparr>owner := None, phase_of := (phase_of s)(t := Idle),
      answers := (answers s)(t := answers s t @ [length (slog s)])\<rparr>"
    have "server_step s ?s" using unlock_read [OF less.prems(1,2)] True by simp
    then have "server_steps s ?s" by (rule server_steps.step [OF server_steps.refl])
    then show ?thesis using True by (intro exI [of _ ?s]) (simp add: others_kept_def)
  next
    case False
    define n where "n = min 100 (length (sfile s) - off)"
    have n: "0 < n" "n \<le> 100" "off + n \<le> length (sfile s)" using False less.prems(3) by (auto simp: n_def)
    let ?s = "s\<lparr>sent_to := (sent_to s)(t := sent_to s t @ take n (drop off (sfile s))),
      phase_of := (phase_of s)(t := Reading (off + n))\<rparr>"
    have st: "server_step s ?s" using less.prems(1,2) n by (rule read_send)
    have "length (sfile ?s) - (off + n) < length (sfile s) - off" using n by simp
    then obtain s' where s': "server_steps ?s s'" "phase_of s' t = Idle" "owner s' = None"
      "sfile s' = sfile ?s" "slog s' = slog ?s" "todo s' t = todo ?s t"
      "sent_to s' t = sent_to ?s t @ drop (off + n) (sfile ?s)" "others_kept t ?s s'"
      using less.hyps [of ?s "off + n"] less.prems n by auto
    have "take n (drop off (sfile s)) @ drop (off + n) (sfile s) = drop off (sfile s)"
      by (metis add.commute append_take_drop_id drop_drop)
    then have "sent_to s' t = sent_to s t @ drop off (sfile s)" using s'(7) by simp
    moreover have "others_kept t s s'" using s'(8) by (auto simp: others_kept_def)
    ultimately show ?thesis
      using server_steps_first [OF st s'(1)] s' by (intro exI [of _ s']) simp
  qed
qed

lemma message_alone:
  assumes "alarm_of s t = NoAlarm" and "phase_of s t = Idle" and "todo s t = m # ms" and "owner s = None"
  shows "\<exists>s'. server_steps s s' \<and> phase_of s' t = Idle \<and> owner s' = None \<and> todo s' t = ms \<and>
    sfile s' = sfile s @ m \<and> sent_to s' t = sent_to s t @ sfile s @ m \<and> others_kept t s s'"
proof -
  define s1 where "s1 = s\<lparr>owner := Some t, phase_of := (phase_of s)(t := Writing m), todo := (todo s)(t := ms)\<rparr>"
  define s2 where "s2 = s1\<lparr>sfile := sfile s1 @ m, slog := slog s1 @ [(Some t, m)],
    phase_of := (phase_of s1)(t := Written)\<rparr>"
  define s3 where "s3 = s2\<lparr>owner := None, phase_of := (phase_of s2)(t := Answering)\<rparr>"
  define s4 where "s4 = s3\<lparr>owner := Some t, phase_of := (phase_of s3)(t := Reading 0)\<rparr>"
  have "server_step s s1" unfolding s1_def using assms(1-4) by (rule lock_write)
  moreover have "server_step s1 s2" unfolding s2_def by (rule write_message) (simp_all add: s1_def assms(1))
  moreover have "server_step s2 s3"
    unfolding s3_def by (rule unlock_write) (simp_all add: s1_def s2_def assms(1))
  moreover have "server_step s3 s4"
    unfolding s4_def by (rule lock_read) (simp_all add: s1_def s2_def s3_def assms(1))
  ultimately have r: "server_steps s s4" by (meson server_steps.refl server_steps_first)
  have s4: "alarm_of s4 t = NoAlarm" "phase_of s4 t = Reading 0" "owner s4 = Some t"
    "sfile s4 = sfile s @ m" "sent_to s4 t = sent_to s t" "todo s4 t = ms" "others_kept t s s4"
    by (simp_all add: s1_def s2_def s3_def s4_def assms(1) others_kept_def)
  obtain s' where s': "server_steps s4 s'" "phase_of s' t = Idle" "owner s' = None" "sfile s' = sfile s4"
    "todo s' t = todo s4 t" "sent_to s' t = sent_to s4 t @ drop 0 (sfile s4)" "others_kept t s4 s'"
    using read_alone [of s4 t 0] s4 by auto
  have "others_kept t s s'" using s4(7) s'(7) by (auto simp: others_kept_def)
  moreover have "server_steps s s'" using server_steps_trans [OF s'(1) r] .
  ultimately show ?thesis using s' s4 by auto
qed

text \<open>A thread inside a critical section can leave it.\<close>

lemma release_alone:
  assumes "excl_inv s" and "alarm_of s u = NoAlarm" and "critical (phase_of s u)"
    and "\<And>off. phase_of s u = Reading off \<Longrightarrow> off \<le> length (sfile s)"
  shows "\<exists>s'. server_steps s s' \<and> owner s' = None \<and> todo s' u = todo s u \<and> others_kept u s s'"
proof -
  have written: "\<exists>s'. server_steps s s' \<and> owner s' = None \<and> todo s' u = todo s u \<and> others_kept u s s'"
    if "alarm_of s u = NoAlarm" "phase_of s u = Written" for s
    using server_steps.step [OF server_steps.refl unlock_write [OF that]]
    by (intro exI [of _ "s\<lparr>owner := None, phase_of := (phase_of s)(u := Answering)\<rparr>"]) (simp add: others_kept_def)
  have own: "owner s = Some u" using assms(1,3) by (rule excl_owner)
  show ?thesis
  proof (cases "phase_of s u")
    case (Writing m)
    let ?s = "s\<lparr>sfile := sfile s @ m, slog := slog s @ [(Some u, m)], phase_of := (phase_of s)(u := Written)\<rparr>"
    have st: "server_step s ?s" using assms(2) Writing by (rule write_message)
    obtain s' where "server_steps ?s s'" "owner s' = None" "todo s' u = todo ?s u" "others_kept u ?s s'"
      using written [of ?s] assms(2) by auto
    then show ?thesis
      using server_steps_first [OF st] by (intro exI [of _ s']) (auto simp: others_kept_def)
  next
    case (Reading off)
    then show ?thesis using read_alone [OF assms(2) Reading _ own] assms(4) by blast
  qed (use assms(2,3) written in auto)
qed

lemma can_become_idle:
  assumes "excl_inv s" and "answer_inv s" and "\<forall>u. alarm_of s u = NoAlarm"
  shows "\<exists>s'. server_steps s s' \<and> owner s' = None \<and> phase_of s' t = Idle \<and> todo s' t = todo s t \<and>
    (\<forall>u. alarm_of s' u = NoAlarm)"
proof -
  have "\<exists>s'. server_steps s s' \<and> owner s' = None \<and> todo s' t = todo s t \<and> (\<forall>u. alarm_of s' u = NoAlarm)"
  proof (cases "owner s")
    case None
    then show ?thesis using assms(3) server_steps.refl by blast
  next
    case (Some u)
    then have "critical (phase_of s u)" using assms(1,3) by (auto simp: excl_inv_def)
    then obtain s' where "server_steps s s'" "owner s' = None" "todo s' u = todo s u" "others_kept u s s'"
      using release_alone [OF assms(1), of u] assms(2,3) unfolding answer_inv_def by blast
    then show ?thesis
      using assms(3) by (intro exI [of _ s']) (cases "t = u"; auto simp: others_kept_def)
  qed
  then obtain s1 where s1: "server_steps s s1" "owner s1 = None" "todo s1 t = todo s t"
    "\<forall>u. alarm_of s1 u = NoAlarm" by blast
  have "excl_inv s1" using s1(1) assms(1) by (induction rule: server_steps.induct) (auto intro: excl_step)
  then have "\<not> critical (phase_of s1 t)" using s1(2) by (auto dest: excl_owner(1))
  then consider "phase_of s1 t = Idle" | "phase_of s1 t = Answering" by (cases "phase_of s1 t") auto
  then show ?thesis
  proof cases
    case 1
    then show ?thesis using s1 by blast
  next
    case 2
    let ?s = "s1\<lparr>owner := Some t, phase_of := (phase_of s1)(t := Reading 0)\<rparr>"
    have st: "server_step s1 ?s" using s1(4) 2 s1(2) by (intro lock_read) simp_all
    obtain s2 where "server_steps ?s s2" "phase_of s2 t = Idle" "owner s2 = None" "todo s2 t = todo ?s t"
      "others_kept t ?s s2"
      using read_alone [of ?s t 0] s1(4) by auto
    then show ?thesis
      using server_steps_trans [OF server_steps_first [OF st] s1(1)] s1(3,4)
      by (intro exI [of _ s2]) (auto simp: others_kept_def)
  qed
qed

lemma can_finish:
  assumes "owner s = None" and "phase_of s t = Idle" and "\<forall>u. alarm_of s u = NoAlarm"
  shows "\<exists>s'. server_steps s s' \<and> phase_of s' t = Idle \<and> todo s' t = []"
  using assms
proof (induction "todo s t" arbitrary: s)
  case Nil
  then show ?case using server_steps.refl by metis
next
  case (Cons m ms)
  obtain s1 where s1: "server_steps s s1" "phase_of s1 t = Idle" "owner s1 = None" "todo s1 t = ms"
    "others_kept t s s1"
    using message_alone [of s t m ms] Cons.hyps(2) Cons.prems by auto
  then have "\<forall>u. alarm_of s1 u = NoAlarm" using Cons.prems(3) by (simp add: others_kept_def)
  then show ?case using Cons.hyps(1) [of s1] s1 server_steps_trans by metis
qed

section \<open>The steps and the calls\<close>

text \<open>
  C24: The steps are those of the code: a connection thread that runs without others in between
  can do for its next message what \<open>dump_buffer_to_file\<close> and \<open>dump_file_to_socket\<close> do one after
  the other on the same file and socket, and it leaves the other threads as they were.
\<close>

theorem steps_refine_calls:
  assumes "alarm_of s t = NoAlarm" and "phase_of s t = Idle" and "todo s t = m # ms"
    and "owner s = None" and "\<not> use_dev g" and "\<not> file_mutex g"
    and "fdata w = sfile s" and "fsent w = sent_to s t"
  shows "\<exists>s' w1 w2. dump_buffer_to_file file_posix (int (length m)) m (g, w) = Inr (g, w1) \<and>
    dump_file_to_socket file_posix fd (g, w1) = Inr (g\<lparr>is_working := False\<rparr>, w2) \<and>
    server_steps s s' \<and> sfile s' = fdata w2 \<and> sent_to s' t = fsent w2 \<and>
    phase_of s' t = Idle \<and> owner s' = None \<and> todo s' t = ms \<and> others_kept t s s'"
proof -
  have calls: "dump_buffer_to_file file_posix (int (length m)) m (g, w) =
      Inr (g, w\<lparr>fposn := 0, fdata := fdata w @ m\<rparr>)"
    using assms(5,6) by (cases g) (simp add: dump_buffer_to_file_def lock_file_def unlock_file_def file_posix_def)
  obtain w2 where w2: "dump_file_to_socket file_posix fd (g, w\<lparr>fposn := 0, fdata := fdata w @ m\<rparr>) =
      Inr (g\<lparr>is_working := False\<rparr>, w2)" "fdata w2 = fdata w @ m" "fsent w2 = fsent w @ fdata w @ m"
    using regular.dump_file_sends [where w = "w\<lparr>fposn := 0, fdata := fdata w @ m\<rparr>" and g = g and sock = fd]
      assms(6) by auto
  show ?thesis using message_alone [OF assms(1-4)] calls w2 assms(7,8) by fastforce
qed

theorem steps_refine_calls_witness:
  "\<exists>s' w1 w2. dump_file_to_socket file_posix 4 (\<lparr>use_dev = False, close_socket_when_receive_delim = False,
      should_quit = False, is_working = True, file_mutex = False, linked_list_mutex = False\<rparr>, w1) =
      Inr (\<lparr>use_dev = False, close_socket_when_receive_delim = False, should_quit = False,
        is_working = False, file_mutex = False, linked_list_mutex = False\<rparr>, w2) \<and>
    server_steps (server_start (\<lambda>t. [[97, newline]])) s' \<and> sfile s' = fdata w2 \<and> todo s' 1 = []"
  using steps_refine_calls [of "server_start (\<lambda>t. [[97, newline]])" 1 "[97, newline]" "[]"
      "\<lparr>use_dev = False, close_socket_when_receive_delim = False, should_quit = False,
        is_working = True, file_mutex = False, linked_list_mutex = False\<rparr>"
      "\<lparr>fdata = [], fposn = 0, fsent = [], finbox = []\<rparr>" 4]
  by (auto simp: server_start_def)

section \<open>A signal inside a critical section\<close>

text \<open>The thread \<open>t\<close> holds the mutex and its handler waits for it.\<close>

definition stuck :: "nat \<Rightarrow> shared \<Rightarrow> shared \<Rightarrow> bool" where
  "stuck t s0 s \<longleftrightarrow> excl_inv s \<and> owner s = Some t \<and> critical (phase_of s t) \<and> alarm_of s t = WantLock \<and>
     sfile s = sfile s0 \<and> slog s = slog s0 \<and> sent_to s = sent_to s0 \<and> answers s = answers s0"

lemma stuck_step:
  assumes "server_step s s'" and "stuck t s0 s"
  shows "stuck t s0 s'"
proof -
  have st: "owner s = Some t" "critical (phase_of s t)" "alarm_of s t = WantLock"
      "sfile s = sfile s0" "slog s = slog s0" "sent_to s = sent_to s0" "answers s = answers s0"
    using assms(2) by (simp_all add: stuck_def)
  have inv: "excl_inv s" using assms(2) by (simp add: stuck_def)
  have alone: "\<And>u. critical (phase_of s u) \<or> stamping (alarm_of s u) \<Longrightarrow> u = t"
    using excl_alone [OF inv, of t] st(2) by blast
  have own: "\<And>u m. phase_of s u = Writing m \<Longrightarrow> u = t" "\<And>u. phase_of s u = Written \<Longrightarrow> u = t"
    "\<And>u n. phase_of s u = Reading n \<Longrightarrow> u = t"
    using alone by (metis critical_simps(1-3))+
  have "\<not> stamping (alarm_of s u)" for u
    using alone [of u] st(3) by (cases "u = t") auto
  then have no_stamp: "\<And>u. alarm_of s u \<noteq> Stamping" "\<And>u m. alarm_of s u \<noteq> Stamped m"
    "\<And>u. alarm_of s u \<noteq> StampDone"
    by (metis stamping_simps(3-5))+
  have excl: "excl_inv s'" using assms(1) inv by (rule excl_step)
  from assms(1) show ?thesis
    by (rule server_stepE; use excl in \<open>auto simp: stuck_def st no_stamp dest!: own\<close>)
qed

section \<open>Properties of the shared file\<close>

text \<open>
  C11: Whatever the interleaving of the connections and the timer, the file is the concatenation
  of whole messages and time stamps (and at most one stamp that is being written), the messages of one connection are
  in the order in which it received them, at most one thread is inside a critical section,
  and what a connection was sent is one snapshot of the file for each answered message, the
  answer to message \<open>j\<close> holding exactly its own messages up to \<open>j\<close>.
\<close>

theorem messages_not_interleaved:
  assumes "server_steps (server_start msgs) s"
  shows "(\<exists>rest. sfile s = concat (map snd (slog s)) @ rest \<and> (owner s = None \<longrightarrow> rest = [])) \<and>
    (\<forall>t. prefix (written_by t (slog s)) (msgs t)) \<and>
    (\<forall>t u. critical (phase_of s t) \<and> critical (phase_of s u) \<longrightarrow> t = u) \<and>
    (\<forall>t. phase_of s t = Idle \<longrightarrow> sent_to s t = snapshots (slog s) (answers s t) \<and>
       map (\<lambda>k. length (written_by t (take k (slog s)))) (answers s t) = [1..<Suc (length (written_by t (slog s)))])"
proof -
  have inv: "excl_inv s" "log_inv msgs s" "answer_inv s" "own_inv s"
    using server_invariants [OF assms] by simp_all
  have "\<exists>rest. sfile s = concat (map snd (slog s)) @ rest \<and> (owner s = None \<longrightarrow> rest = [])"
    using inv(2) by (auto simp: log_inv_def half_stamp_cases)
  moreover have "prefix (written_by t (slog s)) (msgs t)" for t
    using inv(2) by (metis log_inv_def prefixI)
  moreover have "critical (phase_of s t) \<and> critical (phase_of s u) \<longrightarrow> t = u" for t u
    using excl_alone [OF inv(1)] by blast
  moreover have "sent_to s t = snapshots (slog s) (answers s t)" if "phase_of s t = Idle" for t
    using inv(3) that by (simp add: answer_inv_def)
  moreover have "map (\<lambda>k. length (written_by t (take k (slog s)))) (answers s t) =
      [1..<Suc (length (written_by t (slog s)))]" if "phase_of s t = Idle" for t
    using inv(4) that by (auto simp: own_inv_def intro!: nth_equalityI simp del: upt_Suc)
  ultimately show ?thesis by blast
qed

text \<open>
  A run: connection 1 receives one message, takes the mutex, stores the message, and answers it.
\<close>

definition one_message :: "nat \<Rightarrow> byte list list" where
  "one_message t = (if t = 1 then [[104, newline]] else [])"

definition holding_mutex :: shared where
  "holding_mutex = (server_start one_message)\<lparr>owner := Some 1,
     phase_of := (\<lambda>t. Idle)(1 := Writing [104, newline]), todo := one_message(1 := [])\<rparr>"

lemma holding_mutex_reachable: "server_steps (server_start one_message) holding_mutex"
proof -
  have "server_step (server_start one_message) holding_mutex"
    using lock_write [of "server_start one_message" 1 "[104, newline]" "[]"]
    by (simp add: holding_mutex_def server_start_def one_message_def)
  then show ?thesis using server_steps.step server_steps.refl by blast
qed

theorem messages_not_interleaved_witness:
  "\<exists>s. server_steps (server_start one_message) s \<and> owner s = None \<and> phase_of s 1 = Idle \<and>
     slog s = [(Some 1, [104, newline])] \<and> answers s 1 = [1] \<and>
     sfile s = [104, newline] \<and> sent_to s 1 = [104, newline] \<and>
     map (\<lambda>k. length (written_by 1 (take k (slog s)))) (answers s 1) = [1]"
proof -
  define s2 where "s2 = holding_mutex\<lparr>sfile := [104, newline], slog := [(Some 1, [104, newline])],
    phase_of := (\<lambda>t. Idle)(1 := Written)\<rparr>"
  define s3 where "s3 = s2\<lparr>owner := None, phase_of := (\<lambda>t. Idle)(1 := Answering)\<rparr>"
  define s4 where "s4 = s3\<lparr>owner := Some 1, phase_of := (\<lambda>t. Idle)(1 := Reading 0)\<rparr>"
  define s5 where "s5 = s4\<lparr>sent_to := (\<lambda>t. [])(1 := [104, newline]), phase_of := (\<lambda>t. Idle)(1 := Reading 2)\<rparr>"
  define s6 where "s6 = s5\<lparr>owner := None, phase_of := (\<lambda>t. Idle)(1 := Idle), answers := (\<lambda>t. [])(1 := [1])\<rparr>"
  note defs = holding_mutex_def server_start_def s2_def s3_def s4_def s5_def s6_def
  have "server_step holding_mutex s2"
    using write_message [of holding_mutex 1 "[104, newline]"] by (simp add: defs)
  moreover have "server_step s2 s3" using unlock_write [of s2 1] by (simp add: defs)
  moreover have "server_step s3 s4" using lock_read [of s3 1] by (simp add: defs)
  moreover have "server_step s4 s5" using read_send [of s4 1 0 2] by (simp add: defs numeral_2_eq_2)
  moreover have "server_step s5 s6" using unlock_read [of s5 1 2] by (simp add: defs)
  ultimately have r: "server_steps (server_start one_message) s6"
    using holding_mutex_reachable by (meson server_steps.step)
  have s6: "owner s6 = None" "phase_of s6 1 = Idle" "answers s6 1 = [1]" "slog s6 = [(Some 1, [104, newline])]" "sfile s6 = [104, newline]"
    by (simp_all add: defs)
  then have "sent_to s6 1 = snapshots (slog s6) (answers s6 1) \<and>
      map (\<lambda>k. length (written_by 1 (take k (slog s6)))) (answers s6 1) =
        [1..<Suc (length (written_by 1 (slog s6)))]"
    using messages_not_interleaved [OF r] by blast
  then have "sent_to s6 1 = [104, newline] \<and>
      map (\<lambda>k. length (written_by 1 (take k (slog s6)))) (answers s6 1) = [1]"
    unfolding s6 by (simp add: snapshots_def written_by_def)
  then show ?thesis using r s6 by (intro exI [of _ s6]) simp
qed

text \<open>
  C23: No schedule of the connections alone can block the server: from every state that can be
  reached and in which no signal is being handled, every connection can be served to its end,
  with all its messages in the file in order and one answer sent for each.
\<close>

theorem every_connection_can_finish:
  assumes "server_steps (server_start msgs) s" and "\<forall>u. alarm_of s u = NoAlarm"
  shows "\<exists>s'. server_steps s s' \<and> phase_of s' t = Idle \<and> written_by t (slog s') = msgs t \<and>
    length (answers s' t) = length (msgs t)"
proof -
  obtain s1 where s1: "server_steps s s1" "owner s1 = None" "phase_of s1 t = Idle"
    "\<forall>u. alarm_of s1 u = NoAlarm"
    using can_become_idle [of s t] server_invariants [OF assms(1)] assms(2) by blast
  then obtain s2 where s2: "server_steps s1 s2" "phase_of s2 t = Idle" "todo s2 t = []"
    using can_finish [of s1 t] by blast
  have r: "server_steps s s2" using server_steps_trans [OF s2(1) s1(1)] .
  have "log_inv msgs s2" "own_inv s2"
    using server_invariants [OF server_steps_trans [OF r assms(1)]] by simp_all
  then have "written_by t (slog s2) = msgs t" "length (answers s2 t) = length (msgs t)"
    using s2(2,3) by (auto simp: log_inv_def own_inv_def; metis append_Nil2 pending_simps(4) answering_simps(4) add_0_right)+
  then show ?thesis using r s2(2) by blast
qed

theorem every_connection_can_finish_witness:
  "\<exists>s' :: shared. server_steps holding_mutex s' \<and> written_by 1 (slog s') = [[104, newline]] \<and>
     length (answers s' 1) = 1"
  using every_connection_can_finish [OF holding_mutex_reachable, of 1]
  by (auto simp: holding_mutex_def server_start_def one_message_def)

text \<open>
  C28: The handler of the timer takes the mutex of the file. When the signal is delivered to the
  thread that holds it, that thread waits for itself: from then on nothing is written to the
  file and no connection is answered any more, whatever the threads do.
\<close>

theorem alarm_in_critical_section_deadlocks:
  assumes "server_steps (server_start msgs) s" and "critical (phase_of s t)"
    and "alarm_of s t = WantLock" and "server_steps s s'"
  shows "owner s' = Some t \<and> alarm_of s' t = WantLock \<and> sfile s' = sfile s \<and> sent_to s' = sent_to s"
proof -
  have "excl_inv s" using server_invariants [OF assms(1)] by simp
  then have "stuck t s s" using assms(2,3) excl_owner(1) by (simp add: stuck_def)
  with assms(4) have "stuck t s s'"
    by (induction rule: server_steps.induct) (auto intro: stuck_step)
  then show ?thesis by (simp add: stuck_def)
qed

theorem alarm_in_critical_section_deadlocks_witness:
  "\<exists>s s'. server_steps (server_start one_message) s \<and> critical (phase_of s 1) \<and> alarm_of s 1 = WantLock \<and>
     server_steps s s' \<and> alarm_of s 2 = NoAlarm \<and> alarm_of s' 2 = WantLock \<and>
     owner s' = Some 1 \<and> alarm_of s' 1 = WantLock \<and> sfile s' = [] \<and> sent_to s' = sent_to s"
proof -
  define s where "s = holding_mutex\<lparr>alarm_of := (\<lambda>t. NoAlarm)(1 := WantLock)\<rparr>"
  define s' where "s' = holding_mutex\<lparr>alarm_of := (\<lambda>t. NoAlarm)(1 := WantLock, 2 := WantLock)\<rparr>"
  have "server_step holding_mutex s"
    using deliver [of holding_mutex 1] by (simp add: s_def holding_mutex_def server_start_def)
  then have r: "server_steps (server_start one_message) s"
    using holding_mutex_reachable by (rule server_steps.step [rotated])
  have "server_step s s'"
    using deliver [of s 2] by (simp add: s_def s'_def holding_mutex_def server_start_def)
  then have t: "server_steps s s'" by (rule server_steps.step [OF server_steps.refl])
  have s: "critical (phase_of s 1)" "alarm_of s 1 = WantLock" "sfile s = []"
    "alarm_of s 2 = NoAlarm" "alarm_of s' 2 = WantLock"
    by (simp_all add: s_def s'_def holding_mutex_def server_start_def)
  then show ?thesis
    using alarm_in_critical_section_deadlocks [OF r s(1,2) t] r t by auto
qed

end
