(* ===== verification/Node_Handover.thy ===== *)
theory Node_Handover
  imports Aesd_Prelude
begin

text \<open>
  The hand-over of a new node from the main thread of \<open>server/aesdsocket.c\<close> (\<open>create_node\<close>) to
  the thread of its connection (the start of \<open>connection_worker\<close>), as a step relation.
\<close>

section \<open>The hand-over of a node\<close>

text \<open>
  \<open>create_node\<close> against the start of \<open>connection_worker\<close>: the thread is created before the
  address is copied to the node and before the node is in the list, and the new thread is the
  one that releases the list mutex. \<open>address\<close> is \<open>None\<close> while the field is what \<open>malloc\<close> left there.
\<close>

datatype creator = Enter | Prepared | Spawned | Copied | Linked

datatype starter = Unborn | Born | Named "byte list option" | Serving "byte list option"

record handover =
  address :: "byte list option"
  in_list :: bool
  mutex_held :: bool
  creator_at :: creator
  starter_at :: starter

definition handover_start :: handover where
  "handover_start = \<lparr>address = None, in_list = False, mutex_held = False, creator_at = Enter, starter_at = Unborn\<rparr>"

inductive handover_step :: "byte list \<Rightarrow> handover \<Rightarrow> handover \<Rightarrow> bool" for ip where
  lock_and_fill: "creator_at s = Enter \<Longrightarrow> \<not> mutex_held s \<Longrightarrow>
    handover_step ip s (s\<lparr>mutex_held := True, creator_at := Prepared\<rparr>)"
| spawn: "creator_at s = Prepared \<Longrightarrow> handover_step ip s (s\<lparr>creator_at := Spawned, starter_at := Born\<rparr>)"
| copy_address: "creator_at s = Spawned \<Longrightarrow> handover_step ip s (s\<lparr>address := Some ip, creator_at := Copied\<rparr>)"
| insert_node: "creator_at s = Copied \<Longrightarrow> handover_step ip s (s\<lparr>in_list := True, creator_at := Linked\<rparr>)"
| read_address: "starter_at s = Born \<Longrightarrow> handover_step ip s (s\<lparr>starter_at := Named (address s)\<rparr>)"
| release: "starter_at s = Named a \<Longrightarrow> mutex_held s \<Longrightarrow>
    handover_step ip s (s\<lparr>mutex_held := False, starter_at := Serving a\<rparr>)"

inductive handover_steps :: "byte list \<Rightarrow> handover \<Rightarrow> bool" for ip where
  handover_refl: "handover_steps ip handover_start"
| handover_more: "handover_steps ip s \<Longrightarrow> handover_step ip s s' \<Longrightarrow> handover_steps ip s'"

inductive_cases handover_stepE: "handover_step ip s s'"

text \<open>What holds in every state: the thread reads the address of its connection or an unwritten field.\<close>

definition handover_inv :: "byte list \<Rightarrow> handover \<Rightarrow> bool" where
  "handover_inv ip s \<longleftrightarrow>
     (address s = (if creator_at s \<in> {Copied, Linked} then Some ip else None)) \<and>
     (in_list s \<longleftrightarrow> creator_at s = Linked) \<and>
     (starter_at s = Unborn \<longleftrightarrow> creator_at s \<in> {Enter, Prepared}) \<and>
     (mutex_held s \<longleftrightarrow> creator_at s \<noteq> Enter \<and> (\<forall>a. starter_at s \<noteq> Serving a)) \<and>
     (\<forall>a. starter_at s = Named a \<or> starter_at s = Serving a \<longrightarrow> a = None \<or> a = Some ip)"

lemma handover_step_inv: "handover_step ip s s' \<Longrightarrow> handover_inv ip s \<Longrightarrow> handover_inv ip s'"
  by (erule handover_stepE) (auto simp: handover_inv_def split: if_splits)

lemma handover_invariant: "handover_steps ip s \<Longrightarrow> handover_inv ip s"
proof (induction rule: handover_steps.induct)
  case handover_refl
  show ?case by (simp add: handover_inv_def handover_start_def)
qed (rule handover_step_inv)

text \<open>
  The start of a connection thread is not ordered after the copy of the address. The
  address that a thread logs is that of its connection or the unwritten field, and both happen;
  and a thread can serve, with the list mutex free, a connection whose node is not yet in the
  list.
\<close>

theorem address_read_before_written:
  "{a. \<exists>s. handover_steps ip s \<and> starter_at s = Serving a} = {None, Some ip} \<and>
   (\<exists>s. handover_steps ip s \<and> starter_at s = Serving None \<and> \<not> mutex_held s \<and> \<not> in_list s)"
proof -
  let ?spawned = "handover_start\<lparr>mutex_held := True, creator_at := Spawned, starter_at := Born\<rparr>"
  let ?early = "?spawned\<lparr>mutex_held := False, starter_at := Serving None\<rparr>"
  let ?linked = "?spawned\<lparr>address := Some ip, in_list := True, creator_at := Linked\<rparr>"
  let ?late = "?linked\<lparr>mutex_held := False, starter_at := Serving (Some ip)\<rparr>"
  have spawned: "handover_steps ip ?spawned"
    using handover_more [OF handover_more [OF handover_refl [of ip] lock_and_fill] spawn]
    by (simp add: handover_start_def)
  have early: "handover_steps ip ?early"
    using handover_more [OF handover_more [OF spawned read_address] release, of None]
    by (simp add: handover_start_def)
  have linked: "handover_steps ip ?linked"
    using handover_more [OF handover_more [OF spawned copy_address] insert_node]
    by (simp add: handover_start_def)
  have late: "handover_steps ip ?late"
    using handover_more [OF handover_more [OF linked read_address] release, of "Some ip"]
    by (simp add: handover_start_def)
  have "a = None \<or> a = Some ip" if "handover_steps ip s" "starter_at s = Serving a" for s a
    using handover_invariant [OF that(1)] that(2) by (simp add: handover_inv_def)
  moreover have "starter_at ?early = Serving None \<and> \<not> mutex_held ?early \<and> \<not> in_list ?early"
    "starter_at ?late = Serving (Some ip)"
    by (simp_all add: handover_start_def)
  ultimately show ?thesis using early late by blast
qed

end
