(* ===== verification/Example_Programs.thy ===== *)
theory Example_Programs
  imports Aesd_Prelude
begin

text \<open>
  The small programs of the repository: the process functions of
  \<open>examples/systemcalls/systemcalls.c\<close>, the threads of \<open>examples/threading/threading.c\<close>, the
  writer of \<open>finder-app/writer.c\<close> and the constants of \<open>examples/autotest-validate\<close>.
\<close>

section \<open>System calls\<close>

type_synonym str = "byte list"

text \<open>
  What the system does for the functions: the result of \<open>system\<close>, whether a program can be executed
  and an output file opened, the wait status of a program when it ends (run with its arguments
  and with its standard output in a file or inherited), and whether \<open>wait\<close> fails, for example
  because a signal interrupts it.
\<close>

record os =
  os_system :: "str option \<Rightarrow> int"
  can_exec :: "str option \<Rightarrow> bool"
  can_open :: "str \<Rightarrow> bool"
  program :: "str option \<Rightarrow> str option list \<Rightarrow> str option \<Rightarrow> int"
  wait_fails :: bool

text \<open>
  The calling process: its name, and the wait statuses of its children that have ended and were
  not waited for, oldest first.
\<close>

record process =
  myname :: string
  ended :: "int list"

text \<open>How a call ends: it returns, the process exits, or \<open>execv\<close> replaces its program.\<close>

datatype call = Returned bool | Exited int | Replaced "str option" "str option list" "str option"

definition do_system :: "os \<Rightarrow> str option \<Rightarrow> bool" where
  "do_system W cmd = (let var = os_system W cmd in if var = 0 then True else False)"

text \<open>The loop that collects \<open>n\<close> arguments; an argument that was not passed is indeterminate.\<close>

primrec va_loop :: "nat \<Rightarrow> str option list \<Rightarrow> str option list \<Rightarrow> str option list res" where
  "va_loop 0 args command = Inr command"
| "va_loop (Suc n) args command =
     (case args of [] \<Rightarrow> Inl Uninitialised | a # args \<Rightarrow> va_loop n args (command @ [a]))"

definition collect_command :: "int \<Rightarrow> str option list \<Rightarrow> str option list res" where
  "collect_command count args =
     bindE (guardE OutOfBounds (0 \<le> count)) (\<lambda>_.
     bindE (va_loop (nat count) args []) (\<lambda>command. Inr (command @ [None])))"

definition exec_child :: "os \<Rightarrow> str option list \<Rightarrow> call" where
  "exec_child W command =
     (let command_to_run = hd command
      in if can_exec W command_to_run then Replaced command_to_run command None else Exited 1)"

definition redirect_child :: "os \<Rightarrow> str \<Rightarrow> str option list \<Rightarrow> call" where
  "redirect_child W outputfile command =
     (if \<not> can_open W outputfile then Exited 1
      else
        let command_to_run = hd command
        in if can_exec W command_to_run then Replaced command_to_run command (Some outputfile)
           else Exited 1)"

text \<open>The wait status of a child that ends in this way.\<close>

definition wait_status :: "os \<Rightarrow> call \<Rightarrow> int" where
  "wait_status W c = (case c of Exited n \<Rightarrow> (n mod 256) * 256 | Replaced path command out \<Rightarrow>
     program W path command out | Returned b \<Rightarrow> 0)"

text \<open>
  \<open>wait\<close> stores the status of the child that ended first, whichever it is; when it fails the
  variable keeps its value 0. The parent's branch of both functions.
\<close>

definition wait_child :: "os \<Rightarrow> int \<Rightarrow> process \<Rightarrow> int \<times> process" where
  "wait_child W st p =
     (let sts = ended p @ [st]
      in if wait_fails W then (0, p\<lparr>ended := sts\<rparr>) else (hd sts, p\<lparr>ended := tl sts\<rparr>))"

definition parent_branch :: "os \<Rightarrow> call \<Rightarrow> process \<Rightarrow> call \<times> process" where
  "parent_branch W child p =
     (let (status, p) = wait_child W (wait_status W child) p
      in (if status = 0 then Returned True else Returned False, p))"

definition do_exec :: "os \<Rightarrow> int \<Rightarrow> int \<Rightarrow> str option list \<Rightarrow> process \<Rightarrow> (call \<times> process) res" where
  "do_exec W fork_ret count args p =
     bindE (collect_command count args) (\<lambda>command.
     Inr (if fork_ret < 0 then (Returned False, p)
          else if fork_ret > 0 then parent_branch W (exec_child W command) p
          else (exec_child W command, p\<lparr>myname := ''child''\<rparr>)))"

definition do_exec_redirect ::
  "os \<Rightarrow> int \<Rightarrow> str \<Rightarrow> int \<Rightarrow> str option list \<Rightarrow> process \<Rightarrow> (call \<times> process) res" where
  "do_exec_redirect W fork_ret outputfile count args p =
     bindE (collect_command count args) (\<lambda>command.
     Inr (if fork_ret < 0 then (Returned False, p)
          else if fork_ret > 0 then parent_branch W (redirect_child W outputfile command) p
          else (redirect_child W outputfile command, p\<lparr>myname := ''child''\<rparr>)))"

section \<open>Threads\<close>

record thread_data =
  mymutex :: ptr
  sleep1 :: c_int
  sleep2 :: c_int
  thread_complete_success :: bool

datatype action = Usleep u32 | Lock ptr | Unlock ptr

definition times_1000 :: "c_int \<Rightarrow> c_int res" where
  "times_1000 ms = bindE (guardE IntOverflow (- (2 ^ 31) \<le> sint ms * 1000 \<and> sint ms * 1000 < 2 ^ 31))
     (\<lambda>_. Inr (ms * 1000))"

text \<open>\<open>threadfunc\<close> as what it does and the structure that it leaves.\<close>

definition threadfunc :: "thread_data \<Rightarrow> (action list \<times> thread_data) res" where
  "threadfunc d =
     (let d = d\<lparr>thread_complete_success := False\<rparr> in
      bindE (times_1000 (sleep1 d)) (\<lambda>sleep_first.
      bindE (times_1000 (sleep1 d)) (\<lambda>sleep_second.
      Inr ([Usleep sleep_first, Lock (mymutex d), Usleep sleep_second, Unlock (mymutex d)],
           d\<lparr>thread_complete_success := True\<rparr>))))"

text \<open>
  \<open>start_thread_obtaining_mutex\<close>: \<open>blk\<close> is what \<open>malloc\<close> returns, \<open>rc\<close> what \<open>pthread_create\<close>
  returns. The result is the pointer read as a truth value, the heap, and the threads that were
  created with the structures they got.
\<close>

definition start_thread_obtaining_mutex ::
  "ptr \<Rightarrow> int \<Rightarrow> ptr \<Rightarrow> c_int \<Rightarrow> c_int \<Rightarrow> (ptr \<Rightarrow> thread_data option) \<Rightarrow>
   (bool \<times> (ptr \<Rightarrow> thread_data option) \<times> ptr list) res" where
  "start_thread_obtaining_mutex blk rc mutex wait_to_obtain_ms wait_to_release_ms h =
     (let failed = \<lambda>h. (if blk = NULL then Inl BadPointer
        else case h blk of None \<Rightarrow> Inl BadPointer
        | Some d \<Rightarrow> Inr (blk \<noteq> NULL, h(blk \<mapsto> d\<lparr>thread_complete_success := False\<rparr>), []))
      in if blk \<noteq> NULL then
           let d = \<lparr>mymutex = mutex, sleep1 = wait_to_obtain_ms, sleep2 = wait_to_release_ms,
                    thread_complete_success = False\<rparr>;
               h = h(blk \<mapsto> d)
           in if rc = 0 then Inr (blk \<noteq> NULL, h(blk \<mapsto> d\<lparr>thread_complete_success := True\<rparr>), [blk])
              else failed h
         else failed h)"

section \<open>Writer\<close>

text \<open>
  The descriptor that \<open>open\<close> returns and the count that \<open>write\<close> returns, the files with the
  descriptors that are open.
\<close>

record writer_os =
  w_open :: "str \<Rightarrow> int"
  w_write :: "int \<Rightarrow> str \<Rightarrow> int"

record disk =
  content :: "str \<Rightarrow> str option"
  open_fds :: "int list"

definition write_string_to_file :: "writer_os \<Rightarrow> str \<Rightarrow> str \<Rightarrow> disk \<Rightarrow> int \<times> disk" where
  "write_string_to_file W writestring fname s =
     (let fd = w_open W fname in
      if fd = - 1 then (- 1, s)
      else
        let s = s\<lparr>content := (content s)(fname \<mapsto> []), open_fds := fd # open_fds s\<rparr>;
            bytes_written = w_write W fd writestring
        in if bytes_written < 0 then (- 1, s)
           else
             let s = s\<lparr>content := (content s)(fname \<mapsto> take (nat bytes_written) writestring)\<rparr>;
                 s = s\<lparr>open_fds := remove1 fd (open_fds s)\<rparr>
             in (0, s))"

definition writer_main :: "writer_os \<Rightarrow> str list \<Rightarrow> disk \<Rightarrow> int \<times> disk" where
  "writer_main W argv s =
     (if length argv \<noteq> 3 then (1, s)
      else let (success, s) = write_string_to_file W (argv ! 2) (argv ! 1) s
           in if success = 0 then (0, s) else (1, s))"

section \<open>Constants of the test program\<close>

definition this_function_returns_true :: bool where "this_function_returns_true = True"
definition this_function_returns_false :: bool where "this_function_returns_false = False"
definition my_username :: string where "my_username = ''chrisr710''"

text \<open>
  The program that prints them, and the unit test, as the message with which it fails; the string
  that \<open>malloc_username_from_conf_file\<close> of the test submodule returns is an argument.
\<close>

definition git_username :: string where "git_username = ''akshita-bhasin''"

definition truth_text :: "bool \<Rightarrow> string" where
  "truth_text b = (if b then ''true'' else ''false'')"

definition autotest_main :: string where
  "autotest_main = ''this_function_returns_true returned '' @ truth_text this_function_returns_true @ [CHR 0x0A] @
     ''this_function_returns_false returned '' @ truth_text this_function_returns_false @ [CHR 0x0A]"

definition test_validate_my_username :: "string \<Rightarrow> string option" where
  "test_validate_my_username hard_coded_uname =
     (if my_username = hard_coded_uname then None else Some ''Usernames do not match'')"

text \<open>The unit test accepts the name of \<open>conf/username.txt\<close>, but not that of the printing program.\<close>

lemma test_validate_names:
  "test_validate_my_username ''chrisr710'' = None"
  "test_validate_my_username git_username = Some ''Usernames do not match''"
  by (simp_all add: test_validate_my_username_def my_username_def git_username_def)

section \<open>Properties\<close>

lemma va_loop_append:
  "va_loop (length args) (args @ rest) command = Inr (command @ args)"
  by (induction args arbitrary: command) simp_all

lemma va_loop_short: "length args < n \<Longrightarrow> va_loop n args command = Inl Uninitialised"
proof (induction n arbitrary: args command)
  case (Suc n)
  then show ?case by (cases args) simp_all
qed simp

lemma collect_command_ok: "collect_command (int (length args)) args = Inr (args @ [None])"
  using va_loop_append [of args "[]" "[]"] by (simp add: collect_command_def)

text \<open>
  With no other child that has ended, \<open>do_exec\<close> and \<open>do_exec_redirect\<close> return true to the
  caller exactly when the program could be executed (and the output file opened) and it ended
  with wait status 0. The program gets all arguments in order and a final NULL.
\<close>

theorem do_exec_reports_command:
  assumes "0 < fork_ret" and "\<not> wait_fails W" and "ended p = []" and "args \<noteq> []"
  shows "do_exec W fork_ret (int (length args)) args p =
      Inr (Returned (can_exec W (hd args) \<and> program W (hd args) (args @ [None]) None = 0), p) \<and>
    do_exec_redirect W fork_ret outputfile (int (length args)) args p =
      Inr (Returned (can_open W outputfile \<and> can_exec W (hd args) \<and>
        program W (hd args) (args @ [None]) (Some outputfile) = 0), p)"
  using assms
  by (cases p) (simp add: do_exec_def do_exec_redirect_def collect_command_ok parent_branch_def wait_child_def
      wait_status_def exec_child_def redirect_child_def Let_def)

definition some_os :: os where
  "some_os = \<lparr>os_system = (\<lambda>c. 0), can_exec = (\<lambda>c. c = Some [47]), can_open = (\<lambda>f. True),
     program = (\<lambda>c args out. 256), wait_fails = False\<rparr>"

theorem do_exec_reports_command_witness:
  "do_exec some_os 12 2 [Some [47], Some [97]] \<lparr>myname = ''parent'', ended = []\<rparr> =
    Inr (Returned False, \<lparr>myname = ''parent'', ended = []\<rparr>)"
  using do_exec_reports_command [of 12 some_os "\<lparr>myname = ''parent'', ended = []\<rparr>"
      "[Some [47], Some [97]]" "[]"]
  by (simp add: some_os_def)

text \<open>
  C40: \<open>wait\<close> is called for any child and its result is not looked at. When another child of the
  caller has ended before, \<open>do_exec\<close> reports that child's status and leaves its own child behind;
  when \<open>wait\<close> fails it reports success. In both cases the answer does not depend on the command.
\<close>

theorem do_exec_answers_for_another_child:
  assumes "0 < fork_ret" and "wait_fails W \<or> ended p = st # sts"
  shows "\<exists>st'. do_exec W fork_ret (int (length args)) args p =
    Inr (Returned (wait_fails W \<or> st = 0),
      p\<lparr>ended := (if wait_fails W then ended p else sts) @ [st']\<rparr>)"
proof (cases "wait_fails W")
  case True
  then show ?thesis
    using assms(1) by (auto simp: do_exec_def collect_command_ok parent_branch_def wait_child_def Let_def)
next
  case False
  with assms show ?thesis
    by (auto simp: do_exec_def collect_command_ok parent_branch_def wait_child_def Let_def)
qed

theorem do_exec_answers_for_another_child_witness:
  "\<exists>st'. do_exec some_os 12 1 [Some [97]] \<lparr>myname = ''parent'', ended = [0]\<rparr> =
    Inr (Returned True, \<lparr>myname = ''parent'', ended = [st']\<rparr>)"
  using do_exec_answers_for_another_child [of 12 some_os "\<lparr>myname = ''parent'', ended = [0]\<rparr>" 0 "[]" "[Some [97]]"]
  by (simp add: some_os_def)

text \<open>
  \<open>start_thread_obtaining_mutex\<close> never returns false: when the thread cannot be created it
  returns the structure's address, which is true, and the structure stays allocated; when the
  memory cannot be allocated it writes through the NULL pointer.
\<close>

theorem start_thread_never_reports_failure:
  "start_thread_obtaining_mutex blk rc mutex ms1 ms2 h =
    (if blk = NULL then Inl BadPointer
     else Inr (True, h(blk \<mapsto> \<lparr>mymutex = mutex, sleep1 = ms1, sleep2 = ms2,
       thread_complete_success = (rc = 0)\<rparr>), if rc = 0 then [blk] else []))"
  by (simp add: start_thread_obtaining_mutex_def Let_def)

text \<open>
  A thread sleeps, takes the mutex, sleeps and releases it, and then reports success; both
  times it sleeps for the time it should wait before it takes the mutex. The time for which it
  should hold the mutex has no effect.
\<close>

theorem thread_ignores_hold_time:
  assumes "\<bar>sint (sleep1 d)\<bar> \<le> 2147483"
  shows "threadfunc (d\<lparr>sleep2 := t\<rparr>) =
    Inr ([Usleep (sleep1 d * 1000), Lock (mymutex d), Usleep (sleep1 d * 1000), Unlock (mymutex d)],
      d\<lparr>sleep2 := t, thread_complete_success := True\<rparr>)"
proof -
  have "- (2 ^ 31) \<le> sint (sleep1 d) * 1000 \<and> sint (sleep1 d) * 1000 < 2 ^ 31"
    using assms by auto
  then have "times_1000 (sleep1 d) = Inr (sleep1 d * 1000)"
    by (simp add: times_1000_def)
  then show ?thesis by (cases d) (simp add: threadfunc_def Let_def)
qed

theorem thread_ignores_hold_time_witness:
  "\<exists>d. threadfunc \<lparr>mymutex = 64, sleep1 = 5, sleep2 = 900, thread_complete_success = True\<rparr> =
    Inr ([Usleep 5000, Lock 64, Usleep 5000, Unlock 64], d)"
  using thread_ignores_hold_time [of "\<lparr>mymutex = 64, sleep1 = 5, sleep2 = 900,
    thread_complete_success = True\<rparr>" 900] by simp

text \<open>
  The writer exits with status 0 exactly when it has a file and a string and both \<open>open\<close> and
  \<open>write\<close> succeed. The file then holds the part of the string that \<open>write\<close> took, which may be
  shorter than the string, other files are unchanged and no descriptor stays open.
\<close>

theorem writer_success:
  assumes "w_write W (w_open W fname) writestring \<le> int (length writestring)"
  shows "(fst (writer_main W argv s) = 0 \<longleftrightarrow> length argv = 3 \<and> w_open W (argv ! 1) \<noteq> - 1 \<and>
      0 \<le> w_write W (w_open W (argv ! 1)) (argv ! 2)) \<and>
    (writer_main W [prog, fname, writestring] s = (0, t) \<longrightarrow>
      (\<exists>n. int n = w_write W (w_open W fname) writestring \<and> n \<le> length writestring \<and>
        t = s\<lparr>content := (content s)(fname \<mapsto> take n writestring)\<rparr>))"
proof
  show "fst (writer_main W argv s) = 0 \<longleftrightarrow> length argv = 3 \<and> w_open W (argv ! 1) \<noteq> - 1 \<and>
      0 \<le> w_write W (w_open W (argv ! 1)) (argv ! 2)"
    by (auto simp: writer_main_def write_string_to_file_def Let_def)
  have "n = nat (w_write W (w_open W fname) writestring) \<Longrightarrow> n \<le> length writestring" for n
    using assms by simp
  then show "writer_main W [prog, fname, writestring] s = (0, t) \<longrightarrow>
      (\<exists>n. int n = w_write W (w_open W fname) writestring \<and> n \<le> length writestring \<and>
        t = s\<lparr>content := (content s)(fname \<mapsto> take n writestring)\<rparr>)"
    by (cases s) (auto simp: writer_main_def write_string_to_file_def Let_def split: if_splits
        intro!: exI [of _ "nat (w_write W (w_open W fname) writestring)"])
qed

theorem writer_success_witness:
  "fst (writer_main \<lparr>w_open = (\<lambda>f. 3), w_write = (\<lambda>fd bs. 1)\<rparr> [[119], [102], [97, 98]]
    \<lparr>content = Map.empty, open_fds = []\<rparr>) = 0"
  using writer_success [of "\<lparr>w_open = (\<lambda>f. 3), w_write = (\<lambda>fd bs. 1)\<rparr>" "[102]" "[97, 98]"
      "[[119], [102], [97, 98]]" "\<lparr>content = Map.empty, open_fds = []\<rparr>"] by simp

end
