(* ===== verification/Thread_Race.thy ===== *)
theory Thread_Race
  imports Aesd_Prelude
begin

text \<open>
  Threads of \<open>examples/threading/threading.c\<close> that share a mutex, against the function that starts
  them: \<open>threadfunc\<close> and \<open>start_thread_obtaining_mutex\<close> write the same flag
  \<open>thread_complete_success\<close> without a lock. A step relation over any schedule; a sleep is the
  time between two steps.
\<close>

section \<open>Steps\<close>

text \<open>
  Where a thread is: not created; before it resets its flag; before the lock; with the lock; after
  the unlock; returned. And where its starter is: before \<open>pthread_create\<close>; after it; returned; or
  returned after \<open>pthread_create\<close> has failed.
\<close>

datatype runner = NotCreated | Entered | Waiting | Holding | Released | Ended

datatype starter_place = BeforeCreate | AfterCreate | Returned | CreateFailed

text \<open>For each thread its flag, its place and its starter's; and the holder of the mutex.\<close>

record threads =
  flag_of :: "nat \<Rightarrow> bool"
  runner_of :: "nat \<Rightarrow> runner"
  starter_of :: "nat \<Rightarrow> starter_place"
  holder :: "nat option"

definition threads_start :: threads where
  "threads_start = \<lparr>flag_of = (\<lambda>t. False), runner_of = (\<lambda>t. NotCreated), starter_of = (\<lambda>t. BeforeCreate),
     holder = None\<rparr>"

inductive thread_step :: "nat \<Rightarrow> threads \<Rightarrow> threads \<Rightarrow> bool" for t where
  create: "starter_of s t = BeforeCreate \<Longrightarrow> thread_step t s (s\<lparr>flag_of := (flag_of s)(t := False),
    starter_of := (starter_of s)(t := AfterCreate), runner_of := (runner_of s)(t := Entered)\<rparr>)"
| create_fails: "starter_of s t = BeforeCreate \<Longrightarrow> thread_step t s (s\<lparr>flag_of := (flag_of s)(t := False),
    starter_of := (starter_of s)(t := CreateFailed)\<rparr>)"
| mark: "starter_of s t = AfterCreate \<Longrightarrow> thread_step t s (s\<lparr>flag_of := (flag_of s)(t := True),
    starter_of := (starter_of s)(t := Returned)\<rparr>)"
| reset: "runner_of s t = Entered \<Longrightarrow> thread_step t s (s\<lparr>flag_of := (flag_of s)(t := False),
    runner_of := (runner_of s)(t := Waiting)\<rparr>)"
| take: "runner_of s t = Waiting \<Longrightarrow> holder s = None \<Longrightarrow>
    thread_step t s (s\<lparr>runner_of := (runner_of s)(t := Holding), holder := Some t\<rparr>)"
| release: "runner_of s t = Holding \<Longrightarrow>
    thread_step t s (s\<lparr>runner_of := (runner_of s)(t := Released), holder := None\<rparr>)"
| report: "runner_of s t = Released \<Longrightarrow> thread_step t s (s\<lparr>flag_of := (flag_of s)(t := True),
    runner_of := (runner_of s)(t := Ended)\<rparr>)"

inductive_cases thread_stepE: "thread_step t s s'"

inductive thread_run :: "threads \<Rightarrow> bool" where
  thread_run_start: "thread_run threads_start"
| thread_run_step: "thread_run s \<Longrightarrow> thread_step t s s' \<Longrightarrow> thread_run s'"

section \<open>The invariant\<close>

definition flag_ok :: "runner \<Rightarrow> starter_place \<Rightarrow> bool \<Rightarrow> bool" where
  "flag_ok r p b \<longleftrightarrow> (p = BeforeCreate \<or> p = CreateFailed \<longleftrightarrow> r = NotCreated) \<and> (r = Entered \<longrightarrow> (b \<longleftrightarrow> p = Returned)) \<and>
     (r = Ended \<longrightarrow> b)"

definition threads_inv :: "threads \<Rightarrow> bool" where
  "threads_inv s \<longleftrightarrow> (\<forall>t. flag_ok (runner_of s t) (starter_of s t) (flag_of s t)) \<and>
     (\<forall>t. runner_of s t = Holding \<longleftrightarrow> holder s = Some t)"

lemma threads_inv_step: "thread_step t s s' \<Longrightarrow> threads_inv s \<Longrightarrow> threads_inv s'"
proof -
  assume step: "thread_step t s s'" and inv: "threads_inv s"
  have "flag_ok (runner_of s t) (starter_of s t) (flag_of s t)" "runner_of s t = Holding \<longleftrightarrow> holder s = Some t"
    using inv by (simp_all add: threads_inv_def)
  with step inv show ?thesis
    by (elim thread_stepE) (auto simp: threads_inv_def flag_ok_def, metis runner.distinct(5))
qed

lemma threads_invariant: "thread_run s \<Longrightarrow> threads_inv s"
proof (induction rule: thread_run.induct)
  case thread_run_start
  show ?case by (simp add: threads_inv_def flag_ok_def threads_start_def)
qed (rule threads_inv_step)

section \<open>Runs of one thread\<close>

definition solo :: "nat \<Rightarrow> bool \<Rightarrow> runner \<Rightarrow> starter_place \<Rightarrow> threads" where
  "solo t b r p = \<lparr>flag_of = (\<lambda>u. False)(t := b), runner_of = (\<lambda>u. NotCreated)(t := r),
     starter_of = (\<lambda>u. BeforeCreate)(t := p), holder = (if r = Holding then Some t else None)\<rparr>"

lemma solo_steps:
  "thread_run (solo t False Entered AfterCreate)"
  "thread_run (solo t False Entered AfterCreate) \<Longrightarrow> thread_run (solo t True Entered Returned)"
  "thread_run (solo t b Entered p) \<Longrightarrow> thread_run (solo t False Waiting p)"
  "thread_run (solo t False Waiting AfterCreate) \<Longrightarrow> thread_run (solo t True Waiting Returned)"
  "thread_run (solo t b Waiting p) \<Longrightarrow> thread_run (solo t b Holding p)"
  "thread_run (solo t b Holding p) \<Longrightarrow> thread_run (solo t b Released p)"
  "thread_run (solo t b Released p) \<Longrightarrow> thread_run (solo t True Ended p)"
proof -
  show "thread_run (solo t False Entered AfterCreate)"
    using thread_run_step [OF thread_run_start create [of threads_start t]]
    by (simp add: threads_start_def solo_def fun_upd_def)
  show "thread_run (solo t False Entered AfterCreate) \<Longrightarrow> thread_run (solo t True Entered Returned)"
    by (drule thread_run_step [OF _ mark [of _ t]]) (simp_all add: solo_def)
  show "thread_run (solo t b Entered p) \<Longrightarrow> thread_run (solo t False Waiting p)"
    by (drule thread_run_step [OF _ reset [of _ t]]) (simp_all add: solo_def)
  show "thread_run (solo t False Waiting AfterCreate) \<Longrightarrow> thread_run (solo t True Waiting Returned)"
    by (drule thread_run_step [OF _ mark [of _ t]]) (simp_all add: solo_def)
  show "thread_run (solo t b Waiting p) \<Longrightarrow> thread_run (solo t b Holding p)"
    by (drule thread_run_step [OF _ take [of _ t]]) (simp_all add: solo_def)
  show "thread_run (solo t b Holding p) \<Longrightarrow> thread_run (solo t b Released p)"
    by (drule thread_run_step [OF _ release [of _ t]]) (simp_all add: solo_def)
  show "thread_run (solo t b Released p) \<Longrightarrow> thread_run (solo t True Ended p)"
    by (drule thread_run_step [OF _ report [of _ t]]) (simp_all add: solo_def)
qed

lemma solo_runs:
  "thread_run (solo t True Entered Returned)" "thread_run (solo t False Waiting Returned)"
  "thread_run (solo t True Waiting Returned)" "thread_run (solo t False Holding Returned)"
  "thread_run (solo t True Holding Returned)" "thread_run (solo t False Released Returned)"
  "thread_run (solo t True Released Returned)" "thread_run (solo t True Ended Returned)"
proof -
  show e: "thread_run (solo t True Entered Returned)" by (rule solo_steps(2) [OF solo_steps(1)])
  show w: "thread_run (solo t False Waiting Returned)" by (rule solo_steps(3) [OF e])
  show w': "thread_run (solo t True Waiting Returned)"
    by (rule solo_steps(4) [OF solo_steps(3) [OF solo_steps(1)]])
  show h: "thread_run (solo t False Holding Returned)" by (rule solo_steps(5) [OF w])
  show h': "thread_run (solo t True Holding Returned)" by (rule solo_steps(5) [OF w'])
  show r: "thread_run (solo t False Released Returned)" by (rule solo_steps(6) [OF h])
  show r': "thread_run (solo t True Released Returned)" by (rule solo_steps(6) [OF h'])
  show "thread_run (solo t True Ended Returned)" by (rule solo_steps(7) [OF r])
qed

text \<open>One thread holds the mutex, its starter returned, and a second has been created beside it.\<close>

definition two_threads :: threads where
  "two_threads = (let s = solo 0 True Holding Returned in
     s\<lparr>flag_of := (flag_of s)(1 := False), starter_of := (starter_of s)(1 := AfterCreate),
       runner_of := (runner_of s)(1 := Entered)\<rparr>)"

lemma two_threads_run: "thread_run two_threads"
  unfolding two_threads_def Let_def
  by (rule thread_run_step [OF solo_runs(5) [of 0] create]) (simp add: solo_def)

section \<open>Properties\<close>

text \<open>
  C39: In every schedule of any number of threads one thread at most holds the mutex. What the
  flag says once the start function has returned true is exactly this: before the thread has
  ended it can be true as well as false, but is always true while the thread has not begun; after
  it, it is true. So it means success only after a join.
\<close>

theorem flag_is_success_only_after_end:
  "{(runner_of s t, flag_of s t) |s. thread_run s \<and> starter_of s t = Returned} =
    {(Entered, True), (Waiting, True), (Waiting, False), (Holding, True), (Holding, False),
     (Released, True), (Released, False), (Ended, True)} \<and>
   (\<forall>s u v. thread_run s \<longrightarrow> runner_of s u = Holding \<longrightarrow> runner_of s v = Holding \<longrightarrow> u = v)"
proof (intro conjI allI impI equalityI subsetI)
  fix x
  assume "x \<in> {(runner_of s t, flag_of s t) |s. thread_run s \<and> starter_of s t = Returned}"
  then obtain s where s: "x = (runner_of s t, flag_of s t)" "thread_run s" "starter_of s t = Returned" by blast
  have "flag_ok (runner_of s t) (starter_of s t) (flag_of s t)"
    using threads_invariant [OF s(2)] by (simp add: threads_inv_def)
  then show "x \<in> {(Entered, True), (Waiting, True), (Waiting, False), (Holding, True), (Holding, False),
      (Released, True), (Released, False), (Ended, True)}"
    using s(1,3) by (cases "runner_of s t"; cases "flag_of s t") (simp_all add: flag_ok_def)
next
  fix x
  assume "x \<in> {(Entered, True), (Waiting, True), (Waiting, False), (Holding, True), (Holding, False),
    (Released, True), (Released, False), (Ended, True)}"
  then obtain r b where x: "x = (r, b)" and "thread_run (solo t b r Returned)"
    using solo_runs [of t] by blast
  moreover have "(r, b) = (runner_of (solo t b r Returned) t, flag_of (solo t b r Returned) t)"
    "starter_of (solo t b r Returned) t = Returned"
    by (simp_all add: solo_def)
  ultimately show "x \<in> {(runner_of s t, flag_of s t) |s. thread_run s \<and> starter_of s t = Returned}" by blast
next
  fix s u v
  assume "thread_run s" "runner_of s u = Holding" "runner_of s v = Holding"
  then show "u = v" using threads_invariant [of s] by (simp add: threads_inv_def)
qed

theorem flag_is_success_only_after_end_witness:
  "thread_run two_threads \<and> runner_of two_threads 1 = Entered \<and>
   {v. runner_of two_threads v = Holding} = {0} \<and>
   (Holding, True) \<in> {(runner_of s 0, flag_of s 0) |s. thread_run s \<and> starter_of s 0 = Returned}"
proof -
  have holds: "runner_of two_threads 0 = Holding" "runner_of two_threads 1 = Entered"
    by (simp_all add: two_threads_def solo_def)
  have "\<forall>v. runner_of two_threads v = Holding \<longrightarrow> v = 0"
    using conjunct2 [OF flag_is_success_only_after_end] two_threads_run holds(1) by blast
  then show ?thesis
    using two_threads_run holds by (auto simp: conjunct1 [OF flag_is_success_only_after_end])
qed

end
