(* ===== verification/Spec2Isabelle.thy ===== *)
theory Spec2Isabelle
  imports Queue_Checks Driver_Runs Driver_Schedules Device_Schedules Server_Threads Server_Interleaving Node_Handover Example_Programs Thread_Race
begin

text \<open>
  A verification development of the AESD assignments repository: a Linux character device that
  keeps the last ten write commands (\<open>aesd-char-driver/\<close>), a socket server that stores what it
  receives in a file or in that device and sends the contents back (\<open>server/\<close>), and the small
  programs of \<open>examples/\<close> and \<open>finder-app/\<close>.

  \<^bold>\<open>The program.\<close> The driver collects the bytes of writes until a newline, then moves the
  collected command into a circular buffer of ten entries. A process reads the concatenation of
  the commands, can seek in it, and can ask with an \<open>ioctl\<close> for the log from a place in one of
  the commands. The server starts one thread for each connection; a thread receives bytes, stores
  a message when it is complete, and answers with everything stored so far. In file mode a mutex
  protects the file and a timer writes a time stamp to it; in device mode the store is the
  driver, and a message can be a textual seek command that the server turns into the \<open>ioctl\<close>.

  \<^bold>\<open>How the code is modelled.\<close> What C leaves undefined (an access out of bounds, a bad pointer, a
  double free, signed overflow, the use of an indeterminate value, the unlock of a mutex that is
  not held) and waiting for ever are values of \<open>fault\<close>, so a theorem with the result \<open>Inr\<close> says
  that none of them happens. Error codes are ordinary results. Machine integers are words of
  their width. Pointers are 64-bit words into explicit stores: the kernel heap with typed
  blocks, the memory of the process, the cells of the queue. Loops are \<open>fun\<close> or \<open>function\<close> with
  a measure where they end for every input, and \<open>partial_function (option)\<close> where they may not;
  then the theorems give a value, so they include termination. No fuel is used. What is not in
  the repository (kernel functions, system calls, the scheduler) is a parameter: a field of a
  record with its documented contract as a named hypothesis, for which \<open>first_fit_kernel\<close> and
  \<open>file_posix\<close> are concrete instances.

  \<^bold>\<open>Theories.\<close>

  \<^item> \<open>Aesd_Prelude\<close>: machine types, \<open>fault\<close> and the result type \<open>res\<close>, lemmas on words and lists.
  \<^item> \<open>Circular_Buffer\<close> (\<open>aesd-circular-buffer.c\<close>, \<open>.h\<close>): the ring with its cursors; \<open>cb_inv\<close> is its
    invariant and \<open>cb_list\<close> the list that it represents. Every function of the file refines an
    operation on that list.
  \<^item> \<open>Kernel_Interface\<close>: the kernel heap, user memory, allocator and copy functions with their
    contracts; a first-fit allocator that meets them with room for 32 blocks.
  \<^item> \<open>Char_Driver\<close> (\<open>main.c\<close>): the state of the module, open, release, seek, read, write, module start
    and exit. \<open>device s cmds pend\<close> relates a state to the commands held and the command being
    collected. \<open>Driver_Properties\<close> has the properties of single calls; \<open>Seek_Ioctl\<close> (\<open>main.c\<close>,
    \<open>aesd_ioctl.h\<close>) the seek command with the layout of its request.
  \<^item> \<open>Driver_Runs\<close>: any sequence of system calls on any number of open files simulates an abstract
    log with one position for each file, from module start on. \<open>Driver_Races\<close>: a read, which takes no
    lock, between two stores of \<open>aesd_circular_buffer_add_entry\<close> (\<open>add_entry_states\<close> has the ring after
    each), and in two parts against the commit of a writer.
  \<^item> \<open>Driver_Interleaving\<close>, \<open>Driver_Invariant\<close>, \<open>Driver_Alone\<close>, \<open>Driver_Schedules\<close> (\<open>main.c\<close>): any number of
    processes in \<open>aesd_write\<close>, \<open>aesd_read\<close>, \<open>aesd_llseek\<close> and \<open>aesd_ioctl\<close> at once, as a step relation.
    A write is its parts between the lock and the unlock of \<open>dev->lock\<close>, a seek command its
    three parts with the same lock, a read its look-up and its copy, without the lock, and a seek its
    read of the ring. The update of the ring by a commit, a look-up and a seek to the end are
    intervals: one of the latter two that overlaps an update meets the ring of \<open>Driver_Races\<close> and has no
    step, because its result is not determined; the copy of a read is at its end, where it needs the
    block. \<open>order\<close> is an auxiliary list of the writes that have taken effect, \<open>updates\<close> an auxiliary
    count of begins and ends of updates. \<open>driver_inv\<close> is the invariant, with one lemma per part; a
    process that runs alone does what the functions of \<open>Char_Driver\<close> and \<open>Seek_Ioctl\<close> do.
  \<^item> \<open>Tail_Queue\<close> (\<open>server/queue.h\<close>): the \<open>TAILQ\<close> macros on a store of pointer cells; the locale
    \<open>element_list\<close> states what a client may rely on and is interpreted on the macros.
  \<^item> \<open>Queue_Traversals\<close>, \<open>Singly_Linked\<close>, \<open>Doubly_Linked\<close> (\<open>server/queue.h\<close>): the rest of the header,
    on the same store. The locale \<open>traversal\<close> has the laws of the loops that may change the list
    and of the searches, and is interpreted on the four families and on the backward direction
    of \<open>TAILQ\<close>; \<open>STAILQ\<close> also meets \<open>element_list\<close>.
  \<^item> \<open>Queue_Checks\<close> (\<open>server/queue.h\<close>): what the macros do in addition in a debug build: the checks of
    the links, for which \<open>panic\<close> is a fault, the traces, and the links that a removal overwrites.
  \<^item> \<open>Socket_Command\<close> (\<open>aesdsocket.c\<close>): \<open>find_delimter_position\<close> and \<open>handle_ioctl_commainds\<close> with the
    three loops that parse the text of a seek command.
  \<^item> \<open>Server_Files\<close>: \<open>dump_buffer_to_file\<close>, \<open>dump_file_to_socket\<close> and \<open>print_time_to_file\<close> over the
    system calls. The locale \<open>outfile\<close> is the contract of a store, interpreted on a regular file
    and on the model of the driver, so that the server is verified on both. The server has its own
    copy of \<open>aesd_ioctl.h\<close>; its request number and the layout of its request agree with the driver's.
  \<^item> \<open>Connection_Worker\<close>: \<open>connection_worker\<close>, in both modes, for a whole connection.
  \<^item> \<open>Device_Connections\<close>, \<open>Device_Schedules\<close> (\<open>aesdsocket.c\<close>): the connection threads with the
    device as the store under any schedule of whole system calls, where no mutex is taken between
    the reads of an answer; a chunk can be a seek command, which is one call of the driver. A read
    that overlaps a commit is left to \<open>Driver_Interleaving\<close>. \<open>conns_inv\<close> is the
    invariant, \<open>effect\<close> what a step does to the abstract store.
  \<^item> \<open>Server_Threads\<close>: the main thread: \<open>create_node\<close>, \<open>cleanup\<close>, \<open>sigint_handler\<close>, \<open>open_socket\<close> with
    its accept loop, \<open>main\<close>. How the thread of a connection ends, or that it does not, is part of the
    connection, and \<open>pthread_join\<close> waits for it. The list of connections is used through the
    interpretation of \<open>element_list\<close>.
  \<^item> \<open>Server_Interleaving\<close>: the connection threads and the timer's handler under any schedule, as a
    step relation, with invariants by rule induction, the agreement of the steps with the
    functions of \<open>Server_Files\<close>, and what can and what cannot be finished.
  \<^item> \<open>Node_Handover\<close>: \<open>create_node\<close> against the start of the thread that it creates.
  \<^item> \<open>Example_Programs\<close>: \<open>systemcalls.c\<close>, \<open>threading.c\<close>, \<open>writer.c\<close> and the constants of
    \<open>autotest-validate.c\<close>, with the program that prints them and their test. \<open>Thread_Race\<close>: the
    threads of \<open>threading.c\<close> and their starters on one mutex and their flags, under any schedule.

  \<^bold>\<open>What is shown.\<close> The ring and the driver refine "append, and keep the last ten
  commands"; no command pointer is lost or freed twice; reads, seeks and the seek command deliver the
  right bytes; a connection stores every message and is answered with the whole store, alone and under
  every interleaving in file mode. In every schedule of processes the writes to the driver take effect
  one after the other, its memory stays well typed, and every process has a next step but for those
  that wait for the mutex, a reader whose look-up overlaps an update or whose command was dropped, and a
  seek command for more than 500 bytes; a seek command answers from the log of that moment. In a debug build the macros of \<open>queue.h\<close> do what they do without, and their
  checks pass exactly on well-formed queues. In device mode, in schedules of whole system calls, the
  chunks of all connections are stored whole and in order, an answer is the contents as long as no
  command was dropped, and a seek command with an answer of at most 500 bytes is answered from the log of
  its moment. On a signal the server ends with every thread joined and every node freed exactly if
  every thread ends; else it waits for ever.
  Other properties state what the code does where it departs from its intention: error returns that keep
  the mutex, copies beyond a fixed array, a seek before the start that succeeds, an entry structure that
  is never freed, a read without a lock that meets the ring in the middle of an update or copies from a freed block, a failed write or a refused seek
  command after which no write begins again, an answer in device mode that skips the bytes of a dropped
  command, a signal handler that locks a mutex its thread may hold, a node whose address is written
  after its thread has started, a \<open>wait\<close> whose result is not checked.

  \<^bold>\<open>Bounds.\<close> Commands are at most 2147483647 bytes where a loop of the code counts
  them with an \<open>int\<close>; the ioctl is correct for answers of at most 500 bytes, and a
  connection for messages within the bounds in the statements of \<open>Connection_Worker\<close>.
  \<open>kernel_room K N\<close> bounds the number of blocks allocated, because the driver does not
  check the allocator's result; a write uses at most two, a seek command one that it frees.
  \<open>served\<close> is that bound over a whole schedule, with writes of at most \<open>B\<close>
  bytes and 2147483647 bytes in all; \<open>dev_budget\<close> is the number of writes for which it
  lasts.

  \<^bold>\<open>Not modelled.\<close> Debug and log output. Inside the driver, two threads that share
  one open file, and module exit during a call, which the kernel does not allow while a file is open. What
  a look-up that overlaps an update goes on to do, beyond the faults of \<open>Driver_Races\<close>; stores in another
  order than that of the source. In the schedules of connections on the device, a read that overlaps a
  commit of another connection, and runs in which a seek command ends with a newline or has a number
  above ten: the connection that receives one faults or leaves the driver locked, as shown for the
  single call. The contents of socket addresses, the name look-up and the process group of \<open>open_socket\<close>;
  in \<open>Server_Threads\<close>, signals that arrive outside \<open>accept\<close> or in another thread, and the
  time at which a thread ends. The string that the test submodule provides is an
  argument of the test. The shell scripts, the build and the CI files, which have no C code.
\<close>

end
